theory Spec2Isabelle
  imports Complex_Main "HOL-Library.Word"
begin

unbundle bit_operations_syntax

section \<open>The triangle-node pool (Patch.cpp, CTriNodePool)\<close>

text \<open>
  A \<open>TriTreeNode*\<close> is the address of one of the two root triangles of the patch
  or of a slot of the node pool; \<open>nullptr\<close> is \<open>None\<close>.
\<close>

datatype addr = BaseLeft | BaseRight | Pool nat

text \<open>
  Modelled from the spec: the declaration of \<open>TriTreeNode\<close> (Patch.h) is not among the
  sources. The spec (section 3) lists its five links; a default-constructed or zeroed
  node has all of them null.
\<close>

record TriTreeNode =
  LeftChild :: "addr option"
  RightChild :: "addr option"
  BaseNeighbor :: "addr option"
  LeftNeighbor :: "addr option"
  RightNeighbor :: "addr option"

definition zeroNode :: TriTreeNode where
  "zeroNode = \<lparr>LeftChild = None, RightChild = None, BaseNeighbor = None,
     LeftNeighbor = None, RightNeighbor = None\<rparr>"

text \<open>
  Modelled from the spec: \<open>IsLeaf\<close> and \<open>IsBranch\<close> (Patch.h) are not among the sources.
  Spec, section 3: a node is a leaf iff both children are null, a branch otherwise.
\<close>

definition IsLeaf :: "TriTreeNode \<Rightarrow> bool" where
  "IsLeaf n = (LeftChild n = None \<and> RightChild n = None)"

definition IsBranch :: "TriTreeNode \<Rightarrow> bool" where
  "IsBranch n = (\<not> IsLeaf n)"

text \<open>
  \<open>std::vector<TriTreeNode> pool\<close> is a list, \<open>nextTriNodeIdx\<close> the watermark. The
  watermark is a \<open>size_t\<close>; it is only ever advanced below \<open>pool.size()\<close>, so it is a
  \<open>nat\<close> here.
\<close>

record CTriNodePool =
  pool :: "TriTreeNode list"
  nextTriNodeIdx :: nat

datatype fault = AssertionFailed | OutOfRange | NullPointer

text \<open>The constructor, with its two assertions as a fault.\<close>

definition CTriNodePool_ctor :: "nat \<Rightarrow> fault + CTriNodePool" where
  "CTriNodePool_ctor poolSize =
     (if poolSize mod 2 \<noteq> 0 then Inl AssertionFailed
      else if \<not> poolSize > 0 then Inl AssertionFailed
      else Inr \<lparr>pool = replicate poolSize zeroNode, nextTriNodeIdx = 0\<rparr>)"

text \<open>
  Modelled from the spec: \<open>OutOfNodes\<close> (Patch.h) is not among the sources. Spec, section
  4.1: exhausted when the remaining capacity is below two.
\<close>

definition OutOfNodes :: "CTriNodePool \<Rightarrow> bool" where
  "OutOfNodes p = (length (pool p) - nextTriNodeIdx p < 2)"

text \<open>\<open>memset\<close> of the first \<open>nextTriNodeIdx\<close> slots, then the watermark back to zero.\<close>

definition CTriNodePool_Reset :: "CTriNodePool \<Rightarrow> CTriNodePool" where
  "CTriNodePool_Reset p =
     \<lparr>pool = (if nextTriNodeIdx p > 0
              then replicate (min (nextTriNodeIdx p) (length (pool p))) zeroNode
                   @ drop (nextTriNodeIdx p) (pool p)
              else pool p),
      nextTriNodeIdx = 0\<rparr>"

text \<open>
  \<open>Allocate\<close> returns its \<open>bool\<close>, the two output references and the pool. The handles
  are the addresses of the slots \<open>pool[nextTriNodeIdx++]\<close>.
\<close>

definition Allocate :: "CTriNodePool \<Rightarrow> bool \<times> addr option \<times> addr option \<times> CTriNodePool" where
  "Allocate p =
     (if OutOfNodes p then (False, None, None, p)
      else (let left = Pool (nextTriNodeIdx p);
                p1 = p\<lparr>nextTriNodeIdx := nextTriNodeIdx p + 1\<rparr>;
                right = Pool (nextTriNodeIdx p1);
                p2 = p1\<lparr>nextTriNodeIdx := nextTriNodeIdx p1 + 1\<rparr>
            in (True, Some left, Some right, p2)))"

text \<open>The arena invariant of the spec (section 3) together with the zeroed free part.\<close>

definition pool_inv :: "CTriNodePool \<Rightarrow> bool" where
  "pool_inv p = (even (nextTriNodeIdx p) \<and> even (length (pool p))
      \<and> nextTriNodeIdx p \<le> length (pool p)
      \<and> list_all (\<lambda>n. n = zeroNode) (drop (nextTriNodeIdx p) (pool p)))"

section \<open>The patch (Patch.cpp, Patch)\<close>

text \<open>
  \<open>int2\<close> is a pair (\<open>fst\<close> is \<open>.x\<close>, \<open>snd\<close> is \<open>.y\<close>), \<open>float3\<close> a triple. A \<open>float\<close> is
  a real number, and the arithmetic on it is exact: the rounding of every operation to
  single precision, underflow, overflow to infinity and NaN are not modelled. What is
  proved below of float values uses only the order and \<open>max\<close>, which are exact on
  floats; nothing is concluded from the value of a sum or a product.
\<close>

type_synonym int2 = "int \<times> int"
type_synonym float3 = "real \<times> real \<times> real"

text \<open>\<open>currentVariance\<close> points to the first entry of one of the two tables, or is null.\<close>

datatype var_sel = VarLeft | VarRight

record Patch =
  baseLeft :: TriTreeNode
  baseRight :: TriTreeNode
  currentPool :: CTriNodePool
  vertices :: "int \<Rightarrow> real"
  varianceLeft :: "real list"
  varianceRight :: "real list"
  currentVariance :: "var_sel option"
  varianceMaxLimit :: real
  camDistLODFactor :: real
  isDirty :: bool
  coors :: int2

text \<open>Reading and writing the node at an address.\<close>

definition nd :: "Patch \<Rightarrow> addr \<Rightarrow> TriTreeNode" where
  "nd s a = (case a of BaseLeft \<Rightarrow> baseLeft s | BaseRight \<Rightarrow> baseRight s
             | Pool i \<Rightarrow> pool (currentPool s) ! i)"

definition upd :: "Patch \<Rightarrow> addr \<Rightarrow> (TriTreeNode \<Rightarrow> TriTreeNode) \<Rightarrow> Patch" where
  "upd s a f = (case a of
       BaseLeft \<Rightarrow> s\<lparr>baseLeft := f (baseLeft s)\<rparr>
     | BaseRight \<Rightarrow> s\<lparr>baseRight := f (baseRight s)\<rparr>
     | Pool i \<Rightarrow> s\<lparr>currentPool := (currentPool s)\<lparr>pool := (pool (currentPool s))[i := f (pool (currentPool s) ! i)]\<rparr>\<rparr>)"

definition setBase :: "Patch \<Rightarrow> addr \<Rightarrow> addr option \<Rightarrow> Patch" where
  "setBase s a v = upd s a (\<lambda>n. n\<lparr>BaseNeighbor := v\<rparr>)"

definition setLeft :: "Patch \<Rightarrow> addr \<Rightarrow> addr option \<Rightarrow> Patch" where
  "setLeft s a v = upd s a (\<lambda>n. n\<lparr>LeftNeighbor := v\<rparr>)"

definition setRight :: "Patch \<Rightarrow> addr \<Rightarrow> addr option \<Rightarrow> Patch" where
  "setRight s a v = upd s a (\<lambda>n. n\<lparr>RightNeighbor := v\<rparr>)"

text \<open>\<open>std::numeric_limits<float>::max()\<close>: \<open>(2 ^ 24 - 1) * 2 ^ 104\<close>.\<close>

definition FLT_MAX :: real where
  "FLT_MAX = 340282346638528859811704183484516925440"

text \<open>
  The constructor and \<open>Patch::Reset\<close>. The macro \<open>VARIANCE_DEPTH\<close> (Patch.h) is a
  parameter; the pool is the one \<open>Tessellate\<close> binds.
\<close>

definition Patch_ctor :: "nat \<Rightarrow> CTriNodePool \<Rightarrow> (int \<Rightarrow> real) \<Rightarrow> Patch" where
  "Patch_ctor VARIANCE_DEPTH p verts =
     \<lparr>baseLeft = zeroNode, baseRight = zeroNode, currentPool = p, vertices = verts,
      varianceLeft = replicate (2 ^ VARIANCE_DEPTH) 0,
      varianceRight = replicate (2 ^ VARIANCE_DEPTH) 0,
      currentVariance = None, varianceMaxLimit = FLT_MAX, camDistLODFactor = 1,
      isDirty = True, coors = (-1, -1)\<rparr>"

definition Patch_Reset :: "Patch \<Rightarrow> Patch" where
  "Patch_Reset s =
     (let s1 = s\<lparr>baseLeft := zeroNode\<rparr>;
          s2 = s1\<lparr>baseRight := zeroNode\<rparr>;
          s3 = setBase s2 BaseLeft (Some BaseRight);
          s4 = setBase s3 BaseRight (Some BaseLeft)
      in s4)"

text \<open>
  Results: \<open>None\<close> is a run that has not returned within the fuel, \<open>Some (Inl f)\<close> a
  fault (undefined behaviour in the source), \<open>Some (Inr v)\<close> a return.
\<close>

definition bindR :: "(fault + 'a) option \<Rightarrow> ('a \<Rightarrow> (fault + 'b) option) \<Rightarrow> (fault + 'b) option" where
  "bindR m f = (case m of None \<Rightarrow> None | Some (Inl e) \<Rightarrow> Some (Inl e) | Some (Inr v) \<Rightarrow> f v)"

definition deref :: "addr option \<Rightarrow> (addr \<Rightarrow> (fault + 'b) option) \<Rightarrow> (fault + 'b) option" where
  "deref p f = (case p of None \<Rightarrow> Some (Inl NullPointer) | Some a \<Rightarrow> f a)"

subsection \<open>Split\<close>

text \<open>Re-pointing a side neighbour at a new child: the three slots in the source's order.\<close>

definition relinkLeft :: "Patch \<Rightarrow> addr \<Rightarrow> addr \<Rightarrow> Patch" where
  "relinkLeft s tri lc =
     (case LeftNeighbor (nd s tri) of
        None \<Rightarrow> s
      | Some nb \<Rightarrow>
          if BaseNeighbor (nd s nb) = Some tri then setBase s nb (Some lc)
          else if LeftNeighbor (nd s nb) = Some tri then setLeft s nb (Some lc)
          else if RightNeighbor (nd s nb) = Some tri then setRight s nb (Some lc)
          else s)"

definition relinkRight :: "Patch \<Rightarrow> addr \<Rightarrow> addr \<Rightarrow> Patch" where
  "relinkRight s tri rc =
     (case RightNeighbor (nd s tri) of
        None \<Rightarrow> s
      | Some nb \<Rightarrow>
          if BaseNeighbor (nd s nb) = Some tri then setBase s nb (Some rc)
          else if RightNeighbor (nd s nb) = Some tri then setRight s nb (Some rc)
          else if LeftNeighbor (nd s nb) = Some tri then setLeft s nb (Some rc)
          else s)"

text \<open>
  \<open>Allocate(tri->LeftChild, tri->RightChild)\<close>: the watermark moves, then the two
  references are written.
\<close>

definition allocChildren :: "Patch \<Rightarrow> addr \<Rightarrow> bool \<times> Patch" where
  "allocChildren s tri =
     (case Allocate (currentPool s) of
        (ok, l, r, p') \<Rightarrow>
          (ok, upd (s\<lparr>currentPool := p'\<rparr>) tri (\<lambda>n. n\<lparr>LeftChild := l, RightChild := r\<rparr>)))"

text \<open>
  The neighbour links of the two new children that come from the parent, and the
  re-pointing of the parent's side neighbours.
\<close>

definition linkChildren :: "Patch \<Rightarrow> addr \<Rightarrow> addr \<Rightarrow> addr \<Rightarrow> Patch" where
  "linkChildren s tri lc rc =
     (let s1 = setBase s lc (LeftNeighbor (nd s tri));
          s2 = setLeft s1 lc (Some rc);
          s3 = setBase s2 rc (RightNeighbor (nd s2 tri));
          s4 = setRight s3 rc (Some lc);
          s5 = relinkLeft s4 tri lc;
          s6 = relinkRight s5 tri rc
      in s6)"

text \<open>The cross links with the children of a base neighbour that is a branch.\<close>

definition crossLink :: "Patch \<Rightarrow> addr \<Rightarrow> addr \<Rightarrow> addr \<Rightarrow> addr \<Rightarrow> addr \<Rightarrow> Patch" where
  "crossLink s lc rc b blc brc =
     (let s1 = setRight s blc (Some rc);
          s2 = setLeft s1 brc (Some lc);
          s3 = setRight s2 lc (RightChild (nd s2 b));
          s4 = setLeft s3 rc (LeftChild (nd s3 b))
      in s4)"

fun Split :: "nat \<Rightarrow> addr \<Rightarrow> Patch \<Rightarrow> (fault + bool \<times> Patch) option" where
  "Split 0 tri s = None"
| "Split (Suc n) tri s =
     (if \<not> IsLeaf (nd s tri) then Some (Inr (True, s))
      else
        bindR (case BaseNeighbor (nd s tri) of
                 None \<Rightarrow> Some (Inr s)
               | Some b \<Rightarrow>
                   if BaseNeighbor (nd s b) \<noteq> Some tri
                   then bindR (Split n b s) (\<lambda>(ok, s'). Some (Inr s'))
                   else Some (Inr s))
          (\<lambda>s1.
             case allocChildren s1 tri of
               (ok, s2) \<Rightarrow>
                 if \<not> ok then Some (Inr (False, s2))
                 else
                   deref (LeftChild (nd s2 tri)) (\<lambda>lc.
                   deref (RightChild (nd s2 tri)) (\<lambda>rc.
                     let s3 = linkChildren s2 tri lc rc
                     in (case BaseNeighbor (nd s3 tri) of
                           Some b \<Rightarrow>
                             if IsBranch (nd s3 b)
                             then deref (LeftChild (nd s3 b)) (\<lambda>blc.
                                  deref (RightChild (nd s3 b)) (\<lambda>brc.
                                    Some (Inr (True, crossLink s3 lc rc b blc brc))))
                             else bindR (Split n b s3) (\<lambda>(ok, s'). Some (Inr (True, s')))
                         | None \<Rightarrow>
                             Some (Inr (True, setLeft (setRight s3 lc None) rc None)))))))"

subsection \<open>Variance\<close>

text \<open>
  \<open>GetHeight\<close>; the macro \<open>PATCH_SIZE\<close> (Patch.h) is a parameter. The assertion
  against the height map of \<open>readMap\<close> (not among the sources) is left out.
\<close>

definition GetHeight :: "int \<Rightarrow> Patch \<Rightarrow> int2 \<Rightarrow> real" where
  "GetHeight PATCH_SIZE s pos =
     (let vindex = (snd pos * (PATCH_SIZE + 1) + fst pos) * 3 + 1 in vertices s vindex)"

definition varTable :: "Patch \<Rightarrow> var_sel \<Rightarrow> real list" where
  "varTable s sel = (case sel of VarLeft \<Rightarrow> varianceLeft s | VarRight \<Rightarrow> varianceRight s)"

text \<open>
  \<open>currentVariance[node]\<close>, read and written. \<open>node\<close> is an \<open>int\<close>: a signed 32-bit word
  (it doubles at every level, so its width matters). An index outside the table is a
  fault.
\<close>

definition readVariance :: "Patch \<Rightarrow> 32 word \<Rightarrow> fault + real" where
  "readVariance s node =
     (case currentVariance s of
        None \<Rightarrow> Inl NullPointer
      | Some sel \<Rightarrow>
          if 0 \<le> sint node \<and> nat (sint node) < length (varTable s sel)
          then Inr (varTable s sel ! nat (sint node))
          else Inl OutOfRange)"

definition writeVariance :: "Patch \<Rightarrow> 32 word \<Rightarrow> real \<Rightarrow> fault + Patch" where
  "writeVariance s node v =
     (case currentVariance s of
        None \<Rightarrow> Inl NullPointer
      | Some sel \<Rightarrow>
          if 0 \<le> sint node \<and> nat (sint node) < length (varTable s sel)
          then Inr (case sel of
                      VarLeft \<Rightarrow> s\<lparr>varianceLeft := (varianceLeft s)[nat (sint node) := v]\<rparr>
                    | VarRight \<Rightarrow> s\<lparr>varianceRight := (varianceRight s)[nat (sint node) := v]\<rparr>)
          else Inl OutOfRange)"

text \<open>
  The variance of the triangle itself, with the shore-line boost. The difference, the
  sum and the three products are exact here; in the code each is rounded (a product of
  two tiny heights of opposite sign underflows to \<open>-0.0f\<close> there and is not below zero).
\<close>

definition ownVariance :: "float3 \<Rightarrow> real \<Rightarrow> real" where
  "ownVariance hgts mhgt =
     (case hgts of (hx, hy, hz) \<Rightarrow>
        let myVariance = \<bar>mhgt - ((hx + hy) * 0.5)\<bar>
        in if hx * hy < 0 \<or> hx * mhgt < 0 \<or> hy * mhgt < 0
           then max (myVariance * 1.5) 20
           else myVariance)"

text \<open>The tail of \<open>RecursComputeVariance\<close>: the floor and the guarded store.\<close>

definition storeVariance :: "nat \<Rightarrow> Patch \<Rightarrow> 32 word \<Rightarrow> real \<Rightarrow> (fault + real \<times> Patch) option" where
  "storeVariance VARIANCE_DEPTH s node myVariance =
     (let myVariance = max 0.001 myVariance
      in if sint node < 2 ^ VARIANCE_DEPTH
         then (case writeVariance s node myVariance of
                 Inl f \<Rightarrow> Some (Inl f)
               | Inr s' \<Rightarrow> Some (Inr (myVariance, s')))
         else Some (Inr (myVariance, s)))"

definition midpoint :: "int2 \<Rightarrow> int2 \<Rightarrow> int2" where
  "midpoint left rght = ((fst left + fst rght) div 2, (snd left + snd rght) div 2)"

fun RecursComputeVariance ::
  "int \<Rightarrow> nat \<Rightarrow> nat \<Rightarrow> Patch \<Rightarrow> int2 \<Rightarrow> int2 \<Rightarrow> int2 \<Rightarrow> float3 \<Rightarrow> 32 word
     \<Rightarrow> (fault + real \<times> Patch) option" where
  "RecursComputeVariance PATCH_SIZE VARIANCE_DEPTH 0 s left rght apex hgts node = None"
| "RecursComputeVariance PATCH_SIZE VARIANCE_DEPTH (Suc n) s left rght apex hgts node =
     (let mpos = midpoint left rght;
          mhgt = GetHeight PATCH_SIZE s mpos;
          myVariance = ownVariance hgts mhgt
      in if \<bar>fst left - fst rght\<bar> \<ge> 4 \<or> \<bar>snd left - snd rght\<bar> \<ge> 4
         then (case hgts of (hx, hy, hz) \<Rightarrow>
                 bindR (RecursComputeVariance PATCH_SIZE VARIANCE_DEPTH n s apex left mpos
                          (hz, hx, mhgt) (push_bit 1 node))
                   (\<lambda>(child1Variance, s1).
                 bindR (RecursComputeVariance PATCH_SIZE VARIANCE_DEPTH n s1 rght apex mpos
                          (hy, hz, mhgt) (push_bit 1 node + 1))
                   (\<lambda>(child2Variance, s2).
                      storeVariance VARIANCE_DEPTH s2 node
                        (max (max myVariance child1Variance) child2Variance))))
         else storeVariance VARIANCE_DEPTH s node myVariance)"

definition ComputeVariance :: "int \<Rightarrow> nat \<Rightarrow> nat \<Rightarrow> Patch \<Rightarrow> (fault + Patch) option" where
  "ComputeVariance PATCH_SIZE VARIANCE_DEPTH n s =
     (let s1 = s\<lparr>currentVariance := Some VarLeft\<rparr>;
          left = (0, PATCH_SIZE); rght = (PATCH_SIZE, 0); apex = (0, 0);
          hgts = (GetHeight PATCH_SIZE s1 left, GetHeight PATCH_SIZE s1 rght,
                  GetHeight PATCH_SIZE s1 apex)
      in bindR (RecursComputeVariance PATCH_SIZE VARIANCE_DEPTH n s1 left rght apex hgts 1)
           (\<lambda>(v, s2).
              let s3 = s2\<lparr>currentVariance := Some VarRight\<rparr>;
                  left = (PATCH_SIZE, 0); rght = (0, PATCH_SIZE); apex = (PATCH_SIZE, PATCH_SIZE);
                  hgts = (GetHeight PATCH_SIZE s3 left, GetHeight PATCH_SIZE s3 rght,
                          GetHeight PATCH_SIZE s3 apex)
              in bindR (RecursComputeVariance PATCH_SIZE VARIANCE_DEPTH n s3 left rght apex hgts 1)
                   (\<lambda>(v, s4). Some (Inr (s4\<lparr>isDirty := False\<rparr>)))))"

subsection \<open>Tessellation\<close>

text \<open>
  The metric of \<open>RecursTessellate\<close>: the default, or the stored variance scaled. The
  three products are exact here; in the code each is rounded to single precision, so
  a metric next to the threshold may fall on the other side of it there.
\<close>

definition triVariance :: "int \<Rightarrow> nat \<Rightarrow> Patch \<Rightarrow> int2 \<Rightarrow> int2 \<Rightarrow> 32 word \<Rightarrow> fault + real" where
  "triVariance PATCH_SIZE VARIANCE_DEPTH s left right node =
     (if sint node < 2 ^ VARIANCE_DEPTH
      then (let sizeX = max (fst left - fst right) (fst right - fst left);
                sizeY = max (snd left - snd right) (snd right - snd left);
                size = max sizeX sizeY
            in case readVariance s node of
                 Inl f \<Rightarrow> Inl f
               | Inr v \<Rightarrow> Inr ((min v (varianceMaxLimit s) * real_of_int PATCH_SIZE
                                 * real_of_int size) * camDistLODFactor s))
      else Inr 10)"

fun RecursTessellate ::
  "int \<Rightarrow> nat \<Rightarrow> nat \<Rightarrow> Patch \<Rightarrow> addr \<Rightarrow> int2 \<Rightarrow> int2 \<Rightarrow> int2 \<Rightarrow> 32 word
     \<Rightarrow> (fault + Patch) option" where
  "RecursTessellate PATCH_SIZE VARIANCE_DEPTH 0 s tri left right apex node = None"
| "RecursTessellate PATCH_SIZE VARIANCE_DEPTH (Suc n) s tri left right apex node =
     (if \<bar>fst left - fst right\<bar> \<le> 1 \<and> \<bar>snd left - snd right\<bar> \<le> 1 then Some (Inr s)
      else
        case triVariance PATCH_SIZE VARIANCE_DEPTH s left right node of
          Inl f \<Rightarrow> Some (Inl f)
        | Inr tv \<Rightarrow>
            if tv \<le> 1 then Some (Inr s)
            else
              bindR (Split n tri s) (\<lambda>(ok, s1).
                if IsBranch (nd s1 tri)
                then (let center = midpoint left right
                      in deref (LeftChild (nd s1 tri)) (\<lambda>lc.
                         bindR (RecursTessellate PATCH_SIZE VARIANCE_DEPTH n s1 lc apex left center
                                  (push_bit 1 node))
                           (\<lambda>s2.
                         deref (RightChild (nd s2 tri)) (\<lambda>rc.
                           RecursTessellate PATCH_SIZE VARIANCE_DEPTH n s2 rc right apex center
                             (push_bit 1 node + 1)))))
                else Some (Inr s1)))"

text \<open>
  \<open>Tessellate\<close>. \<open>camDist\<close> is \<open>midPos.distance(camPos)\<close> (\<open>float3\<close> and \<open>readMap\<close> are not
  among the sources), \<open>p\<close> the pool \<open>GetPool(shadowPass)\<close> returns.
\<close>

definition Tessellate ::
  "int \<Rightarrow> nat \<Rightarrow> nat \<Rightarrow> Patch \<Rightarrow> real \<Rightarrow> int \<Rightarrow> CTriNodePool \<Rightarrow> (fault + bool \<times> Patch) option" where
  "Tessellate PATCH_SIZE VARIANCE_DEPTH n s camDist viewRadius p =
     (let s1 = s\<lparr>currentPool := p\<rparr>;
          f1 = camDist;
          f2 = f1 * (300 / real_of_int viewRadius);
          f3 = max 1 f2;
          f4 = 1 / f3;
          s2 = s1\<lparr>camDistLODFactor := f4\<rparr>;
          s3 = s2\<lparr>varianceMaxLimit := real_of_int viewRadius * 0.35\<rparr>;
          s4 = s3\<lparr>currentVariance := Some VarLeft\<rparr>;
          cx = fst (coors s4); cy = snd (coors s4)
      in bindR (RecursTessellate PATCH_SIZE VARIANCE_DEPTH n s4 BaseLeft
                  (cx, cy + PATCH_SIZE) (cx + PATCH_SIZE, cy) (cx, cy) 1)
           (\<lambda>s5.
              let s6 = s5\<lparr>currentVariance := Some VarRight\<rparr>
              in bindR (RecursTessellate PATCH_SIZE VARIANCE_DEPTH n s6 BaseRight
                          (cx + PATCH_SIZE, cy) (cx, cy + PATCH_SIZE)
                          (cx + PATCH_SIZE, cy + PATCH_SIZE) 1)
                   (\<lambda>s7. Some (Inr (\<not> OutOfNodes (currentPool s7), s7)))))"

section \<open>Pool sizing (InitPools, ResetAll)\<close>

text \<open>
  The file-level statics. \<open>size_t\<close> is a 64-bit word. \<open>pools\<close> is indexed by the
  pass (\<open>shadowPass\<close>).
\<close>

record pool_globals =
  CUR_POOL_SIZE :: "64 word"
  MAX_POOL_SIZE :: "64 word"
  pools :: "bool \<Rightarrow> CTriNodePool list"

datatype init_fault = DivisionByZero | CtorAssertion

text \<open>
  \<open>InitPools\<close>. \<open>numThreads\<close> is what \<open>ThreadPool::GetMaxThreads()\<close> returns;
  \<open>alloc_ok n c\<close> says whether the \<open>n\<close> vectors of \<open>c\<close> nodes can be allocated
  (otherwise \<open>std::bad_alloc\<close> is thrown and caught). The retry need not terminate,
  so the function is partial: \<open>None\<close> is a run that never returns.
\<close>

partial_function (option) InitPools ::
  "nat \<Rightarrow> (nat \<Rightarrow> nat \<Rightarrow> bool) \<Rightarrow> bool \<Rightarrow> 64 word \<Rightarrow> pool_globals
     \<Rightarrow> (init_fault + pool_globals) option" where
  "InitPools numThreads alloc_ok shadowPass newPoolSize g =
     (if numThreads = 0 then Some (Inl DivisionByZero)
      else
        let g1 = g\<lparr>CUR_POOL_SIZE := newPoolSize\<rparr>;
            thrPoolSize = max (CUR_POOL_SIZE g1 div of_nat numThreads) (newPoolSize div 3);
            cap = unat (thrPoolSize + (thrPoolSize AND 1))
        in (case CTriNodePool_ctor cap of
              Inl f \<Rightarrow> Some (Inl CtorAssertion)
            | Inr fresh \<Rightarrow>
                if alloc_ok numThreads cap
                then Some (Inr (g1\<lparr>pools := (pools g1)(shadowPass := replicate numThreads fresh)\<rparr>))
                else InitPools numThreads alloc_ok shadowPass (newPoolSize - drop_bit 2 newPoolSize)
                       (g1\<lparr>MAX_POOL_SIZE := newPoolSize - drop_bit 2 newPoolSize,
                           pools := (pools g1)(shadowPass := [])\<rparr>)))"

text \<open>The loop of \<open>ResetAll\<close>: accumulate \<open>outOfNodes\<close>, reset every pool.\<close>

fun ResetAll_loop :: "bool \<Rightarrow> CTriNodePool list \<Rightarrow> bool \<times> CTriNodePool list" where
  "ResetAll_loop outOfNodes [] = (outOfNodes, [])"
| "ResetAll_loop outOfNodes (p # ps) =
     (let (b, ps') = ResetAll_loop (outOfNodes \<or> OutOfNodes p) ps
      in (b, CTriNodePool_Reset p # ps'))"

definition ResetAll ::
  "nat \<Rightarrow> (nat \<Rightarrow> nat \<Rightarrow> bool) \<Rightarrow> bool \<Rightarrow> pool_globals \<Rightarrow> (init_fault + pool_globals) option" where
  "ResetAll numThreads alloc_ok shadowPass g =
     (let (outOfNodes, ps) = ResetAll_loop False (pools g shadowPass);
          g1 = g\<lparr>pools := (pools g)(shadowPass := ps)\<rparr>
      in if \<not> outOfNodes then Some (Inr g1)
         else if CUR_POOL_SIZE g1 \<ge> MAX_POOL_SIZE g1 then Some (Inr g1)
         else InitPools numThreads alloc_ok shadowPass
                (min (CUR_POOL_SIZE g1 * 2) (MAX_POOL_SIZE g1)) g1)"

text \<open>
  The per-thread capacity as claim C6 words it: the even split, floored at one third
  of the even split, rounded up to even.
\<close>

definition claimed_thread_capacity :: "nat \<Rightarrow> nat \<Rightarrow> nat" where
  "claimed_thread_capacity newPoolSize numThreads =
     (let t = max (newPoolSize div numThreads) ((newPoolSize div numThreads) div 3)
      in t + t mod 2)"

text \<open>The per-thread capacity the code computes, on naturals.\<close>

definition thread_capacity :: "nat \<Rightarrow> nat \<Rightarrow> nat" where
  "thread_capacity newPoolSize numThreads =
     (let t = max (newPoolSize div numThreads) (newPoolSize div 3) in t + t mod 2)"

definition capacities :: "CTriNodePool list \<Rightarrow> nat list" where
  "capacities ps = map (\<lambda>p. length (pool p)) ps"

definition fresh_pool :: "nat \<Rightarrow> CTriNodePool" where
  "fresh_pool c = \<lparr>pool = replicate c zeroNode, nextTriNodeIdx = 0\<rparr>"

text \<open>
  The statics before the first \<open>InitPools\<close>; the macro \<open>NEW_POOL_SIZE\<close> (Patch.h) is
  a parameter.
\<close>

definition globals0 :: "64 word \<Rightarrow> pool_globals" where
  "globals0 NEW_POOL_SIZE =
     \<lparr>CUR_POOL_SIZE = 0, MAX_POOL_SIZE = NEW_POOL_SIZE * 8, pools = (\<lambda>_. [])\<rparr>"

text \<open>What a returning \<open>InitPools\<close> has established.\<close>

definition InitPools_post ::
  "nat \<Rightarrow> (nat \<Rightarrow> nat \<Rightarrow> bool) \<Rightarrow> bool \<Rightarrow> 64 word \<Rightarrow> pool_globals
     \<Rightarrow> init_fault + pool_globals \<Rightarrow> bool" where
  "InitPools_post numThreads alloc_ok shadowPass newPoolSize g r =
     (case r of
        Inl f \<Rightarrow> True
      | Inr g' \<Rightarrow>
          pools g' shadowPass = replicate numThreads
             (fresh_pool (thread_capacity (unat (CUR_POOL_SIZE g')) numThreads))
          \<and> pools g' (\<not> shadowPass) = pools g (\<not> shadowPass)
          \<and> unat (CUR_POOL_SIZE g') \<le> unat newPoolSize
          \<and> 0 < numThreads \<and> 0 < thread_capacity (unat (CUR_POOL_SIZE g')) numThreads
          \<and> alloc_ok numThreads (thread_capacity (unat (CUR_POOL_SIZE g')) numThreads))"

subsection \<open>Border extraction\<close>

text \<open>
  The vertex array \<open>va\<close> is the list of the vertices added so far, each with its colour
  (\<open>white\<close> and \<open>trans\<close> of the source). \<open>CVertexArray\<close> is not among the sources:
  \<open>Initialize\<close> empties the array, \<open>AddVertexQC\<close> appends, \<open>EnlargeArrays\<close> only reserves.
\<close>

type_synonym color = "nat \<times> nat \<times> nat \<times> nat"

definition white :: color where "white = (255, 255, 255, 255)"
definition trans :: color where "trans = (255, 255, 255, 0)"

text \<open>\<open>*(float3* )&vertices[(p.x + p.y * (PATCH_SIZE + 1)) * 3]\<close>.\<close>

definition vertexAt :: "int \<Rightarrow> Patch \<Rightarrow> int2 \<Rightarrow> float3" where
  "vertexAt PATCH_SIZE s p =
     (let i = (fst p + snd p * (PATCH_SIZE + 1)) * 3
      in (vertices s i, vertices s (i + 1), vertices s (i + 2)))"

text \<open>The six vertices added for the side from \<open>p\<close> to \<open>q\<close>: two skirt triangles.\<close>

definition skirtQuad :: "float3 \<Rightarrow> float3 \<Rightarrow> (float3 \<times> color) list" where
  "skirtQuad p q =
     (case p of (ax, ay, az) \<Rightarrow> case q of (bx, by, bz) \<Rightarrow>
        [(p, white), ((ax, -400, az), trans), ((bx, by, bz), white),
         (q, white), ((ax, -400, az), trans), ((bx, -400, bz), trans)])"

fun RecursBorderRender ::
  "int \<Rightarrow> nat \<Rightarrow> Patch \<Rightarrow> (float3 \<times> color) list \<Rightarrow> addr \<Rightarrow> int2 \<Rightarrow> int2 \<Rightarrow> int2 \<Rightarrow> int \<Rightarrow> bool
     \<Rightarrow> (fault + (float3 \<times> color) list) option" where
  "RecursBorderRender PATCH_SIZE 0 s va tri left rght apex depth leftChild = None"
| "RecursBorderRender PATCH_SIZE (Suc n) s va tri left rght apex depth leftChild =
     (if IsLeaf (nd s tri) then
        (let v1 = vertexAt PATCH_SIZE s apex;
             v2 = vertexAt PATCH_SIZE s left;
             v3 = vertexAt PATCH_SIZE s rght
         in if depth mod 2 = 0 then Some (Inr (va @ skirtQuad v2 v3))
            else if leftChild then Some (Inr (va @ skirtQuad v1 v2))
            else Some (Inr (va @ skirtQuad v3 v1)))
      else
        (let center = midpoint left rght
         in if depth mod 2 = 0 then
              deref (LeftChild (nd s tri)) (\<lambda>lc.
              bindR (RecursBorderRender PATCH_SIZE n s va lc apex left center (depth + 1) (\<not> leftChild))
                (\<lambda>va1.
              deref (RightChild (nd s tri)) (\<lambda>rc.
                RecursBorderRender PATCH_SIZE n s va1 rc rght apex center (depth + 1) leftChild)))
            else if leftChild then
              deref (LeftChild (nd s tri)) (\<lambda>lc.
                RecursBorderRender PATCH_SIZE n s va lc apex left center (depth + 1) True)
            else
              deref (RightChild (nd s tri)) (\<lambda>rc.
                RecursBorderRender PATCH_SIZE n s va rc rght apex center (depth + 1) True)))"

definition GenerateBorderIndices :: "int \<Rightarrow> nat \<Rightarrow> Patch \<Rightarrow> (fault + (float3 \<times> color) list) option" where
  "GenerateBorderIndices PS n s =
     (let va0 = []
      in bindR (if LeftNeighbor (baseLeft s) = None
                then RecursBorderRender PS n s va0 BaseLeft (0, PS) (PS, 0) (0, 0) 1 True
                else Some (Inr va0))
           (\<lambda>va1.
         bindR (if RightNeighbor (baseLeft s) = None
                then RecursBorderRender PS n s va1 BaseLeft (0, PS) (PS, 0) (0, 0) 1 False
                else Some (Inr va1))
           (\<lambda>va2.
         bindR (if RightNeighbor (baseRight s) = None
                then RecursBorderRender PS n s va2 BaseRight (PS, 0) (0, PS) (PS, PS) 1 False
                else Some (Inr va2))
           (\<lambda>va3.
                if LeftNeighbor (baseRight s) = None
                then RecursBorderRender PS n s va3 BaseRight (PS, 0) (0, PS) (PS, PS) 1 True
                else Some (Inr va3)))))"

section \<open>Definitions used in the statements and proofs\<close>

definition curTable :: "Patch \<Rightarrow> real list" where
  "curTable s = (case currentVariance s of None \<Rightarrow> [] | Some sel \<Rightarrow> varTable s sel)"

definition RCV_post :: "Patch \<Rightarrow> real \<Rightarrow> Patch \<Rightarrow> bool" where
  "RCV_post s v s' =
     (currentVariance s' = currentVariance s \<and> vertices s' = vertices s
      \<and> length (varianceLeft s') = length (varianceLeft s)
      \<and> length (varianceRight s') = length (varianceRight s)
      \<and> length (curTable s') = length (curTable s)
      \<and> (\<forall>i < length (curTable s). curTable s' ! i \<noteq> curTable s ! i
            \<longrightarrow> 0.001 \<le> curTable s' ! i \<and> curTable s' ! i \<le> v))"

definition frame :: "Patch \<Rightarrow> Patch \<Rightarrow> bool" where
  "frame s s' = (vertices s' = vertices s \<and> varianceLeft s' = varianceLeft s
     \<and> varianceRight s' = varianceRight s \<and> currentVariance s' = currentVariance s
     \<and> varianceMaxLimit s' = varianceMaxLimit s \<and> camDistLODFactor s' = camDistLODFactor s
     \<and> isDirty s' = isDirty s \<and> coors s' = coors s)"

definition forceSplit :: "nat \<Rightarrow> addr \<Rightarrow> Patch \<Rightarrow> (fault + Patch) option" where
  "forceSplit n tri s =
     (case BaseNeighbor (nd s tri) of
        None \<Rightarrow> Some (Inr s)
      | Some b \<Rightarrow>
          if BaseNeighbor (nd s b) \<noteq> Some tri
          then bindR (Split n b s) (\<lambda>(ok, s'). Some (Inr s'))
          else Some (Inr s))"

definition finishSplit :: "nat \<Rightarrow> addr \<Rightarrow> addr \<Rightarrow> addr \<Rightarrow> Patch \<Rightarrow> (fault + bool \<times> Patch) option" where
  "finishSplit n tri lc rc s3 =
     (case BaseNeighbor (nd s3 tri) of
        Some b \<Rightarrow>
          if IsBranch (nd s3 b)
          then deref (LeftChild (nd s3 b)) (\<lambda>blc.
               deref (RightChild (nd s3 b)) (\<lambda>brc.
                 Some (Inr (True, crossLink s3 lc rc b blc brc))))
          else bindR (Split n b s3) (\<lambda>(ok, s'). Some (Inr (True, s')))
      | None \<Rightarrow> Some (Inr (True, setLeft (setRight s3 lc None) rc None)))"

definition tables_ok :: "nat \<Rightarrow> Patch \<Rightarrow> bool" where
  "tables_ok VD s = (length (varianceLeft s) = 2 ^ VD \<and> length (varianceRight s) = 2 ^ VD)"

definition verts0 :: "int \<Rightarrow> real" where
  "verts0 i = (if i = 37 then 8 else if i = 31 then 3 else -1)"

definition vpatch :: Patch where
  "vpatch = (Patch_ctor 2 (fresh_pool 2) verts0)\<lparr>currentVariance := Some VarLeft\<rparr>"

definition fullPatch :: Patch where
  "fullPatch = Patch_Reset (Patch_ctor 2 ((fresh_pool 2)\<lparr>nextTriNodeIdx := 2\<rparr>) (\<lambda>_. 0))
                 \<lparr>currentVariance := Some VarLeft, camDistLODFactor := 1, varianceMaxLimit := 100\<rparr>"

text \<open>
  The leaves of the tree below \<open>tri\<close>, each with its footprint (left, right, apex),
  in the order of the tree walk of \<open>RecursRender\<close>; and the footprints of the
  branches.
\<close>

fun leafTris ::
  "nat \<Rightarrow> Patch \<Rightarrow> addr \<Rightarrow> int2 \<Rightarrow> int2 \<Rightarrow> int2 \<Rightarrow> (fault + (int2 \<times> int2 \<times> int2) list) option" where
  "leafTris 0 s tri left rght apex = None"
| "leafTris (Suc n) s tri left rght apex =
     (if IsLeaf (nd s tri) then Some (Inr [(left, rght, apex)])
      else deref (LeftChild (nd s tri)) (\<lambda>lc.
           bindR (leafTris n s lc apex left (midpoint left rght)) (\<lambda>ts1.
           deref (RightChild (nd s tri)) (\<lambda>rc.
           bindR (leafTris n s rc rght apex (midpoint left rght)) (\<lambda>ts2.
             Some (Inr (ts1 @ ts2)))))))"

fun branchTris ::
  "nat \<Rightarrow> Patch \<Rightarrow> addr \<Rightarrow> int2 \<Rightarrow> int2 \<Rightarrow> int2 \<Rightarrow> (int2 \<times> int2 \<times> int2) list" where
  "branchTris 0 s tri left rght apex = []"
| "branchTris (Suc n) s tri left rght apex =
     (if IsLeaf (nd s tri) then []
      else (left, rght, apex) #
           (case LeftChild (nd s tri) of None \<Rightarrow> []
            | Some lc \<Rightarrow> branchTris n s lc apex left (midpoint left rght)) @
           (case RightChild (nd s tri) of None \<Rightarrow> []
            | Some rc \<Rightarrow> branchTris n s rc rght apex (midpoint left rght)))"

text \<open>The test of \<open>RecursTessellate\<close> that lets a triangle be split.\<close>

definition splittable :: "int2 \<times> int2 \<times> int2 \<Rightarrow> bool" where
  "splittable t = (case t of (left, rght, apex) \<Rightarrow>
      \<not> (\<bar>fst left - fst rght\<bar> \<le> 1 \<and> \<bar>snd left - snd rght\<bar> \<le> 1))"

text \<open>The four edges of the patch square, and the distance of a grid point from one.\<close>

datatype edge = XLow | YLow | XHigh | YHigh

definition edgeDist :: "int \<Rightarrow> edge \<Rightarrow> int2 \<Rightarrow> int" where
  "edgeDist PS e p = (case e of XLow \<Rightarrow> fst p | YLow \<Rightarrow> snd p
                      | XHigh \<Rightarrow> PS - fst p | YHigh \<Rightarrow> PS - snd p)"

definition onEdge :: "int \<Rightarrow> edge \<Rightarrow> int2 \<Rightarrow> bool" where
  "onEdge PS e p = (edgeDist PS e p = 0)"

text \<open>
  The skirt over the side from grid point \<open>p\<close> to grid point \<open>q\<close>, vertex by vertex. The
  vertex array holds x, height and z of grid point \<open>(x, y)\<close> at \<open>3 * (x + y * (PS + 1))\<close> and
  the two places after it. Two triangles: the corner at \<open>p\<close>, the point 400 below the zero
  height under \<open>p\<close>, the corner at \<open>q\<close>; then the corner at \<open>q\<close>, the point under \<open>p\<close>, the
  point under \<open>q\<close>. The corners are opaque white, the points below transparent.
\<close>

definition skirt :: "int \<Rightarrow> Patch \<Rightarrow> int2 \<Rightarrow> int2 \<Rightarrow> (float3 \<times> color) list" where
  "skirt PS s p q =
     (let i = 3 * (fst p + snd p * (PS + 1));
          j = 3 * (fst q + snd q * (PS + 1))
      in [((vertices s i, vertices s (i + 1), vertices s (i + 2)), (255, 255, 255, 255)),
          ((vertices s i, - 400, vertices s (i + 2)), (255, 255, 255, 0)),
          ((vertices s j, vertices s (j + 1), vertices s (j + 2)), (255, 255, 255, 255)),
          ((vertices s j, vertices s (j + 1), vertices s (j + 2)), (255, 255, 255, 255)),
          ((vertices s i, - 400, vertices s (i + 2)), (255, 255, 255, 0)),
          ((vertices s j, - 400, vertices s (j + 2)), (255, 255, 255, 0))])"

text \<open>
  The skirt of a leaf along an edge: the skirt over the side of the triangle that lies
  on the edge (two corners on it), in the direction left to right, apex to left or right
  to apex; nothing for a leaf with fewer than two corners on the edge.
\<close>

definition leafSkirt :: "int \<Rightarrow> Patch \<Rightarrow> edge \<Rightarrow> int2 \<times> int2 \<times> int2 \<Rightarrow> (float3 \<times> color) list" where
  "leafSkirt PS s e t = (case t of (left, rght, apex) \<Rightarrow>
      if onEdge PS e left \<and> onEdge PS e rght then skirt PS s left rght
      else if onEdge PS e apex \<and> onEdge PS e left then skirt PS s apex left
      else if onEdge PS e rght \<and> onEdge PS e apex then skirt PS s rght apex
      else [])"

text \<open>
  Right-angled footprints: the legs run from the apex to left and to right, the right
  leg is the left leg turned by a quarter. \<open>axisTri\<close>: legs along the axes, of length
  \<open>d\<close>; \<open>diagTri\<close>: legs along the diagonals, the hypotenuse along an axis, of length
  \<open>2 * d\<close>.
\<close>

definition quarterTurn :: "int2 \<Rightarrow> int2 \<Rightarrow> int2 \<Rightarrow> bool" where
  "quarterTurn left rght apex =
     (fst rght - fst apex = snd left - snd apex \<and> snd rght - snd apex = - (fst left - fst apex))"

definition axisTri :: "int \<Rightarrow> int2 \<Rightarrow> int2 \<Rightarrow> int2 \<Rightarrow> bool" where
  "axisTri d left rght apex =
     (quarterTurn left rght apex \<and>
      ((\<bar>fst left - fst apex\<bar> = d \<and> snd left = snd apex) \<or>
       (fst left = fst apex \<and> \<bar>snd left - snd apex\<bar> = d)))"

definition diagTri :: "int \<Rightarrow> int2 \<Rightarrow> int2 \<Rightarrow> int2 \<Rightarrow> bool" where
  "diagTri d left rght apex =
     (quarterTurn left rght apex \<and> \<bar>fst left - fst apex\<bar> = d \<and> \<bar>snd left - snd apex\<bar> = d)"

definition inBox :: "int \<Rightarrow> int2 \<Rightarrow> bool" where
  "inBox PS p = (0 \<le> fst p \<and> fst p \<le> PS \<and> 0 \<le> snd p \<and> snd p \<le> PS)"

definition rightTri :: "int2 \<Rightarrow> int2 \<Rightarrow> int2 \<Rightarrow> bool" where
  "rightTri left rght apex =
     (\<exists>j. axisTri (2 ^ j) left rght apex \<or> diagTri (2 ^ j) left rght apex)"

text \<open>
  The footprints of the tree walk by depth below the leaves of side 1: rank \<open>2 * j\<close> has
  legs of length \<open>2 ^ j\<close> along the axes, rank \<open>2 * j + 1\<close> legs along the diagonals and
  a hypotenuse of length \<open>2 ^ (j + 1)\<close>.
\<close>

definition footRank :: "nat \<Rightarrow> int2 \<Rightarrow> int2 \<Rightarrow> int2 \<Rightarrow> bool" where
  "footRank r left rght apex =
     (if even r then axisTri (2 ^ (r div 2)) left rght apex
      else diagTri (2 ^ (r div 2)) left rght apex)"

text \<open>At most one of three corners on an edge.\<close>

definition atMostOne :: "bool \<Rightarrow> bool \<Rightarrow> bool \<Rightarrow> bool" where
  "atMostOne a b c = (\<not> (a \<and> b) \<and> \<not> (a \<and> c) \<and> \<not> (b \<and> c))"

text \<open>
  Patches written out node by node: the two roots, the pool and its watermark; the
  heights are those of \<open>verts0\<close>, the variance tables are empty.
\<close>

definition node5 ::
  "addr option \<Rightarrow> addr option \<Rightarrow> addr option \<Rightarrow> addr option \<Rightarrow> addr option \<Rightarrow> TriTreeNode" where
  "node5 lc rc b l r =
     \<lparr>LeftChild = lc, RightChild = rc, BaseNeighbor = b, LeftNeighbor = l, RightNeighbor = r\<rparr>"

definition mkPatch :: "TriTreeNode \<Rightarrow> TriTreeNode \<Rightarrow> TriTreeNode list \<Rightarrow> nat \<Rightarrow> Patch" where
  "mkPatch bl br pl nx =
     \<lparr>baseLeft = bl, baseRight = br, currentPool = \<lparr>pool = pl, nextTriNodeIdx = nx\<rparr>,
      vertices = verts0, varianceLeft = [], varianceRight = [],
      currentVariance = None, varianceMaxLimit = 0, camDistLODFactor = 1,
      isDirty = True, coors = (0, 0)\<rparr>"

text \<open>
  The vertex array of a patch of side 2 with squares of size 8: grid point \<open>(x, y)\<close> has
  the position \<open>(8 * x, 10 + x + 3 * y, 8 * y)\<close>.
\<close>

definition grid2 :: "int \<Rightarrow> real" where
  "grid2 i = (if i mod 3 = 0 then 8 * real_of_int ((i div 3) mod 3)
              else if i mod 3 = 2 then 8 * real_of_int ((i div 3) div 3)
              else 10 + real_of_int (i div 3))"

text \<open>
  Both roots split once, as \<open>Split\<close> on \<open>baseLeft\<close> leaves a freshly reset patch with a
  pool of four nodes; and a patch whose four outer slots point at nodes (of neighbouring
  patches).
\<close>

definition splitOnce :: Patch where
  "splitOnce = (mkPatch
     (node5 (Some (Pool 0)) (Some (Pool 1)) (Some BaseRight) None None)
     (node5 (Some (Pool 2)) (Some (Pool 3)) (Some BaseLeft) None None)
     [node5 None None None (Some (Pool 1)) (Some (Pool 3)),
      node5 None None None (Some (Pool 2)) (Some (Pool 0)),
      node5 None None None (Some (Pool 3)) (Some (Pool 1)),
      node5 None None None (Some (Pool 0)) (Some (Pool 2))] 4)\<lparr>vertices := grid2\<rparr>"

definition innerPatch :: Patch where
  "innerPatch = mkPatch
     (node5 None None (Some BaseRight) (Some (Pool 0)) (Some (Pool 1)))
     (node5 None None (Some BaseLeft) (Some (Pool 2)) (Some (Pool 3)))
     [zeroNode, zeroNode, zeroNode, zeroNode] 4"

text \<open>
  A run of the pool sizing with one thread: the pools of pass \<open>False\<close> made for a total of
  4, those of pass \<open>True\<close> for a total of 8, the pool of pass \<open>False\<close> used up (its four nodes
  written), and what \<open>ResetAll\<close> on pass \<open>False\<close> leaves. \<open>okAlloc\<close>: no allocation fails.
\<close>

definition okAlloc :: "nat \<Rightarrow> nat \<Rightarrow> bool" where "okAlloc n c = True"

definition passA :: pool_globals where
  "passA = (globals0 4)\<lparr>CUR_POOL_SIZE := 4, pools := (pools (globals0 4))(False := [fresh_pool 4])\<rparr>"

definition passB :: pool_globals where
  "passB = passA\<lparr>CUR_POOL_SIZE := 8, pools := (pools passA)(True := [fresh_pool 8])\<rparr>"

definition used4 :: CTriNodePool where
  "used4 = \<lparr>pool = [zeroNode\<lparr>LeftNeighbor := Some (Pool 1)\<rparr>, zeroNode\<lparr>RightNeighbor := Some (Pool 0)\<rparr>,
                    zeroNode\<lparr>LeftNeighbor := Some (Pool 3)\<rparr>, zeroNode\<lparr>RightNeighbor := Some (Pool 2)\<rparr>],
            nextTriNodeIdx = 4\<rparr>"

definition passC :: pool_globals where
  "passC = passB\<lparr>pools := (pools passB)(False := [used4])\<rparr>"

definition passD :: pool_globals where
  "passD = passC\<lparr>CUR_POOL_SIZE := 16, pools := (pools passC)(False := [fresh_pool 16])\<rparr>"

text \<open>The same used pool with the total at the ceiling.\<close>

definition atCeiling :: pool_globals where
  "atCeiling = \<lparr>CUR_POOL_SIZE = 4, MAX_POOL_SIZE = 4, pools = (\<lambda>_. [used4])\<rparr>"

subsection \<open>The mesh invariant of \<open>Split\<close>\<close>

text \<open>
  An address is valid when it is a root or a slot of the pool; it is a node of the patch
  when it is a root or a slot handed out since the watermark stood at \<open>w\<close>. The pool is
  in order when the watermark lies between \<open>w\<close> and the capacity and the free slots are
  zeroed.
\<close>

definition valid :: "Patch \<Rightarrow> addr \<Rightarrow> bool" where
  "valid s a = (case a of Pool i \<Rightarrow> i < length (pool (currentPool s)) | _ \<Rightarrow> True)"

definition live :: "nat \<Rightarrow> Patch \<Rightarrow> addr \<Rightarrow> bool" where
  "live w s a = (case a of Pool i \<Rightarrow> w \<le> i \<and> i < nextTriNodeIdx (currentPool s) | _ \<Rightarrow> True)"

definition poolOk :: "nat \<Rightarrow> Patch \<Rightarrow> bool" where
  "poolOk w s = (w \<le> nextTriNodeIdx (currentPool s)
      \<and> nextTriNodeIdx (currentPool s) \<le> length (pool (currentPool s))
      \<and> (\<forall>i. nextTriNodeIdx (currentPool s) \<le> i \<and> i < length (pool (currentPool s))
             \<longrightarrow> pool (currentPool s) ! i = zeroNode))"

text \<open>
  The invariant is stated on the heap \<open>nd s\<close>, the set \<open>A\<close> of the nodes of the patch, a
  level for each node (the roots at level 0, children one below their parent) and the
  set \<open>W\<close> of the branches whose children are linked but not yet crossed with those of
  the base neighbour. A leaf \<open>u\<close> and the node \<open>x\<close> in one of its three slots: \<open>x\<close> is a
  leaf that points back at \<open>u\<close>, at the same level through the matching slot or one level
  apart through the base slot of the finer one.
\<close>

type_synonym heap = "addr \<Rightarrow> TriTreeNode"

definition baseOk :: "addr set \<Rightarrow> (addr \<Rightarrow> nat) \<Rightarrow> heap \<Rightarrow> addr set \<Rightarrow> addr \<Rightarrow> addr \<Rightarrow> bool" where
  "baseOk A lv h W u x = (x \<in> A \<and> x \<noteq> u \<and>
      ((IsLeaf (h x) \<and> ((lv x = lv u \<and> BaseNeighbor (h x) = Some u)
           \<or> (lv u = Suc (lv x) \<and> (LeftNeighbor (h x) = Some u \<or> RightNeighbor (h x) = Some u))))
       \<or> (x \<in> W \<and> \<not> IsLeaf (h x) \<and> lv x = lv u \<and> BaseNeighbor (h x) = Some u)))"

definition leftOk :: "addr set \<Rightarrow> (addr \<Rightarrow> nat) \<Rightarrow> heap \<Rightarrow> addr \<Rightarrow> addr \<Rightarrow> bool" where
  "leftOk A lv h u x = (x \<in> A \<and> IsLeaf (h x) \<and>
      ((lv x = lv u \<and> RightNeighbor (h x) = Some u) \<or> (lv x = Suc (lv u) \<and> BaseNeighbor (h x) = Some u)))"

definition rightOk :: "addr set \<Rightarrow> (addr \<Rightarrow> nat) \<Rightarrow> heap \<Rightarrow> addr \<Rightarrow> addr \<Rightarrow> bool" where
  "rightOk A lv h u x = (x \<in> A \<and> IsLeaf (h x) \<and>
      ((lv x = lv u \<and> LeftNeighbor (h x) = Some u) \<or> (lv x = Suc (lv u) \<and> BaseNeighbor (h x) = Some u)))"

definition slotsDistinct :: "TriTreeNode \<Rightarrow> bool" where
  "slotsDistinct n = (\<forall>x. (BaseNeighbor n = Some x \<longrightarrow> LeftNeighbor n \<noteq> Some x \<and> RightNeighbor n \<noteq> Some x)
                       \<and> (LeftNeighbor n = Some x \<longrightarrow> RightNeighbor n \<noteq> Some x))"

definition leafOk :: "addr set \<Rightarrow> (addr \<Rightarrow> nat) \<Rightarrow> heap \<Rightarrow> addr set \<Rightarrow> addr \<Rightarrow> bool" where
  "leafOk A lv h W u =
     ((\<forall>x. BaseNeighbor (h u) = Some x \<longrightarrow> baseOk A lv h W u x)
    \<and> (\<forall>x. LeftNeighbor (h u) = Some x \<longrightarrow> leftOk A lv h u x)
    \<and> (\<forall>x. RightNeighbor (h u) = Some x \<longrightarrow> rightOk A lv h u x))"

text \<open>
  Two branches are crossed when the left child of the one has, as its right neighbour,
  the right child of the other or the left child of that child, and the right child
  has, as its left neighbour, the left child of the other or the right child of that
  child. A branch is half split when its two children are leaves linked as
  \<open>linkChildren\<close> leaves them.
\<close>

definition crossed :: "heap \<Rightarrow> addr \<Rightarrow> addr \<Rightarrow> bool" where
  "crossed h u b = (\<exists>lc rc blc brc.
       LeftChild (h u) = Some lc \<and> RightChild (h u) = Some rc
     \<and> LeftChild (h b) = Some blc \<and> RightChild (h b) = Some brc
     \<and> (RightNeighbor (h lc) = Some brc \<or> (\<exists>g. RightNeighbor (h lc) = Some g \<and> LeftChild (h brc) = Some g))
     \<and> (LeftNeighbor (h rc) = Some blc \<or> (\<exists>g. LeftNeighbor (h rc) = Some g \<and> RightChild (h blc) = Some g)))"

definition halfSplit :: "heap \<Rightarrow> addr \<Rightarrow> bool" where
  "halfSplit h u = (\<exists>lc rc. LeftChild (h u) = Some lc \<and> RightChild (h u) = Some rc
     \<and> IsLeaf (h lc) \<and> IsLeaf (h rc)
     \<and> BaseNeighbor (h lc) = LeftNeighbor (h u) \<and> LeftNeighbor (h lc) = Some rc \<and> RightNeighbor (h lc) = None
     \<and> BaseNeighbor (h rc) = RightNeighbor (h u) \<and> LeftNeighbor (h rc) = None \<and> RightNeighbor (h rc) = Some lc)"

definition branchOk :: "addr set \<Rightarrow> (addr \<Rightarrow> nat) \<Rightarrow> heap \<Rightarrow> addr set \<Rightarrow> addr \<Rightarrow> bool" where
  "branchOk A lv h W u = (\<forall>b. BaseNeighbor (h u) = Some b \<longrightarrow>
       b \<in> A \<and> b \<noteq> u \<and> BaseNeighbor (h b) = Some u \<and> lv b = lv u
     \<and> (if u \<in> W then halfSplit h u else \<not> IsLeaf (h b) \<and> crossed h u b))"

definition kidsOk :: "addr set \<Rightarrow> (addr \<Rightarrow> nat) \<Rightarrow> heap \<Rightarrow> addr \<Rightarrow> bool" where
  "kidsOk A lv h u =
     ((LeftChild (h u) = None \<longleftrightarrow> RightChild (h u) = None)
    \<and> (\<forall>c. LeftChild (h u) = Some c \<or> RightChild (h u) = Some c \<longrightarrow> c \<in> A \<and> lv c = Suc (lv u)))"

text \<open>The invariant of the mesh.\<close>

definition gmesh :: "addr set \<Rightarrow> (addr \<Rightarrow> nat) \<Rightarrow> heap \<Rightarrow> addr set \<Rightarrow> bool" where
  "gmesh A lv h W = (\<forall>u \<in> A.
       kidsOk A lv h u \<and> slotsDistinct (h u)
     \<and> (IsLeaf (h u) \<longrightarrow> leafOk A lv h W u)
     \<and> (\<not> IsLeaf (h u) \<longrightarrow> branchOk A lv h W u))"

text \<open>The heap after the children of \<open>t\<close> are allocated and linked.\<close>

definition repoint :: "heap \<Rightarrow> addr \<Rightarrow> addr \<Rightarrow> addr \<Rightarrow> addr \<Rightarrow> addr option \<Rightarrow> addr option" where
  "repoint h t lc rc x v =
     (if v = Some t then (if LeftNeighbor (h t) = Some x then Some lc
                          else if RightNeighbor (h t) = Some x then Some rc else v)
      else v)"

definition linked :: "heap \<Rightarrow> addr \<Rightarrow> addr \<Rightarrow> addr \<Rightarrow> heap" where
  "linked h t lc rc = (\<lambda>x.
     if x = t then (h t)\<lparr>LeftChild := Some lc, RightChild := Some rc\<rparr>
     else if x = lc then \<lparr>LeftChild = None, RightChild = None, BaseNeighbor = LeftNeighbor (h t),
                           LeftNeighbor = Some rc, RightNeighbor = None\<rparr>
     else if x = rc then \<lparr>LeftChild = None, RightChild = None, BaseNeighbor = RightNeighbor (h t),
                           LeftNeighbor = None, RightNeighbor = Some lc\<rparr>
     else (h x)\<lparr>BaseNeighbor := repoint h t lc rc x (BaseNeighbor (h x)),
                LeftNeighbor := repoint h t lc rc x (LeftNeighbor (h x)),
                RightNeighbor := repoint h t lc rc x (RightNeighbor (h x))\<rparr>)"

text \<open>What holds before the children of the leaf \<open>t\<close> are linked, and the levels and nodes after.\<close>

definition linkPre ::
  "addr set \<Rightarrow> (addr \<Rightarrow> nat) \<Rightarrow> heap \<Rightarrow> addr set \<Rightarrow> addr \<Rightarrow> addr \<Rightarrow> addr \<Rightarrow> bool" where
  "linkPre A lv h W t lc rc =
     (gmesh A lv h W \<and> t \<in> A \<and> IsLeaf (h t) \<and> lc \<notin> A \<and> rc \<notin> A \<and> lc \<noteq> rc
      \<and> (\<forall>w \<in> W. BaseNeighbor (h t) = Some w)
      \<and> (\<forall>c. BaseNeighbor (h t) = Some c \<longrightarrow> BaseNeighbor (h c) = Some t))"

definition lvKids :: "(addr \<Rightarrow> nat) \<Rightarrow> addr \<Rightarrow> addr \<Rightarrow> addr \<Rightarrow> addr \<Rightarrow> nat" where
  "lvKids lv t lc rc = lv(lc := Suc (lv t), rc := Suc (lv t))"

definition addKids :: "addr set \<Rightarrow> addr \<Rightarrow> addr \<Rightarrow> addr set" where
  "addKids A lc rc = insert lc (insert rc A)"

definition waitAfter :: "heap \<Rightarrow> addr set \<Rightarrow> addr \<Rightarrow> addr set" where
  "waitAfter h W t = (if BaseNeighbor (h t) = None then W else insert t W)"

text \<open>The heap after \<open>crossLink\<close>, and what holds before it.\<close>

definition crossH :: "heap \<Rightarrow> addr \<Rightarrow> addr \<Rightarrow> addr \<Rightarrow> addr \<Rightarrow> heap" where
  "crossH h ta tb ca cb = (\<lambda>x.
     if x = ta then (h ta)\<lparr>RightNeighbor := Some cb\<rparr>
     else if x = tb then (h tb)\<lparr>LeftNeighbor := Some ca\<rparr>
     else if x = ca then (h ca)\<lparr>RightNeighbor := Some tb\<rparr>
     else if x = cb then (h cb)\<lparr>LeftNeighbor := Some ta\<rparr>
     else h x)"

definition crossPre ::
  "addr set \<Rightarrow> (addr \<Rightarrow> nat) \<Rightarrow> heap \<Rightarrow> addr \<Rightarrow> addr \<Rightarrow> addr \<Rightarrow> addr \<Rightarrow> addr \<Rightarrow> addr \<Rightarrow> bool" where
  "crossPre A lv h t c ta tb ca cb =
     (gmesh A lv h {t, c} \<and> t \<in> A \<and> c \<in> A
      \<and> \<not> IsLeaf (h t) \<and> \<not> IsLeaf (h c) \<and> BaseNeighbor (h t) = Some c
      \<and> LeftChild (h t) = Some ta \<and> RightChild (h t) = Some tb
      \<and> LeftChild (h c) = Some ca \<and> RightChild (h c) = Some cb
      \<and> ta \<noteq> ca \<and> ta \<noteq> cb \<and> tb \<noteq> ca \<and> tb \<noteq> cb
      \<and> BaseNeighbor (h ta) \<noteq> Some cb \<and> BaseNeighbor (h tb) \<noteq> Some ca
      \<and> BaseNeighbor (h ca) \<noteq> Some tb \<and> BaseNeighbor (h cb) \<noteq> Some ta)"

text \<open>The heaps after \<open>relinkLeft\<close>, after \<open>relinkRight\<close> and after the first four writes of \<open>linkChildren\<close>.\<close>

definition relinked :: "heap \<Rightarrow> addr \<Rightarrow> addr option \<Rightarrow> addr \<Rightarrow> heap" where
  "relinked h t nb c =
     (case nb of None \<Rightarrow> h
      | Some x \<Rightarrow>
          if BaseNeighbor (h x) = Some t then h(x := (h x)\<lparr>BaseNeighbor := Some c\<rparr>)
          else if LeftNeighbor (h x) = Some t then h(x := (h x)\<lparr>LeftNeighbor := Some c\<rparr>)
          else if RightNeighbor (h x) = Some t then h(x := (h x)\<lparr>RightNeighbor := Some c\<rparr>)
          else h)"

definition relinkedR :: "heap \<Rightarrow> addr \<Rightarrow> addr option \<Rightarrow> addr \<Rightarrow> heap" where
  "relinkedR h t nb c =
     (case nb of None \<Rightarrow> h
      | Some x \<Rightarrow>
          if BaseNeighbor (h x) = Some t then h(x := (h x)\<lparr>BaseNeighbor := Some c\<rparr>)
          else if RightNeighbor (h x) = Some t then h(x := (h x)\<lparr>RightNeighbor := Some c\<rparr>)
          else if LeftNeighbor (h x) = Some t then h(x := (h x)\<lparr>LeftNeighbor := Some c\<rparr>)
          else h)"

definition kidsLinked :: "heap \<Rightarrow> addr \<Rightarrow> addr \<Rightarrow> addr \<Rightarrow> heap" where
  "kidsLinked h t lc rc =
     h(lc := (h lc)\<lparr>BaseNeighbor := LeftNeighbor (h t), LeftNeighbor := Some rc\<rparr>,
       rc := (h rc)\<lparr>BaseNeighbor := RightNeighbor (h t), RightNeighbor := Some lc\<rparr>)"

definition rp :: "addr \<Rightarrow> addr \<Rightarrow> addr option \<Rightarrow> addr option" where
  "rp t c v = (if v = Some t then Some c else v)"

text \<open>
  The nodes of the patch as a set; how nodes, levels and heap change over a \<open>Split\<close> of a
  node of level at most \<open>k\<close>: nodes are added, branches stay branches, and a finer leaf
  stays a leaf whose base slot is kept or points at a new node of its own level.
\<close>

definition nodes :: "nat \<Rightarrow> Patch \<Rightarrow> addr set" where
  "nodes w s = {a. live w s a}"

definition grow ::
  "nat \<Rightarrow> addr set \<Rightarrow> (addr \<Rightarrow> nat) \<Rightarrow> heap \<Rightarrow> addr set \<Rightarrow> (addr \<Rightarrow> nat) \<Rightarrow> heap \<Rightarrow> bool" where
  "grow k A lv h A' lv' h' =
     (A \<subseteq> A' \<and> (\<forall>a \<in> A. lv' a = lv a)
      \<and> (\<forall>u \<in> A. \<not> IsLeaf (h u) \<longrightarrow> \<not> IsLeaf (h' u))
      \<and> (\<forall>u \<in> A. IsLeaf (h u) \<and> k < lv u \<longrightarrow>
             IsLeaf (h' u)
           \<and> (BaseNeighbor (h' u) = BaseNeighbor (h u)
              \<or> (\<exists>c. BaseNeighbor (h' u) = Some c \<and> c \<in> A' \<and> c \<notin> A \<and> lv' c = lv u))))"

text \<open>
  What a returned \<open>Split\<close> of \<open>t\<close> leaves: the pool in order and, unless it is exhausted,
  \<open>t\<close> a branch and the mesh in order.
\<close>

definition stepOk :: "nat \<Rightarrow> nat \<Rightarrow> Patch \<Rightarrow> (addr \<Rightarrow> nat) \<Rightarrow> addr \<Rightarrow> Patch \<Rightarrow> bool" where
  "stepOk w k s lv t s' =
     (poolOk w s'
      \<and> nextTriNodeIdx (currentPool s) \<le> nextTriNodeIdx (currentPool s')
      \<and> length (pool (currentPool s')) = length (pool (currentPool s))
      \<and> (\<not> OutOfNodes (currentPool s') \<longrightarrow>
            \<not> IsLeaf (nd s' t)
          \<and> (\<exists>lv'. gmesh (nodes w s') lv' (nd s') {}
                   \<and> grow k (nodes w s) lv (nd s) (nodes w s') lv' (nd s'))))"

text \<open>The state after the forced split of the base neighbour, if any.\<close>

definition forced :: "nat \<Rightarrow> Patch \<Rightarrow> (addr \<Rightarrow> nat) \<Rightarrow> addr \<Rightarrow> Patch \<Rightarrow> bool" where
  "forced w s lv t s1 =
     (poolOk w s1
      \<and> nextTriNodeIdx (currentPool s) \<le> nextTriNodeIdx (currentPool s1)
      \<and> length (pool (currentPool s1)) = length (pool (currentPool s))
      \<and> (\<not> OutOfNodes (currentPool s1) \<longrightarrow>
            IsLeaf (nd s1 t)
          \<and> (\<forall>c. BaseNeighbor (nd s1 t) = Some c \<longrightarrow> BaseNeighbor (nd s1 c) = Some t)
          \<and> (\<exists>lv1. lv1 t = lv t \<and> gmesh (nodes w s1) lv1 (nd s1) {}
                   \<and> grow (lv t) (nodes w s) lv (nd s) (nodes w s1) lv1 (nd s1))))"

text \<open>The part of \<open>Split\<close> after the forced split.\<close>

definition afterForce :: "nat \<Rightarrow> addr \<Rightarrow> Patch \<Rightarrow> (fault + bool \<times> Patch) option" where
  "afterForce n tri s1 =
     (case allocChildren s1 tri of
        (ok, s2) \<Rightarrow>
          if \<not> ok then Some (Inr (False, s2))
          else deref (LeftChild (nd s2 tri)) (\<lambda>lc.
               deref (RightChild (nd s2 tri)) (\<lambda>rc.
                 finishSplit n tri lc rc (linkChildren s2 tri lc rc))))"

text \<open>The watermark never moves back and the capacity is kept.\<close>

definition poolSame :: "Patch \<Rightarrow> Patch \<Rightarrow> bool" where
  "poolSame s s' = (nextTriNodeIdx (currentPool s) \<le> nextTriNodeIdx (currentPool s')
      \<and> length (pool (currentPool s')) = length (pool (currentPool s)))"

text \<open>
  A node of the patch is named by its root and the path of children from it
  (\<open>False\<close> the left one, \<open>True\<close> the right one), as the walks of the source reach it.
\<close>

fun nodeAt :: "Patch \<Rightarrow> addr \<Rightarrow> bool list \<Rightarrow> addr option" where
  "nodeAt s a [] = Some a"
| "nodeAt s a (d # ds) =
     (case (if d then RightChild (nd s a) else LeftChild (nd s a)) of
        None \<Rightarrow> None
      | Some c \<Rightarrow> nodeAt s c ds)"

text \<open>
  A sequence of \<open>Split\<close> calls, each with its fuel, its root (\<open>True\<close> for \<open>baseRight\<close>) and
  the path to its node.
\<close>

fun SplitCalls :: "(nat \<times> bool \<times> bool list) list \<Rightarrow> Patch \<Rightarrow> (fault + Patch) option" where
  "SplitCalls [] s = Some (Inr s)"
| "SplitCalls ((n, r, path) # cs) s =
     deref (nodeAt s (if r then BaseRight else BaseLeft) path) (\<lambda>t.
       bindR (Split n t s) (\<lambda>(ok, s'). SplitCalls cs s'))"

text \<open>The invariant of a state.\<close>

definition meshOk :: "nat \<Rightarrow> Patch \<Rightarrow> bool" where
  "meshOk w s = (poolOk w s \<and> (\<exists>lv. gmesh (nodes w s) lv (nd s) {}))"

text \<open>
  The cross links of the statement, computed: both nodes have their two children, and
  each child of \<open>u\<close> has, on its outer side, the matching child of \<open>b\<close> or the child of
  that child on the same side.
\<close>

definition crossLinked :: "Patch \<Rightarrow> addr \<Rightarrow> addr \<Rightarrow> bool" where
  "crossLinked s u b =
     (case (LeftChild (nd s u), RightChild (nd s u), LeftChild (nd s b), RightChild (nd s b)) of
        (Some lc, Some rc, Some blc, Some brc) \<Rightarrow>
            (RightNeighbor (nd s lc) = Some brc
             \<or> (RightNeighbor (nd s lc) \<noteq> None \<and> RightNeighbor (nd s lc) = LeftChild (nd s brc)))
          \<and> (LeftNeighbor (nd s rc) = Some blc
             \<or> (LeftNeighbor (nd s rc) \<noteq> None \<and> LeftNeighbor (nd s rc) = RightChild (nd s blc)))
      | _ \<Rightarrow> False)"

text \<open>
  A freshly reset patch with a pool of \<open>n\<close> free nodes; the patch that \<open>Split\<close> on
  \<open>baseLeft\<close> leaves when the pool has two nodes; and the patch that \<open>Split\<close> on \<open>baseLeft\<close>
  and then on the right child of \<open>baseRight\<close> leave when the pool has eight.
\<close>

definition resetPatch :: "nat \<Rightarrow> Patch" where
  "resetPatch n = Patch_Reset (mkPatch zeroNode zeroNode (replicate n zeroNode) 0)"

definition halfSplitPatch :: Patch where
  "halfSplitPatch = mkPatch
     (node5 (Some (Pool 0)) (Some (Pool 1)) (Some BaseRight) None None)
     (node5 None None (Some BaseLeft) None None)
     [node5 None None None (Some (Pool 1)) None,
      node5 None None None None (Some (Pool 0))] 2"

definition refinedPatch :: Patch where
  "refinedPatch = mkPatch
     (node5 (Some (Pool 0)) (Some (Pool 1)) (Some BaseRight) None None)
     (node5 (Some (Pool 2)) (Some (Pool 3)) (Some BaseLeft) None None)
     [node5 None None None (Some (Pool 1)) (Some (Pool 4)),
      node5 None None None (Some (Pool 2)) (Some (Pool 0)),
      node5 None None None (Some (Pool 5)) (Some (Pool 1)),
      node5 (Some (Pool 4)) (Some (Pool 5)) None (Some (Pool 0)) (Some (Pool 2)),
      node5 None None (Some (Pool 0)) (Some (Pool 5)) None,
      node5 None None (Some (Pool 2)) None (Some (Pool 4)),
      node5 None None None None None,
      node5 None None None None None] 6"


section \<open>Theorems\<close>

subsection \<open>The pool\<close>

lemma OutOfNodes_code_agrees:
  "pool_inv p \<Longrightarrow> OutOfNodes p \<longleftrightarrow> nextTriNodeIdx p \<ge> length (pool p)"
  unfolding pool_inv_def OutOfNodes_def by (auto elim!: evenE) 

lemma pool_inv_ctor: "CTriNodePool_ctor c = Inr p \<Longrightarrow> pool_inv p \<and> length (pool p) = c"
  by (auto simp: CTriNodePool_ctor_def pool_inv_def list_all_iff split: if_splits)

lemma pool_inv_Reset:
  "pool_inv p \<Longrightarrow> pool_inv (CTriNodePool_Reset p)"
  by (auto simp: CTriNodePool_Reset_def pool_inv_def list_all_iff min_def)


text \<open>
  C3. On a pool that satisfies the arena invariant, \<open>Allocate\<close> either fails, with both
  outputs null and the pool untouched (exactly when fewer than two slots remain), or
  returns the two slots at the watermark, both still zeroed, and advances the watermark
  by two. It never hands out one child only, and the invariant (even watermark,
  watermark within the capacity, free slots zeroed) is kept.
\<close>

theorem Allocate_pair_or_nothing:
  assumes "pool_inv p"
  shows "case Allocate p of (ok, left, right, p') \<Rightarrow>
           pool_inv p' \<and> pool p' = pool p \<and> (left = None \<longleftrightarrow> right = None) \<and>
           (if length (pool p) - nextTriNodeIdx p < 2
            then \<not> ok \<and> left = None \<and> right = None \<and> p' = p
            else ok \<and> left = Some (Pool (nextTriNodeIdx p))
               \<and> right = Some (Pool (nextTriNodeIdx p + 1))
               \<and> nextTriNodeIdx p + 1 < length (pool p)
               \<and> pool p ! nextTriNodeIdx p = zeroNode
               \<and> pool p ! (nextTriNodeIdx p + 1) = zeroNode
               \<and> nextTriNodeIdx p' = nextTriNodeIdx p + 2)"
proof (cases "OutOfNodes p")
  case True
  then show ?thesis using assms by (simp add: Allocate_def OutOfNodes_def)
next
  case False
  have slots: "nextTriNodeIdx p + 2 \<le> length (pool p)"
    using False by (simp add: OutOfNodes_def)
  have zero: "\<And>i. nextTriNodeIdx p \<le> i \<Longrightarrow> i < length (pool p) \<Longrightarrow> pool p ! i = zeroNode"
  proof -
    fix i assume a: "nextTriNodeIdx p \<le> i" "i < length (pool p)"
    have "\<forall>n \<in> set (drop (nextTriNodeIdx p) (pool p)). n = zeroNode"
      using assms by (simp add: pool_inv_def list_all_iff)
    moreover have "pool p ! i = drop (nextTriNodeIdx p) (pool p) ! (i - nextTriNodeIdx p)"
      using a by simp
    moreover have "i - nextTriNodeIdx p < length (drop (nextTriNodeIdx p) (pool p))"
      using a by simp
    ultimately show "pool p ! i = zeroNode" by (metis nth_mem)
  qed
  have inv': "pool_inv (p\<lparr>nextTriNodeIdx := nextTriNodeIdx p + 2\<rparr>)"
  proof -
    have "set (drop (nextTriNodeIdx p + 2) (pool p)) \<subseteq> set (drop (nextTriNodeIdx p) (pool p))"
      by (rule set_drop_subset_set_drop) simp
    then show ?thesis
      using assms slots by (auto simp: pool_inv_def list_all_iff)
  qed
  show ?thesis
    using False slots zero[of "nextTriNodeIdx p"] zero[of "nextTriNodeIdx p + 1"] inv'
    by (simp add: Allocate_def OutOfNodes_def Let_def)
qed

theorem Allocate_pair_or_nothing_witness:
  "pool_inv (fresh_pool 2)
   \<and> Allocate (fresh_pool 2) = (True, Some (Pool 0), Some (Pool 1), (fresh_pool 2)\<lparr>nextTriNodeIdx := 2\<rparr>)
   \<and> pool_inv ((fresh_pool 2)\<lparr>nextTriNodeIdx := 2\<rparr>)
   \<and> Allocate ((fresh_pool 2)\<lparr>nextTriNodeIdx := 2\<rparr>)
       = (False, None, None, (fresh_pool 2)\<lparr>nextTriNodeIdx := 2\<rparr>)"
proof -
  have a: "pool_inv (fresh_pool 2)"
    by (simp add: pool_inv_def fresh_pool_def list_all_iff)
  have b: "pool_inv ((fresh_pool 2)\<lparr>nextTriNodeIdx := 2\<rparr>)"
    by (simp add: pool_inv_def fresh_pool_def)
  show ?thesis
    using a b Allocate_pair_or_nothing[OF a] Allocate_pair_or_nothing[OF b]
    by (auto simp: fresh_pool_def Allocate_def OutOfNodes_def)
qed

subsection \<open>Pool sizing\<close>

lemma unat_thr_cap:
  fixes n :: "64 word"
  assumes k: "0 < k" "k < 2 ^ 64" and n: "unat n < 2 ^ 64 - 1"
  shows "unat (max (n div of_nat k) (n div 3) + (max (n div of_nat k) (n div 3) AND 1))
           = thread_capacity (unat n) k"
proof -
  define t where "t = max (n div of_nat k) (n div 3)"
  have uk: "unat (of_nat k :: 64 word) = k"
    using k by (simp add: unat_of_nat)
  have d1: "unat (n div of_nat k) = unat n div k"
    by (simp add: unat_div uk)
  have d3: "unat (n div 3) = unat n div 3"
    by (simp add: unat_div)
  have ut: "unat t = max (unat n div k) (unat n div 3)"
    unfolding t_def using d1 d3 by (simp add: max_def word_le_nat_alt)
  have le: "unat t \<le> unat n"
    unfolding ut by (simp add: div_le_dividend)
  have b: "unat (t AND 1) = unat t mod 2"
    by (simp add: and_one_eq unat_mod)
  have "unat t + unat (t AND 1) < 2 ^ 64"
    using le n b by simp
  then have "unat (t + (t AND 1)) = unat t + unat (t AND 1)"
    by (simp add: unat_add_lem[THEN iffD1])
  then show ?thesis
    by (simp add: b ut thread_capacity_def Let_def t_def[symmetric])
qed

lemma thread_capacity_even: "even (thread_capacity n k)"
  by (simp add: thread_capacity_def Let_def)

lemma ctor_fresh: "even c \<Longrightarrow> 0 < c \<Longrightarrow> CTriNodePool_ctor c = Inr (fresh_pool c)"
  by (simp add: CTriNodePool_ctor_def fresh_pool_def)

lemma InitPools_first_try:
  assumes k: "0 < numThreads" "numThreads < 2 ^ 64" and n: "unat newPoolSize < 2 ^ 64 - 1"
    and pos: "0 < thread_capacity (unat newPoolSize) numThreads"
    and ok: "alloc_ok numThreads (thread_capacity (unat newPoolSize) numThreads)"
  shows "InitPools numThreads alloc_ok shadowPass newPoolSize g =
           Some (Inr (g\<lparr>CUR_POOL_SIZE := newPoolSize,
                        pools := (pools g)(shadowPass := replicate numThreads
                           (fresh_pool (thread_capacity (unat newPoolSize) numThreads)))\<rparr>))"
  using k ok
  by (subst InitPools.simps)
     (simp add: Let_def unat_thr_cap[OF k n] ctor_fresh[OF thread_capacity_even pos])

lemma ResetAll_loop_eq:
  "ResetAll_loop b ps = (b \<or> (\<exists>p \<in> set ps. OutOfNodes p), map CTriNodePool_Reset ps)"
  by (induction ps arbitrary: b) auto


lemma retry_size_le: "unat (n - drop_bit 2 n) \<le> unat (n :: 64 word)"
proof -
  have "drop_bit 2 n \<le> n"
    by (simp add: word_le_nat_alt unat_drop_bit_eq drop_bit_eq_div unat_div)
  then show ?thesis by (simp add: unat_sub)
qed

lemma InitPools_result:
  assumes run: "InitPools numThreads alloc_ok shadowPass newPoolSize g = Some r"
  shows "numThreads < 2 ^ 64 \<longrightarrow> unat newPoolSize < 2 ^ 64 - 1 \<longrightarrow>
         InitPools_post numThreads alloc_ok shadowPass newPoolSize g r"
proof (rule InitPools.raw_induct[where P = "\<lambda>numThreads alloc_ok shadowPass newPoolSize g r.
         numThreads < 2 ^ 64 \<longrightarrow> unat newPoolSize < 2 ^ 64 - 1 \<longrightarrow>
         InitPools_post numThreads alloc_ok shadowPass newPoolSize g r", OF _ run])
  fix f numThreads alloc_ok shadowPass and newPoolSize :: "64 word" and g r
  assume IH: "\<And>numThreads alloc_ok shadowPass newPoolSize g r.
      f numThreads alloc_ok shadowPass newPoolSize g = Some r \<Longrightarrow>
      numThreads < 2 ^ 64 \<longrightarrow> unat newPoolSize < 2 ^ 64 - 1 \<longrightarrow>
      InitPools_post numThreads alloc_ok shadowPass newPoolSize g r"
  assume body: "(if numThreads = 0 then Some (Inl DivisionByZero)
      else let g1 = g\<lparr>CUR_POOL_SIZE := newPoolSize\<rparr>;
               thrPoolSize = max (CUR_POOL_SIZE g1 div of_nat numThreads) (newPoolSize div 3);
               cap = unat (thrPoolSize + (thrPoolSize AND 1))
           in case CTriNodePool_ctor cap of
                Inl f \<Rightarrow> Some (Inl CtorAssertion)
              | Inr fresh \<Rightarrow>
                  if alloc_ok numThreads cap
                  then Some (Inr (g1\<lparr>pools := (pools g1)(shadowPass := replicate numThreads fresh)\<rparr>))
                  else f numThreads alloc_ok shadowPass (newPoolSize - drop_bit 2 newPoolSize)
                        (g1\<lparr>MAX_POOL_SIZE := newPoolSize - drop_bit 2 newPoolSize,
                            pools := (pools g1)(shadowPass := [])\<rparr>)) = Some r"
  show "numThreads < 2 ^ 64 \<longrightarrow> unat newPoolSize < 2 ^ 64 - 1 \<longrightarrow>
         InitPools_post numThreads alloc_ok shadowPass newPoolSize g r"
  proof (intro impI)
    assume b1: "numThreads < 2 ^ 64" and b2: "unat newPoolSize < 2 ^ 64 - 1"
    show "InitPools_post numThreads alloc_ok shadowPass newPoolSize g r"
    proof (cases "numThreads = 0")
      case True
      then show ?thesis using body by (auto simp: InitPools_post_def)
    next
      case False
      then have k: "0 < numThreads" "numThreads < 2 ^ 64" using b1 by auto
      note cap = unat_thr_cap[OF k b2]
      let ?c = "thread_capacity (unat newPoolSize) numThreads"
      show ?thesis
      proof (cases "0 < ?c")
        case pos: True
        note fresh = ctor_fresh[OF thread_capacity_even pos]
        show ?thesis
        proof (cases "alloc_ok numThreads ?c")
          case True
          then show ?thesis
            using body False pos by (auto simp: Let_def cap fresh InitPools_post_def)
        next
          case no: False
          have rec: "f numThreads alloc_ok shadowPass (newPoolSize - drop_bit 2 newPoolSize)
                  (g\<lparr>CUR_POOL_SIZE := newPoolSize,
                      MAX_POOL_SIZE := newPoolSize - drop_bit 2 newPoolSize,
                      pools := (pools g)(shadowPass := [])\<rparr>) = Some r"
            using body False no by (simp add: Let_def cap fresh)
          have small: "unat (newPoolSize - drop_bit 2 newPoolSize) < 2 ^ 64 - 1"
            using retry_size_le[of newPoolSize] b2 by simp
          show ?thesis
            using IH[OF rec] k(2) small retry_size_le[of newPoolSize]
            by (auto simp: InitPools_post_def split: sum.splits)
        qed
      next
        case False
        then have "CTriNodePool_ctor ?c = Inl AssertionFailed"
          by (simp add: CTriNodePool_ctor_def)
        then show ?thesis
          using body \<open>numThreads \<noteq> 0\<close> by (auto simp: Let_def cap InitPools_post_def)
      qed
    qed
  qed
qed

lemma InitPools_first_try_size:
  assumes run: "InitPools numThreads alloc_ok shadowPass newPoolSize g = Some (Inr g')"
    and k: "numThreads < 2 ^ 64" and n: "unat newPoolSize < 2 ^ 64 - 1"
    and ok: "alloc_ok numThreads (thread_capacity (unat newPoolSize) numThreads)"
  shows "CUR_POOL_SIZE g' = newPoolSize"
proof -
  have post: "InitPools_post numThreads alloc_ok shadowPass newPoolSize g (Inr g')"
    using InitPools_result[OF run] k n by blast
  have pos: "0 < numThreads" using post by (simp add: InitPools_post_def)
  have "0 < thread_capacity (unat newPoolSize) numThreads"
  proof (rule ccontr)
    assume "\<not> 0 < thread_capacity (unat newPoolSize) numThreads"
    then have "CTriNodePool_ctor (thread_capacity (unat newPoolSize) numThreads) = Inl AssertionFailed"
      by (simp add: CTriNodePool_ctor_def)
    then have "InitPools numThreads alloc_ok shadowPass newPoolSize g = Some (Inl CtorAssertion)"
      using pos by (subst InitPools.simps) (simp add: Let_def unat_thr_cap[OF pos k n])
    then show False using run by simp
  qed
  from InitPools_first_try[of numThreads newPoolSize alloc_ok shadowPass g, OF pos k n this ok] run
  show ?thesis by auto
qed

lemma replicate_six: "replicate 6 x = [x, x, x, x, x, x]"
  by (simp add: eval_nat_numeral)

lemma InitPools_12_6:
  "InitPools 6 (\<lambda>_ _. True) False 12 g = Some (Inr (g\<lparr>CUR_POOL_SIZE := 12,
     pools := (pools g)(False := replicate 6 (fresh_pool 4))\<rparr>))"
proof -
  have a1: "max ((12::64 word) div of_nat 6) (12 div 3) = 4" by simp
  have a2: "unat ((4::64 word) + (4 AND 1)) = 4" by simp
  have a3: "CTriNodePool_ctor 4 = Inr (fresh_pool 4)"
    by (simp add: CTriNodePool_ctor_def fresh_pool_def)
  show ?thesis
    using a1 by (subst InitPools.simps) (simp add: Let_def a2 a3)
qed

text \<open>
  C6, as stated, fails: with a total of 12 slots and 6 threads the code gives every
  thread 4 slots (one third of the total), where the claim's formula (one third of the
  even split as the floor) gives 2.
\<close>

theorem InitPools_capacity_counterexample:
  "map_option (map_sum id (\<lambda>g'. capacities (pools g' False)))
      (InitPools 6 (\<lambda>_ _. True) False 12 (globals0 1048576)) = Some (Inr [4, 4, 4, 4, 4, 4])
   \<and> claimed_thread_capacity 12 6 = 2"
  by (simp add: InitPools_12_6 replicate_six capacities_def fresh_pool_def
        claimed_thread_capacity_def)

text \<open>
  C6, amended. When \<open>InitPools\<close> returns, every per-thread pool of the pass has the
  capacity \<open>max (total div numThreads) (total div 3)\<close>, rounded up to even, where
  \<open>total\<close> is the total size it finally settled on (\<open>CUR_POOL_SIZE\<close>); that is the
  requested size when the first allocation succeeds. The floor is one third of the
  total, not of the even split.
\<close>

theorem InitPools_thread_capacity:
  assumes "InitPools numThreads alloc_ok shadowPass newPoolSize g = Some (Inr g')"
    and "numThreads < 2 ^ 31" and "unat newPoolSize < 2 ^ 64 - 1"
  shows "capacities (pools g' shadowPass) =
           replicate numThreads
             (let t = max (unat (CUR_POOL_SIZE g') div numThreads) (unat (CUR_POOL_SIZE g') div 3)
              in if even t then t else t + 1)
         \<and> (alloc_ok numThreads (thread_capacity (unat newPoolSize) numThreads)
              \<longrightarrow> CUR_POOL_SIZE g' = newPoolSize)"
proof -
  have k: "numThreads < 2 ^ 64" using assms(2) by simp
  have post: "InitPools_post numThreads alloc_ok shadowPass newPoolSize g (Inr g')"
    using InitPools_result[OF assms(1)] k assms(3) by blast
  have tc: "\<And>n. thread_capacity n numThreads =
      (let t = max (n div numThreads) (n div 3) in if even t then t else t + 1)"
    by (auto simp: thread_capacity_def Let_def odd_iff_mod_2_eq_one)
  have c: "capacities (pools g' shadowPass) =
      replicate numThreads (thread_capacity (unat (CUR_POOL_SIZE g')) numThreads)"
    using post by (simp add: InitPools_post_def capacities_def fresh_pool_def)
  have first: "CUR_POOL_SIZE g' = newPoolSize"
    if ok: "alloc_ok numThreads (thread_capacity (unat newPoolSize) numThreads)"
    using InitPools_first_try_size[OF assms(1) k assms(3) ok] .
  show ?thesis using c first by (simp add: tc)
qed

theorem InitPools_thread_capacity_witness:
  "InitPools 6 (\<lambda>_ _. True) False 12 (globals0 1048576)
     = Some (Inr ((globals0 1048576)\<lparr>CUR_POOL_SIZE := 12,
          pools := (pools (globals0 1048576))(False := replicate 6 (fresh_pool 4))\<rparr>))
   \<and> capacities (replicate 6 (fresh_pool 4)) = replicate 6 4"
proof -
  have run: "InitPools 6 (\<lambda>_ _. True) False 12 (globals0 1048576)
     = Some (Inr ((globals0 1048576)\<lparr>CUR_POOL_SIZE := 12,
          pools := (pools (globals0 1048576))(False := replicate 6 (fresh_pool 4))\<rparr>))"
    by (rule InitPools_12_6)
  have "(6::nat) < 2 ^ 31" and "unat (12 :: 64 word) < 2 ^ 64 - 1" by simp_all
  from InitPools_thread_capacity[OF run this] run
  show ?thesis by simp
qed

lemma length_pool_Reset: "length (pool (CTriNodePool_Reset p)) = length (pool p)"
  by (simp add: CTriNodePool_Reset_def min_def)

lemma next_Reset: "nextTriNodeIdx (CTriNodePool_Reset p) = 0"
  by (simp add: CTriNodePool_Reset_def)

lemma capacities_Reset: "capacities (map CTriNodePool_Reset ps) = capacities ps"
  by (simp add: capacities_def length_pool_Reset)

lemma unat_double_capped:
  fixes c m :: "64 word"
  assumes "c < m" and "unat m \<le> 2 ^ 63"
  shows "unat (min (c * 2) m) = min (2 * unat c) (unat m)"
proof -
  have "unat c < 2 ^ 63" using assms by (simp add: word_less_nat_alt)
  then have "unat c * unat (2 :: 64 word) < 2 ^ 64" by simp
  then have "unat (c * 2) = unat c * 2"
    using unat_mult_lem[of c 2] by simp
  then show ?thesis by (simp add: min_def word_le_nat_alt)
qed

lemma Reset_clears:
  assumes "pool_inv p"
  shows "CTriNodePool_Reset p = fresh_pool (length (pool p))"
proof -
  from assms have le: "nextTriNodeIdx p \<le> length (pool p)"
    and z: "\<forall>x \<in> set (drop (nextTriNodeIdx p) (pool p)). x = zeroNode"
    by (simp_all add: pool_inv_def list_all_iff)
  have d: "drop (nextTriNodeIdx p) (pool p) = replicate (length (pool p) - nextTriNodeIdx p) zeroNode"
    using replicate_length_same[OF z] by simp
  have "replicate (min (nextTriNodeIdx p) (length (pool p))) zeroNode @ drop (nextTriNodeIdx p) (pool p)
        = replicate (length (pool p)) zeroNode"
    unfolding d using le by (simp add: replicate_add[symmetric] min_def)
  moreover have "nextTriNodeIdx p = 0 \<Longrightarrow> pool p = replicate (length (pool p)) zeroNode"
    using d by simp
  ultimately show ?thesis by (auto simp: CTriNodePool_Reset_def fresh_pool_def)
qed

lemma map_Reset_clears:
  assumes "\<forall>p \<in> set ps. pool_inv p"
  shows "map CTriNodePool_Reset ps = map (\<lambda>p. fresh_pool (length (pool p))) ps"
  using assms by (induction ps) (simp_all add: Reset_clears)

lemma InitPools_first_try_result:
  assumes run: "InitPools numThreads alloc_ok shadowPass newPoolSize g = Some (Inr g')"
    and k: "numThreads < 2 ^ 64" and n: "unat newPoolSize < 2 ^ 64 - 1"
    and ok: "alloc_ok numThreads (thread_capacity (unat newPoolSize) numThreads)"
  shows "g' = g\<lparr>CUR_POOL_SIZE := newPoolSize,
                 pools := (pools g)(shadowPass := replicate numThreads
                           (fresh_pool (thread_capacity (unat newPoolSize) numThreads)))\<rparr>"
proof -
  have post: "InitPools_post numThreads alloc_ok shadowPass newPoolSize g (Inr g')"
    using InitPools_result[OF run] k n by blast
  have pos: "0 < numThreads" using post by (simp add: InitPools_post_def)
  have "0 < thread_capacity (unat newPoolSize) numThreads"
  proof (rule ccontr)
    assume "\<not> 0 < thread_capacity (unat newPoolSize) numThreads"
    then have "CTriNodePool_ctor (thread_capacity (unat newPoolSize) numThreads) = Inl AssertionFailed"
      by (simp add: CTriNodePool_ctor_def)
    then have "InitPools numThreads alloc_ok shadowPass newPoolSize g = Some (Inl CtorAssertion)"
      using pos by (subst InitPools.simps) (simp add: Let_def unat_thr_cap[OF pos k n])
    then show False using run by simp
  qed
  from InitPools_first_try[of numThreads newPoolSize alloc_ok shadowPass g, OF pos k n this ok] run
  show ?thesis by simp
qed

lemma InitPools_one:
  assumes "0 < unat n" "unat n < 2 ^ 64 - 1" "even (unat n)"
  shows "InitPools (Suc 0) okAlloc pass n g
     = Some (Inr (g\<lparr>CUR_POOL_SIZE := n, pools := (pools g)(pass := [fresh_pool (unat n)])\<rparr>))"
proof -
  have "unat n div 3 \<le> unat n" by simp
  then have tc: "thread_capacity (unat n) (Suc 0) = unat n"
    using assms(3) by (simp add: thread_capacity_def Let_def max_absorb1)
  have "InitPools (Suc 0) okAlloc pass n g
     = Some (Inr (g\<lparr>CUR_POOL_SIZE := n, pools := (pools g)(pass := replicate (Suc 0)
           (fresh_pool (thread_capacity (unat n) (Suc 0))))\<rparr>))"
    by (rule InitPools_first_try) (use assms in \<open>simp_all add: tc okAlloc_def\<close>)
  then show ?thesis by (simp add: tc)
qed

lemma passes_run:
  "InitPools (Suc 0) okAlloc False 4 (globals0 4) = Some (Inr passA)"
  "InitPools (Suc 0) okAlloc True 8 passA = Some (Inr passB)"
  "ResetAll (Suc 0) okAlloc False passC = Some (Inr passD)"
proof -
  show "InitPools (Suc 0) okAlloc False 4 (globals0 4) = Some (Inr passA)"
    unfolding passA_def by (subst InitPools_one) simp_all
  show "InitPools (Suc 0) okAlloc True 8 passA = Some (Inr passB)"
    unfolding passB_def by (subst InitPools_one) simp_all
  have out: "OutOfNodes used4" by (simp add: OutOfNodes_def used4_def)
  have lt: "CUR_POOL_SIZE passC < MAX_POOL_SIZE passC" "min (CUR_POOL_SIZE passC * 2) (MAX_POOL_SIZE passC) = 16"
    by (simp_all add: passC_def passB_def passA_def globals0_def)
  have r4: "CTriNodePool_Reset used4 = fresh_pool 4"
    by (simp add: CTriNodePool_Reset_def used4_def fresh_pool_def eval_nat_numeral)
  have loop: "ResetAll_loop False (pools passC False) = (True, [fresh_pool 4])"
    using out by (simp add: passC_def r4)
  have i: "InitPools (Suc 0) okAlloc False 16 g
     = Some (Inr (g\<lparr>CUR_POOL_SIZE := 16, pools := (pools g)(False := [fresh_pool 16])\<rparr>))" for g
    by (subst InitPools_one) simp_all
  show "ResetAll (Suc 0) okAlloc False passC = Some (Inr passD)"
    unfolding ResetAll_def loop Let_def prod.case
    using lt by (simp add: i passD_def not_le)
qed




subsection \<open>Footprints\<close>

lemma axis_children:
  assumes "axisTri (2 * d) left rght apex"
  shows "diagTri d apex left (midpoint left rght)" "diagTri d rght apex (midpoint left rght)"
    "2 * fst (midpoint left rght) = fst left + fst rght"
    "2 * snd (midpoint left rght) = snd left + snd rght"
proof -
  obtain lx ly rx ry ax ay where p: "left = (lx, ly)" "rght = (rx, ry)" "apex = (ax, ay)"
    by (cases left, cases rght, cases apex) auto
  from assms have q: "rx - ax = ly - ay" "ry - ay = - (lx - ax)"
    and c: "(\<bar>lx - ax\<bar> = 2 * d \<and> ly = ay) \<or> (lx = ax \<and> \<bar>ly - ay\<bar> = 2 * d)"
    by (simp_all add: axisTri_def quarterTurn_def p)
  have e1: "(lx + rx) div 2 * 2 = lx + rx" using q c by (auto simp: abs_if split: if_splits) presburger+
  have e2: "(ly + ry) div 2 * 2 = ly + ry" using q c by (auto simp: abs_if split: if_splits) presburger+
  show "2 * fst (midpoint left rght) = fst left + fst rght"
    using e1 by (simp add: midpoint_def p)
  show "2 * snd (midpoint left rght) = snd left + snd rght"
    using e2 by (simp add: midpoint_def p)
  show "diagTri d apex left (midpoint left rght)"
    using q c e1 e2 by (auto simp: diagTri_def quarterTurn_def midpoint_def p abs_if split: if_splits)
  show "diagTri d rght apex (midpoint left rght)"
    using q c e1 e2 by (auto simp: diagTri_def quarterTurn_def midpoint_def p abs_if split: if_splits)
qed

lemma diag_children:
  assumes "diagTri d left rght apex"
  shows "axisTri d apex left (midpoint left rght)" "axisTri d rght apex (midpoint left rght)"
    "2 * fst (midpoint left rght) = fst left + fst rght"
    "2 * snd (midpoint left rght) = snd left + snd rght"
proof -
  obtain lx ly rx ry ax ay where p: "left = (lx, ly)" "rght = (rx, ry)" "apex = (ax, ay)"
    by (cases left, cases rght, cases apex) auto
  from assms have q: "rx - ax = ly - ay" "ry - ay = - (lx - ax)"
    and c: "\<bar>lx - ax\<bar> = d" "\<bar>ly - ay\<bar> = d"
    by (simp_all add: diagTri_def quarterTurn_def p)
  have e1: "(lx + rx) div 2 * 2 = lx + rx" using q c by (auto simp: abs_if split: if_splits) presburger+
  have e2: "(ly + ry) div 2 * 2 = ly + ry" using q c by (auto simp: abs_if split: if_splits) presburger+
  show "2 * fst (midpoint left rght) = fst left + fst rght"
    using e1 by (simp add: midpoint_def p)
  show "2 * snd (midpoint left rght) = snd left + snd rght"
    using e2 by (simp add: midpoint_def p)
  show "axisTri d apex left (midpoint left rght)"
    using q c e1 e2 by (auto simp: axisTri_def quarterTurn_def midpoint_def p abs_if split: if_splits)
  show "axisTri d rght apex (midpoint left rght)"
    using q c e1 e2 by (auto simp: axisTri_def quarterTurn_def midpoint_def p abs_if split: if_splits)
qed

lemma footRank_roots:
  "footRank (2 * k) (cx, cy + 2 ^ k) (cx + 2 ^ k, cy) (cx, cy)"
  "footRank (2 * k) (cx + 2 ^ k, cy) (cx, cy + 2 ^ k) (cx + 2 ^ k, cy + 2 ^ k)"
  by (simp_all add: footRank_def axisTri_def quarterTurn_def)

lemma footRank_children:
  assumes "footRank (Suc r) left rght apex"
  shows "footRank r apex left (midpoint left rght)" "footRank r rght apex (midpoint left rght)"
proof -
  show "footRank r apex left (midpoint left rght)" "footRank r rght apex (midpoint left rght)"
  proof (atomize (full), cases "even r")
    case True
    then have "diagTri (2 ^ (r div 2)) left rght apex" using assms by (simp add: footRank_def)
    then show "footRank r apex left (midpoint left rght) \<and> footRank r rght apex (midpoint left rght)"
      using diag_children(1,2) True by (simp add: footRank_def)
  next
    case False
    then obtain j where j: "r = 2 * j + 1" by (auto elim: oddE)
    then have "axisTri (2 * 2 ^ j) left rght apex" using assms by (simp add: footRank_def)
    then show "footRank r apex left (midpoint left rght) \<and> footRank r rght apex (midpoint left rght)"
      using axis_children(1,2)[of "2 ^ j"] j by (simp add: footRank_def)
  qed
qed

lemma footRank_extent:
  assumes "footRank r left rght apex"
  shows "max \<bar>fst left - fst rght\<bar> \<bar>snd left - snd rght\<bar> = 2 ^ ((r + 1) div 2)"
proof (cases "even r")
  case True
  then obtain j where j: "r = 2 * j" by (auto elim: evenE)
  then have a: "axisTri (2 ^ j) left rght apex" using assms by (simp add: footRank_def)
  have p: "(0::int) < 2 ^ j" by simp
  show ?thesis using a p unfolding j axisTri_def quarterTurn_def
    by (cases left, cases rght, cases apex) (auto simp: abs_if split: if_splits)
next
  case False
  then obtain j where j: "r = 2 * j + 1" by (auto elim: oddE)
  then have a: "diagTri (2 ^ j) left rght apex" using assms by (simp add: footRank_def)
  have p: "(0::int) < 2 ^ j" by simp
  show ?thesis using a p unfolding j diagTri_def quarterTurn_def
    by (cases left, cases rght, cases apex) (auto simp: abs_if split: if_splits)
qed

lemma footRank_0_small:
  assumes "footRank 0 left rght apex"
  shows "\<bar>fst left - fst rght\<bar> \<le> 1 \<and> \<bar>snd left - snd rght\<bar> \<le> 1"
  using footRank_extent[OF assms] by (auto simp: max_def split: if_splits)

subsection \<open>Variance and tessellation\<close>

lemma bindR_Some_Inr:
  "bindR m f = Some (Inr v) \<longleftrightarrow> (\<exists>x. m = Some (Inr x) \<and> f x = Some (Inr v))"
  by (auto simp: bindR_def split: option.splits sum.splits)

lemma bindR_pairE:
  assumes "bindR m (\<lambda>(a, b). f a b) = Some (Inr v)"
  obtains a b where "m = Some (Inr (a, b))" and "f a b = Some (Inr v)"
  using assms by (auto simp: bindR_def split: option.splits sum.splits)

lemma bindR_E:
  assumes "bindR m f = Some (Inr v)"
  obtains x where "m = Some (Inr x)" and "f x = Some (Inr v)"
  using assms by (auto simp: bindR_def split: option.splits sum.splits)

lemma RCV_Suc_rec:
  "\<bar>fst left - fst rght\<bar> \<ge> 4 \<or> \<bar>snd left - snd rght\<bar> \<ge> 4 \<Longrightarrow>
   RecursComputeVariance PS VD (Suc n) s left rght apex (hl, hr, ha) node =
     bindR (RecursComputeVariance PS VD n s apex left (midpoint left rght)
              (ha, hl, GetHeight PS s (midpoint left rght)) (push_bit 1 node))
       (\<lambda>(c1, s1).
     bindR (RecursComputeVariance PS VD n s1 rght apex (midpoint left rght)
              (hr, ha, GetHeight PS s (midpoint left rght)) (push_bit 1 node + 1))
       (\<lambda>(c2, s2).
          storeVariance VD s2 node
            (max (max (ownVariance (hl, hr, ha) (GetHeight PS s (midpoint left rght))) c1) c2)))"
  by (simp add: Let_def)

lemma RCV_Suc_stop:
  "\<not> (\<bar>fst left - fst rght\<bar> \<ge> 4 \<or> \<bar>snd left - snd rght\<bar> \<ge> 4) \<Longrightarrow>
   RecursComputeVariance PS VD (Suc n) s left rght apex hgts node =
     storeVariance VD s node (ownVariance hgts (GetHeight PS s (midpoint left rght)))"
  by (simp add: Let_def)

lemma storeVariance_Inr:
  "storeVariance VD s node x = Some (Inr (v, s')) \<Longrightarrow>
     v = max 0.001 x \<and>
     (if sint node < 2 ^ VD then writeVariance s node v = Inr s' else s' = s)"
  unfolding storeVariance_def Let_def
  by (cases "sint node < 2 ^ VD"; cases "writeVariance s node (max 0.001 x)") simp_all

lemma writeVariance_Inr:
  assumes "writeVariance s node v = Inr s'"
  shows "0 \<le> sint node \<and> nat (sint node) < length (curTable s)
       \<and> curTable s' = (curTable s)[nat (sint node) := v]
       \<and> currentVariance s' = currentVariance s \<and> vertices s' = vertices s
       \<and> length (varianceLeft s') = length (varianceLeft s)
       \<and> length (varianceRight s') = length (varianceRight s)"
proof (cases "currentVariance s")
  case None
  then show ?thesis using assms by (simp add: writeVariance_def)
next
  case (Some sel)
  then show ?thesis using assms
    by (cases sel) (auto simp: writeVariance_def curTable_def varTable_def split: if_splits)
qed

lemma readVariance_curTable:
  "0 \<le> sint node \<Longrightarrow> nat (sint node) < length (curTable s) \<Longrightarrow>
     readVariance s node = Inr (curTable s ! nat (sint node))"
  by (cases "currentVariance s") (simp_all add: readVariance_def curTable_def)

lemma storeVariance_post:
  assumes st: "storeVariance VD s2 node x = Some (Inr (v, s'))"
    and pre: "RCV_post s c s2" and cx: "c \<le> x"
  shows "RCV_post s v s'"
proof -
  from storeVariance_Inr[OF st] have v: "v = max 0.001 x"
    by (rule conjunct1)
  from storeVariance_Inr[OF st]
  have w: "if sint node < 2 ^ VD then writeVariance s2 node v = Inr s' else s' = s2"
    by (rule conjunct2)
  have cv: "c \<le> v" "0.001 \<le> v" using v cx by simp_all
  have floor: "0.001 \<le> v" using v by simp
  show ?thesis
  proof (cases "sint node < 2 ^ VD")
    case False
    then have "s' = s2" using w by simp
    then show ?thesis using pre cv unfolding RCV_post_def by fastforce
  next
    case True
    then have "writeVariance s2 node v = Inr s'" using w by simp
    note wr = writeVariance_Inr[OF this]
    show ?thesis
      unfolding RCV_post_def
    proof (intro conjI allI impI)
      fix i assume i: "i < length (curTable s)" and ne: "curTable s' ! i \<noteq> curTable s ! i"
      have len: "length (curTable s2) = length (curTable s)" using pre by (simp add: RCV_post_def)
      show "0.001 \<le> curTable s' ! i" "curTable s' ! i \<le> v"
      proof -
        have "0.001 \<le> curTable s' ! i \<and> curTable s' ! i \<le> v"
        proof (cases "i = nat (sint node)")
          case True
          then have "curTable s' ! i = v" using wr i len by simp
          then show ?thesis using cv by simp
        next
          case False
          then have eq: "curTable s' ! i = curTable s2 ! i" using wr by simp
          then have "curTable s2 ! i \<noteq> curTable s ! i" using ne by simp
          then have "0.001 \<le> curTable s2 ! i \<and> curTable s2 ! i \<le> c"
            using pre i by (simp add: RCV_post_def)
          then show ?thesis using eq cv by simp
        qed
        then show "0.001 \<le> curTable s' ! i" "curTable s' ! i \<le> v" by simp_all
      qed
    qed (use pre wr cv in \<open>simp_all add: RCV_post_def\<close>)
  qed
qed

lemma RCV_post_refl: "RCV_post s c s"
  by (simp add: RCV_post_def)

lemma RCV_post_trans:
  assumes a: "RCV_post s c1 s1" and b: "RCV_post s1 c2 s2"
  shows "RCV_post s (max c1 c2) s2"
  unfolding RCV_post_def
proof (intro conjI allI impI)
  fix i assume i: "i < length (curTable s)" and ne: "curTable s2 ! i \<noteq> curTable s ! i"
  have i1: "i < length (curTable s1)" using a i by (simp add: RCV_post_def)
  have "0.001 \<le> curTable s2 ! i \<and> curTable s2 ! i \<le> max c1 c2"
  proof (cases "curTable s2 ! i = curTable s1 ! i")
    case True
    then have "curTable s1 ! i \<noteq> curTable s ! i" using ne by simp
    then have "0.001 \<le> curTable s1 ! i \<and> curTable s1 ! i \<le> c1"
      using a i unfolding RCV_post_def by blast
    then show ?thesis unfolding True by (simp add: max.coboundedI1)
  next
    case False
    then have "0.001 \<le> curTable s2 ! i \<and> curTable s2 ! i \<le> c2"
      using b i1 unfolding RCV_post_def by blast
    then show ?thesis by (simp add: max.coboundedI2)
  qed
  then show "0.001 \<le> curTable s2 ! i" "curTable s2 ! i \<le> max c1 c2" by blast+
qed (use a b in \<open>simp_all add: RCV_post_def\<close>)

lemma RCV_post_weaken: "RCV_post s c s' \<Longrightarrow> c \<le> v \<Longrightarrow> RCV_post s v s'"
  unfolding RCV_post_def by (metis order_trans)

lemma RecursComputeVariance_post:
  "RecursComputeVariance PS VD n s left rght apex hgts node = Some (Inr (v, s'))
     \<Longrightarrow> 0.001 \<le> v \<and> RCV_post s v s'"
proof (induction n arbitrary: s left rght apex hgts node v s')
  case 0
  then show ?case by simp
next
  case (Suc n)
  obtain hl hr ha where h: "hgts = (hl, hr, ha)" by (cases hgts)
  define mhgt where "mhgt = GetHeight PS s (midpoint left rght)"
  define own where "own = ownVariance (hl, hr, ha) mhgt"
  show ?case
  proof (cases "\<bar>fst left - fst rght\<bar> \<ge> 4 \<or> \<bar>snd left - snd rght\<bar> \<ge> 4")
    case True
    have run: "bindR (RecursComputeVariance PS VD n s apex left (midpoint left rght)
              (ha, hl, mhgt) (push_bit 1 node))
       (\<lambda>(c1, s1).
     bindR (RecursComputeVariance PS VD n s1 rght apex (midpoint left rght)
              (hr, ha, mhgt) (push_bit 1 node + 1))
       (\<lambda>(c2, s2). storeVariance VD s2 node (max (max own c1) c2)))
        = Some (Inr (v, s'))"
      using Suc.prems unfolding h RCV_Suc_rec[OF True] mhgt_def[symmetric] own_def[symmetric] .
    from run obtain c1 s1 where
      a: "RecursComputeVariance PS VD n s apex left (midpoint left rght)
            (ha, hl, mhgt) (push_bit 1 node) = Some (Inr (c1, s1))" and
      r: "bindR (RecursComputeVariance PS VD n s1 rght apex (midpoint left rght)
              (hr, ha, mhgt) (push_bit 1 node + 1))
            (\<lambda>(c2, s2). storeVariance VD s2 node (max (max own c1) c2))
           = Some (Inr (v, s'))"
      by (rule bindR_pairE)
    from r obtain c2 s2 where
      b: "RecursComputeVariance PS VD n s1 rght apex (midpoint left rght)
            (hr, ha, mhgt) (push_bit 1 node + 1) = Some (Inr (c2, s2))" and
      c: "storeVariance VD s2 node (max (max own c1) c2) = Some (Inr (v, s'))"
      by (rule bindR_pairE)
    have "RCV_post s (max c1 c2) s2"
      using RCV_post_trans[OF Suc.IH[OF a, THEN conjunct2] Suc.IH[OF b, THEN conjunct2]] .
    moreover have "max c1 c2 \<le> max (max own c1) c2" by simp
    moreover have "0.001 \<le> v" using storeVariance_Inr[OF c] by simp
    ultimately show ?thesis using storeVariance_post[OF c] by blast
  next
    case False
    have c: "storeVariance VD s node own = Some (Inr (v, s'))"
      using Suc.prems unfolding h RCV_Suc_stop[OF False] mhgt_def[symmetric] own_def[symmetric] .
    from storeVariance_Inr[OF c] have v: "0.001 \<le> v" by simp
    show ?thesis using v storeVariance_post[OF c RCV_post_refl order_refl] by blast
  qed
qed

lemma RCV_SucE:
  assumes run: "RecursComputeVariance PS VD (Suc n) s left rght apex (hl, hr, ha) node = Some (Inr (v, s'))"
  obtains (rec) c1 s1 c2 s2 where
      "\<bar>fst left - fst rght\<bar> \<ge> 4 \<or> \<bar>snd left - snd rght\<bar> \<ge> 4"
      "RecursComputeVariance PS VD n s apex left (midpoint left rght)
         (ha, hl, GetHeight PS s (midpoint left rght)) (push_bit 1 node) = Some (Inr (c1, s1))"
      "RecursComputeVariance PS VD n s1 rght apex (midpoint left rght)
         (hr, ha, GetHeight PS s (midpoint left rght)) (push_bit 1 node + 1) = Some (Inr (c2, s2))"
      "storeVariance VD s2 node
         (max (max (ownVariance (hl, hr, ha) (GetHeight PS s (midpoint left rght))) c1) c2)
         = Some (Inr (v, s'))"
  | (stop) "\<not> (\<bar>fst left - fst rght\<bar> \<ge> 4 \<or> \<bar>snd left - snd rght\<bar> \<ge> 4)"
      "storeVariance VD s node (ownVariance (hl, hr, ha) (GetHeight PS s (midpoint left rght)))
         = Some (Inr (v, s'))"
proof (cases "\<bar>fst left - fst rght\<bar> \<ge> 4 \<or> \<bar>snd left - snd rght\<bar> \<ge> 4")
  case True
  define mhgt where "mhgt = GetHeight PS s (midpoint left rght)"
  define own where "own = ownVariance (hl, hr, ha) mhgt"
  have r0: "bindR (RecursComputeVariance PS VD n s apex left (midpoint left rght)
              (ha, hl, mhgt) (push_bit 1 node))
       (\<lambda>(c1, s1).
     bindR (RecursComputeVariance PS VD n s1 rght apex (midpoint left rght)
              (hr, ha, mhgt) (push_bit 1 node + 1))
       (\<lambda>(c2, s2). storeVariance VD s2 node (max (max own c1) c2)))
        = Some (Inr (v, s'))"
    using run unfolding RCV_Suc_rec[OF True] mhgt_def[symmetric] own_def[symmetric] .
  from r0 obtain c1 s1 where
    a: "RecursComputeVariance PS VD n s apex left (midpoint left rght)
          (ha, hl, mhgt) (push_bit 1 node) = Some (Inr (c1, s1))" and
    r: "bindR (RecursComputeVariance PS VD n s1 rght apex (midpoint left rght)
            (hr, ha, mhgt) (push_bit 1 node + 1))
          (\<lambda>(c2, s2). storeVariance VD s2 node (max (max own c1) c2))
         = Some (Inr (v, s'))"
    by (rule bindR_pairE)
  from r obtain c2 s2 where
    b: "RecursComputeVariance PS VD n s1 rght apex (midpoint left rght)
          (hr, ha, mhgt) (push_bit 1 node + 1) = Some (Inr (c2, s2))" and
    c: "storeVariance VD s2 node (max (max own c1) c2) = Some (Inr (v, s'))"
    by (rule bindR_pairE)
  show ?thesis
    using rec[OF True] a b c unfolding mhgt_def own_def by blast
next
  case False
  have "storeVariance VD s node (ownVariance (hl, hr, ha) (GetHeight PS s (midpoint left rght)))
         = Some (Inr (v, s'))"
    using run unfolding RCV_Suc_stop[OF False] .
  then show ?thesis using stop[OF False] by blast
qed

lemma storeVariance_read:
  assumes st: "storeVariance VD s2 node x = Some (Inr (v, s'))" and g: "sint node < 2 ^ VD"
  shows "readVariance s' node = Inr v"
proof -
  from storeVariance_Inr[OF st]
  have "if sint node < 2 ^ VD then writeVariance s2 node v = Inr s' else s' = s2"
    by (rule conjunct2)
  then have "writeVariance s2 node v = Inr s'" by (simp only: g if_True)
  note wr = writeVariance_Inr[OF this]
  have "nat (sint node) < length (curTable s')" using wr by simp
  moreover have "curTable s' ! nat (sint node) = v" using wr by simp
  ultimately show ?thesis using readVariance_curTable[of node s'] wr by simp
qed

text \<open>
  C4. The value a call of \<open>RecursComputeVariance\<close> returns is at least \<open>0.001\<close> (so
  positive); it is what the call stores at \<open>node\<close> when \<open>node\<close> is within the stored
  depth; every table entry the call changes (its whole subtree) holds a value between
  \<open>0.001\<close> and the returned one; and where the call recursed, the returned value is at
  least the value each of the two child calls returned.
\<close>

theorem variance_max_propagation:
  assumes run: "RecursComputeVariance PATCH_SIZE VARIANCE_DEPTH (Suc n) s left rght apex (hl, hr, ha) node
                  = Some (Inr (v, s'))"
  shows "0 < v \<and> 0.001 \<le> v
       \<and> (sint node < 2 ^ VARIANCE_DEPTH \<longrightarrow> readVariance s' node = Inr v)
       \<and> (\<forall>i < length (curTable s). curTable s' ! i \<noteq> curTable s ! i
             \<longrightarrow> 0.001 \<le> curTable s' ! i \<and> curTable s' ! i \<le> v)
       \<and> (\<bar>fst left - fst rght\<bar> \<ge> 4 \<or> \<bar>snd left - snd rght\<bar> \<ge> 4 \<longrightarrow>
            (\<exists>c1 s1 c2 s2.
               RecursComputeVariance PATCH_SIZE VARIANCE_DEPTH n s apex left (midpoint left rght)
                 (ha, hl, GetHeight PATCH_SIZE s (midpoint left rght)) (push_bit 1 node)
                   = Some (Inr (c1, s1))
             \<and> RecursComputeVariance PATCH_SIZE VARIANCE_DEPTH n s1 rght apex (midpoint left rght)
                 (hr, ha, GetHeight PATCH_SIZE s (midpoint left rght)) (push_bit 1 node + 1)
                   = Some (Inr (c2, s2))
             \<and> c1 \<le> v \<and> c2 \<le> v))"
proof -
  from RecursComputeVariance_post[OF run]
  have fl: "0.001 \<le> v" and post: "RCV_post s v s'" by blast+
  have pos: "0 < v" using fl by simp
  have changed: "\<forall>i < length (curTable s). curTable s' ! i \<noteq> curTable s ! i
             \<longrightarrow> 0.001 \<le> curTable s' ! i \<and> curTable s' ! i \<le> v"
    using post unfolding RCV_post_def by blast
  have stored: "sint node < 2 ^ VARIANCE_DEPTH \<longrightarrow> readVariance s' node = Inr v"
    using run by (cases rule: RCV_SucE) (blast intro: storeVariance_read)+
  have kids: "\<bar>fst left - fst rght\<bar> \<ge> 4 \<or> \<bar>snd left - snd rght\<bar> \<ge> 4 \<longrightarrow>
            (\<exists>c1 s1 c2 s2.
               RecursComputeVariance PATCH_SIZE VARIANCE_DEPTH n s apex left (midpoint left rght)
                 (ha, hl, GetHeight PATCH_SIZE s (midpoint left rght)) (push_bit 1 node)
                   = Some (Inr (c1, s1))
             \<and> RecursComputeVariance PATCH_SIZE VARIANCE_DEPTH n s1 rght apex (midpoint left rght)
                 (hr, ha, GetHeight PATCH_SIZE s (midpoint left rght)) (push_bit 1 node + 1)
                   = Some (Inr (c2, s2))
             \<and> c1 \<le> v \<and> c2 \<le> v)"
    using run
  proof (cases rule: RCV_SucE)
    case (rec c1 s1 c2 s2)
    from storeVariance_Inr[OF rec(4)]
    have "v = max 0.001 (max (max (ownVariance (hl, hr, ha)
              (GetHeight PATCH_SIZE s (midpoint left rght))) c1) c2)"
      by (rule conjunct1)
    then have "c1 \<le> v \<and> c2 \<le> v" by (simp only: le_max_iff_disj order_refl simp_thms)
    with rec(2,3) show ?thesis by blast
  next
    case stop
    then show ?thesis by blast
  qed
  show ?thesis using pos fl stored changed kids by blast
qed

lemma frame_refl: "frame s s" by (simp add: frame_def)

lemma frame_trans: "frame s s1 \<Longrightarrow> frame s1 s2 \<Longrightarrow> frame s s2" by (simp add: frame_def)

lemma frame_upd: "frame s (upd s a f)"
  by (cases a) (simp_all add: frame_def upd_def)

lemma frame_pool: "frame s (s\<lparr>currentPool := p\<rparr>)" by (simp add: frame_def)

lemma frame_setBase: "frame s (setBase s a v)" by (simp add: setBase_def frame_upd)

lemma frame_setLeft: "frame s (setLeft s a v)" by (simp add: setLeft_def frame_upd)

lemma frame_setRight: "frame s (setRight s a v)" by (simp add: setRight_def frame_upd)

lemma frame_relinkLeft: "frame s (relinkLeft s tri lc)"
  by (simp add: relinkLeft_def frame_refl frame_setBase frame_setLeft frame_setRight split: option.splits)

lemma frame_relinkRight: "frame s (relinkRight s tri rc)"
  by (simp add: relinkRight_def frame_refl frame_setBase frame_setLeft frame_setRight split: option.splits)

lemma frame_linkChildren: "frame s (linkChildren s tri lc rc)"
  unfolding linkChildren_def Let_def
  by (rule frame_trans[OF _ frame_relinkRight], rule frame_trans[OF _ frame_relinkLeft],
      rule frame_trans[OF _ frame_setRight], rule frame_trans[OF _ frame_setBase],
      rule frame_trans[OF _ frame_setLeft], rule frame_setBase)

lemma frame_crossLink: "frame s (crossLink s lc rc b blc brc)"
  unfolding crossLink_def Let_def
  by (rule frame_trans[OF _ frame_setLeft], rule frame_trans[OF _ frame_setRight],
      rule frame_trans[OF _ frame_setLeft], rule frame_setRight)

lemma frame_allocChildren: "frame s (snd (allocChildren s tri))"
proof -
  obtain ok l r p' where a: "Allocate (currentPool s) = (ok, l, r, p')"
    by (cases "Allocate (currentPool s)") auto
  show ?thesis
    unfolding allocChildren_def a by (simp add: frame_trans[OF frame_pool frame_upd])
qed

text \<open>The steps of Split after a leaf check, as an elimination rule.\<close>

lemma bindR_Some:
  assumes "bindR m f = Some r"
  obtains (fault) e where "m = Some (Inl e)" "r = Inl e"
  | (ok) x where "m = Some (Inr x)" "f x = Some r"
  using assms by (auto simp: bindR_def split: option.splits sum.splits)

lemma deref_Some:
  assumes "deref p f = Some r"
  obtains (null) "p = None" "r = Inl NullPointer"
  | (ok) a where "p = Some a" "f a = Some r"
  using assms by (auto simp: deref_def split: option.splits)

lemma Split_Suc:
  "Split (Suc n) tri s =
     (if \<not> IsLeaf (nd s tri) then Some (Inr (True, s))
      else bindR (forceSplit n tri s) (\<lambda>s1.
             case allocChildren s1 tri of
               (ok, s2) \<Rightarrow>
                 if \<not> ok then Some (Inr (False, s2))
                 else deref (LeftChild (nd s2 tri)) (\<lambda>lc.
                      deref (RightChild (nd s2 tri)) (\<lambda>rc.
                        finishSplit n tri lc rc (linkChildren s2 tri lc rc)))))"
  unfolding Split.simps forceSplit_def finishSplit_def Let_def by (rule refl)

lemma Split_frame_fault:
  "Split n tri s = Some r \<Longrightarrow>
     (case r of Inl e \<Rightarrow> e = NullPointer | Inr (ok, s') \<Rightarrow> frame s s')"
proof (induction n arbitrary: tri s r)
  case 0
  then show ?case by simp
next
  case (Suc n)
  show ?case
  proof (cases "IsLeaf (nd s tri)")
    case False
    then show ?thesis using Suc.prems by (auto simp: frame_refl)
  next
    case True
    have run: "bindR (forceSplit n tri s) (\<lambda>s1.
             case allocChildren s1 tri of
               (ok, s2) \<Rightarrow>
                 if \<not> ok then Some (Inr (False, s2))
                 else deref (LeftChild (nd s2 tri)) (\<lambda>lc.
                      deref (RightChild (nd s2 tri)) (\<lambda>rc.
                        finishSplit n tri lc rc (linkChildren s2 tri lc rc)))) = Some r"
      using Suc.prems True unfolding Split_Suc by simp
    have force: "\<And>r1. forceSplit n tri s = Some r1 \<Longrightarrow>
        (case r1 of Inl e \<Rightarrow> e = NullPointer | Inr s1 \<Rightarrow> frame s s1)"
    proof -
      fix r1 assume f: "forceSplit n tri s = Some r1"
      show "case r1 of Inl e \<Rightarrow> e = NullPointer | Inr s1 \<Rightarrow> frame s s1"
      proof (cases "BaseNeighbor (nd s tri)")
        case None
        then show ?thesis using f by (auto simp: forceSplit_def frame_refl)
      next
        case (Some b)
        show ?thesis
        proof (cases "BaseNeighbor (nd s b) \<noteq> Some tri")
          case False
          then show ?thesis using f Some by (auto simp: forceSplit_def frame_refl)
        next
          case True
          then have "bindR (Split n b s) (\<lambda>(ok, s'). Some (Inr s')) = Some r1"
            using f Some by (simp add: forceSplit_def)
          then show ?thesis
          proof (cases rule: bindR_Some)
            case (fault e)
            then show ?thesis using Suc.IH[OF fault(1)] by simp
          next
            case (ok x)
            then show ?thesis using Suc.IH[OF ok(1)] by (cases x) auto
          qed
        qed
      qed
    qed
    have finish: "\<And>lc rc s3 r3. finishSplit n tri lc rc s3 = Some r3 \<Longrightarrow>
        (case r3 of Inl e \<Rightarrow> e = NullPointer | Inr (ok, s') \<Rightarrow> frame s3 s')"
    proof -
      fix lc rc s3 r3 assume f: "finishSplit n tri lc rc s3 = Some r3"
      show "case r3 of Inl e \<Rightarrow> e = NullPointer | Inr (ok, s') \<Rightarrow> frame s3 s'"
      proof (cases "BaseNeighbor (nd s3 tri)")
        case None
        then show ?thesis using f
          by (auto simp: finishSplit_def intro: frame_trans[OF frame_setRight frame_setLeft])
      next
        case (Some b)
        show ?thesis
        proof (cases "IsBranch (nd s3 b)")
          case True
          then have "deref (LeftChild (nd s3 b)) (\<lambda>blc.
               deref (RightChild (nd s3 b)) (\<lambda>brc.
                 Some (Inr (True, crossLink s3 lc rc b blc brc)))) = Some r3"
            using f Some by (simp add: finishSplit_def)
          then show ?thesis
            by (auto elim!: deref_Some simp: frame_crossLink)
        next
          case False
          then have "bindR (Split n b s3) (\<lambda>(ok, s'). Some (Inr (True, s'))) = Some r3"
            using f Some by (simp add: finishSplit_def)
          then show ?thesis
          proof (cases rule: bindR_Some)
            case (fault e)
            then show ?thesis using Suc.IH[OF fault(1)] by simp
          next
            case (ok x)
            then show ?thesis using Suc.IH[OF ok(1)] by (cases x) auto
          qed
        qed
      qed
    qed
    from run show ?thesis
    proof (cases rule: bindR_Some)
      case (fault e)
      then show ?thesis using force[OF fault(1)] by simp
    next
      case (ok s1)
      have f1: "frame s s1" using force[OF ok(1)] by simp
      obtain okA s2 where al: "allocChildren s1 tri = (okA, s2)" by (cases "allocChildren s1 tri")
      have f2: "frame s1 s2" using frame_allocChildren[of s1 tri] al by simp
      show ?thesis
      proof (cases okA)
        case False
        then have "r = Inr (False, s2)" using ok(2) al by simp
        then show ?thesis using frame_trans[OF f1 f2] by simp
      next
        case True
        then have d: "deref (LeftChild (nd s2 tri)) (\<lambda>lc.
                      deref (RightChild (nd s2 tri)) (\<lambda>rc.
                        finishSplit n tri lc rc (linkChildren s2 tri lc rc))) = Some r"
          using ok(2) al by simp
        from d show ?thesis
        proof (cases rule: deref_Some)
          case null
          then show ?thesis by simp
        next
          case (ok lc)
          from ok(2) show ?thesis
          proof (cases rule: deref_Some)
            case null
            then show ?thesis by simp
          next
            case (ok rc)
            have f3: "frame s (linkChildren s2 tri lc rc)"
              using frame_trans[OF frame_trans[OF f1 f2] frame_linkChildren] .
            from finish[OF ok(2)] f3 show ?thesis
              by (cases r) (auto intro: frame_trans)
          qed
        qed
      qed
    qed
  qed
qed

lemma upd_same: "f (nd s a) = nd s a \<Longrightarrow> upd s a f = s"
  by (cases a) (simp_all add: upd_def nd_def)

lemma Allocate_fails_iff: "fst (Allocate p) = (\<not> OutOfNodes p)"
  by (simp add: Allocate_def Let_def)

lemma allocChildren_exhausted:
  assumes "OutOfNodes (currentPool s)" and "IsLeaf (nd s tri)"
  shows "allocChildren s tri = (False, s)"
proof -
  have a: "Allocate (currentPool s) = (False, None, None, currentPool s)"
    using assms(1) by (simp add: Allocate_def)
  have "(nd s tri)\<lparr>LeftChild := None, RightChild := None\<rparr> = nd s tri"
    using assms(2) by (simp add: IsLeaf_def)
  then have "upd s tri (\<lambda>n. n\<lparr>LeftChild := None, RightChild := None\<rparr>) = s"
    by (rule upd_same)
  then show ?thesis unfolding allocChildren_def a by simp
qed

lemma Split_exhausted:
  "OutOfNodes (currentPool s) \<Longrightarrow> Split n tri s = Some r \<Longrightarrow> \<exists>ok. r = Inr (ok, s)"
proof (induction n arbitrary: tri s r)
  case 0
  then show ?case by simp
next
  case (Suc n)
  show ?case
  proof (cases "IsLeaf (nd s tri)")
    case False
    then show ?thesis using Suc.prems by auto
  next
    case True
    have run: "bindR (forceSplit n tri s) (\<lambda>s1.
             case allocChildren s1 tri of
               (ok, s2) \<Rightarrow>
                 if \<not> ok then Some (Inr (False, s2))
                 else deref (LeftChild (nd s2 tri)) (\<lambda>lc.
                      deref (RightChild (nd s2 tri)) (\<lambda>rc.
                        finishSplit n tri lc rc (linkChildren s2 tri lc rc)))) = Some r"
      using Suc.prems True unfolding Split_Suc by simp
    have force: "forceSplit n tri s = Some r1 \<Longrightarrow> r1 = Inr s" for r1
    proof -
      assume f: "forceSplit n tri s = Some r1"
      show "r1 = Inr s"
      proof (cases "BaseNeighbor (nd s tri)")
        case None
        then show ?thesis using f by (auto simp: forceSplit_def)
      next
        case (Some b)
        show ?thesis
        proof (cases "BaseNeighbor (nd s b) \<noteq> Some tri")
          case False
          then show ?thesis using f Some by (auto simp: forceSplit_def)
        next
          case True
          then have "bindR (Split n b s) (\<lambda>(ok, s'). Some (Inr s')) = Some r1"
            using f Some by (simp add: forceSplit_def)
          then show ?thesis
          proof (cases rule: bindR_Some)
            case (fault e)
            then show ?thesis using Suc.IH[OF Suc.prems(1) fault(1)] by simp
          next
            case (ok x)
            then show ?thesis using Suc.IH[OF Suc.prems(1) ok(1)] by auto
          qed
        qed
      qed
    qed
    from run show ?thesis
    proof (cases rule: bindR_Some)
      case (fault e)
      then show ?thesis using force[OF fault(1)] by simp
    next
      case (ok s1)
      then have "s1 = s" using force[OF ok(1)] by simp
      then show ?thesis
        using ok(2) allocChildren_exhausted[OF Suc.prems(1) True] by auto
    qed
  qed
qed

lemma RecursTessellate_Suc:
  "RecursTessellate PS VD (Suc n) s tri left right apex node =
     (if \<bar>fst left - fst right\<bar> \<le> 1 \<and> \<bar>snd left - snd right\<bar> \<le> 1 then Some (Inr s)
      else
        case triVariance PS VD s left right node of
          Inl f \<Rightarrow> Some (Inl f)
        | Inr tv \<Rightarrow>
            if tv \<le> 1 then Some (Inr s)
            else
              bindR (Split n tri s) (\<lambda>(ok, s1).
                if IsBranch (nd s1 tri)
                then deref (LeftChild (nd s1 tri)) (\<lambda>lc.
                     bindR (RecursTessellate PS VD n s1 lc apex left (midpoint left right)
                              (push_bit 1 node))
                       (\<lambda>s2.
                     deref (RightChild (nd s2 tri)) (\<lambda>rc.
                       RecursTessellate PS VD n s2 rc right apex (midpoint left right)
                         (push_bit 1 node + 1))))
                else Some (Inr s1)))"
  unfolding RecursTessellate.simps Let_def by (rule refl)

lemma RecursTessellate_exhausted:
  "OutOfNodes (currentPool s) \<Longrightarrow>
   RecursTessellate PS VD n s tri left right apex node = Some (Inr s') \<Longrightarrow> s' = s"
proof (induction n arbitrary: tri left right apex node s')
  case 0
  then show ?case by simp
next
  case (Suc n)
  show ?case
  proof (cases "\<bar>fst left - fst right\<bar> \<le> 1 \<and> \<bar>snd left - snd right\<bar> \<le> 1")
    case True
    then show ?thesis using Suc.prems(2) unfolding RecursTessellate_Suc by simp
  next
    case False
    show ?thesis
    proof (cases "triVariance PS VD s left right node")
      case (Inl f)
      then show ?thesis using Suc.prems(2) False unfolding RecursTessellate_Suc by simp
    next
      case (Inr tv)
      show ?thesis
      proof (cases "tv \<le> 1")
        case True
        then show ?thesis using Suc.prems(2) False Inr unfolding RecursTessellate_Suc by simp
      next
        case big: False
        have run: "bindR (Split n tri s) (\<lambda>(ok, s1).
                if IsBranch (nd s1 tri)
                then deref (LeftChild (nd s1 tri)) (\<lambda>lc.
                     bindR (RecursTessellate PS VD n s1 lc apex left (midpoint left right)
                              (push_bit 1 node))
                       (\<lambda>s2.
                     deref (RightChild (nd s2 tri)) (\<lambda>rc.
                       RecursTessellate PS VD n s2 rc right apex (midpoint left right)
                         (push_bit 1 node + 1))))
                else Some (Inr s1)) = Some (Inr s')"
          using Suc.prems(2) False Inr big unfolding RecursTessellate_Suc by simp
        from run show ?thesis
        proof (cases rule: bindR_Some)
          case (fault e)
          then show ?thesis by simp
        next
          case (ok x)
          obtain okS s1 where x: "x = (okS, s1)" by (cases x)
          have s1: "s1 = s" using Split_exhausted[OF Suc.prems(1) ok(1)] x by simp
          show ?thesis
          proof (cases "IsBranch (nd s tri)")
            case False
            then show ?thesis using ok(2) x s1 by simp
          next
            case True
            then have d: "deref (LeftChild (nd s tri)) (\<lambda>lc.
                     bindR (RecursTessellate PS VD n s lc apex left (midpoint left right)
                              (push_bit 1 node))
                       (\<lambda>s2.
                     deref (RightChild (nd s2 tri)) (\<lambda>rc.
                       RecursTessellate PS VD n s2 rc right apex (midpoint left right)
                         (push_bit 1 node + 1)))) = Some (Inr s')"
              using ok(2) x s1 by simp
            from d show ?thesis
            proof (cases rule: deref_Some)
              case null
              then show ?thesis by simp
            next
              case (ok lc)
              from ok(2) show ?thesis
              proof (cases rule: bindR_Some)
                case (fault e)
                then show ?thesis by simp
              next
                case (ok s2)
                have s2: "s2 = s" using Suc.IH[OF Suc.prems(1) ok(1)] .
                from ok(2) show ?thesis unfolding s2
                proof (cases rule: deref_Some)
                  case null
                  then show ?thesis by simp
                next
                  case (ok rc)
                  then show ?thesis using Suc.IH[OF Suc.prems(1) ok(2)] by simp
                qed
              qed
            qed
          qed
        qed
      qed
    qed
  qed
qed

lemma sint_double:
  fixes w :: "32 word"
  assumes "0 \<le> sint w" and "sint w < 2 ^ 30"
  shows "sint (push_bit 1 w) = 2 * sint w" and "sint (push_bit 1 w + 1) = 2 * sint w + 1"
proof -
  have p: "push_bit 1 w = w + w" by (simp add: push_bit_eq_mult)
  have a: "sint (w + w) = signed_take_bit 31 (sint w + sint w)"
    using sint_word_ariths(1)[of w w] by simp
  have "signed_take_bit 31 (sint w + sint w) = sint w + sint w"
    using assms by (intro signed_take_bit_int_eq_self) simp_all
  then show d: "sint (push_bit 1 w) = 2 * sint w" using a p by (simp add: mult.commute)
  have b: "sint (w + w + 1) = signed_take_bit 31 (sint (w + w) + sint (1 :: 32 word))"
    using sint_word_ariths(1)[of "w + w" 1] by simp
  have "signed_take_bit 31 (2 * sint w + 1) = 2 * sint w + 1"
    using assms by (intro signed_take_bit_int_eq_self) simp_all
  then show "sint (push_bit 1 w + 1) = 2 * sint w + 1"
    using b d p by (simp add: mult.commute)
qed

lemma node_level:
  assumes "0 < sint (node :: 32 word)" "sint node < 2 ^ d" "d \<le> 30"
  shows "0 < sint (push_bit 1 node)" "sint (push_bit 1 node) < 2 ^ Suc d"
    "0 < sint (push_bit 1 node + 1)" "sint (push_bit 1 node + 1) < 2 ^ Suc d"
    "0 \<le> sint node"
proof -
  have "(2::int) ^ d \<le> 2 ^ 30" using assms(3) by (intro power_increasing) simp_all
  then have small: "sint node < 2 ^ 30" using assms(2) by simp
  show nn: "0 \<le> sint node" using assms(1) by simp
  note dbl = sint_double[OF nn small]
  show "0 < sint (push_bit 1 node)" "sint (push_bit 1 node) < 2 ^ Suc d"
    using dbl(1) assms(1,2) by simp_all
  show "0 < sint (push_bit 1 node + 1)" "sint (push_bit 1 node + 1) < 2 ^ Suc d"
    using dbl(2) assms(1,2) by simp_all
qed

lemma tables_ok_ctor: "tables_ok VD (Patch_ctor VD p verts)"
  by (simp add: tables_ok_def Patch_ctor_def)

lemma tables_ok_frame: "frame s s' \<Longrightarrow> tables_ok VD s \<Longrightarrow> tables_ok VD s'"
  by (simp add: frame_def tables_ok_def)

lemma tables_ok_post: "RCV_post s v s' \<Longrightarrow> tables_ok VD s \<Longrightarrow> tables_ok VD s'"
  by (simp add: RCV_post_def tables_ok_def)

lemma readVariance_in_range:
  assumes "tables_ok VD s" "0 \<le> sint node" "sint node < 2 ^ VD"
  shows "readVariance s node \<noteq> Inl OutOfRange"
proof -
  have "nat (sint node) < 2 ^ VD"
    using assms(2,3) by (simp add: nat_less_iff)
  then show ?thesis using assms(1,2)
    by (cases "currentVariance s"; cases "the (currentVariance s)")
       (simp_all add: readVariance_def tables_ok_def varTable_def)
qed

lemma writeVariance_in_range:
  assumes "tables_ok VD s" "0 \<le> sint node" "sint node < 2 ^ VD"
  shows "writeVariance s node v \<noteq> Inl OutOfRange"
proof -
  have "nat (sint node) < 2 ^ VD"
    using assms(2,3) by (simp add: nat_less_iff)
  then show ?thesis using assms(1,2)
    by (cases "currentVariance s"; cases "the (currentVariance s)")
       (simp_all add: writeVariance_def tables_ok_def varTable_def)
qed

lemma storeVariance_in_range:
  assumes "tables_ok VD s" "0 \<le> sint node"
  shows "storeVariance VD s node x \<noteq> Some (Inl OutOfRange)"
proof (cases "sint node < 2 ^ VD")
  case True
  then show ?thesis
    using writeVariance_in_range[OF assms True, of "max 0.001 x"]
    by (cases "writeVariance s node (max 0.001 x)") (simp_all add: storeVariance_def Let_def)
next
  case False
  then show ?thesis by (simp add: storeVariance_def Let_def)
qed

lemma bindR_fault:
  assumes "bindR m f = Some (Inl e)"
  obtains "m = Some (Inl e)" | x where "m = Some (Inr x)" "f x = Some (Inl e)"
  using assms by (auto simp: bindR_def split: option.splits sum.splits)

lemma RecursComputeVariance_in_range:
  "tables_ok VD s \<Longrightarrow> footRank r left rght apex \<Longrightarrow> 0 < sint node \<Longrightarrow> sint node < 2 ^ d \<Longrightarrow>
     d + r \<le> 31 \<Longrightarrow>
     RecursComputeVariance PS VD n s left rght apex hgts node \<noteq> Some (Inl OutOfRange)"
proof (induction n arbitrary: s left rght apex hgts node d r)
  case 0
  then show ?case by simp
next
  case (Suc n)
  obtain hl hr ha where h: "hgts = (hl, hr, ha)" by (cases hgts)
  have nn: "0 \<le> sint node" using Suc.prems(3) by simp
  show ?case
  proof
    assume bad: "RecursComputeVariance PS VD (Suc n) s left rght apex hgts node = Some (Inl OutOfRange)"
    show False
    proof (cases "\<bar>fst left - fst rght\<bar> \<ge> 4 \<or> \<bar>snd left - snd rght\<bar> \<ge> 4")
      case False
      then show False
        using bad storeVariance_in_range[OF Suc.prems(1) nn] unfolding RCV_Suc_stop[OF False] by simp
    next
      case True
      have "r \<noteq> 0"
      proof
        assume "r = 0"
        then have "footRank 0 left rght apex" using Suc.prems(2) by simp
        from footRank_0_small[OF this] True show False by simp
      qed
      then obtain r' where r': "r = Suc r'" by (cases r) auto
      have d30: "d \<le> 30" using Suc.prems(5) r' by simp
      note lv = node_level[OF Suc.prems(3,4) d30]
      note ch = footRank_children[OF Suc.prems(2)[unfolded r']]
      have fuel: "Suc d + r' \<le> 31" using Suc.prems(5) r' by simp
      from bad[unfolded h RCV_Suc_rec[OF True]] show False
      proof (cases rule: bindR_fault)
        case 1
        then show False using Suc.IH[OF Suc.prems(1) ch(1) lv(1,2) fuel] by simp
      next
        case (2 x)
        obtain v1 s1 where x: "x = (v1, s1)" by (cases x)
        have t1: "tables_ok VD s1"
          using RecursComputeVariance_post[OF 2(1)[unfolded x]] tables_ok_post Suc.prems(1) by blast
        from 2(2)[unfolded x] have "bindR (RecursComputeVariance PS VD n s1 rght apex (midpoint left rght)
              (hr, ha, GetHeight PS s (midpoint left rght)) (push_bit 1 node + 1))
            (\<lambda>(c2, s2). storeVariance VD s2 node
               (max (max (ownVariance (hl, hr, ha) (GetHeight PS s (midpoint left rght))) v1) c2))
           = Some (Inl OutOfRange)" by simp
        then show False
        proof (cases rule: bindR_fault)
          case 1
          then show False using Suc.IH[OF t1 ch(2) lv(3,4) fuel] by simp
        next
          case (2 y)
          obtain v2 s2 where y: "y = (v2, s2)" by (cases y)
          have t2: "tables_ok VD s2"
            using RecursComputeVariance_post[OF 2(1)[unfolded y]] tables_ok_post t1 by blast
          show False using 2(2)[unfolded y] storeVariance_in_range[OF t2 nn] by simp
        qed
      qed
    qed
  qed
qed

lemma triVariance_in_range:
  assumes "tables_ok VD s" "0 \<le> sint node"
  shows "triVariance PS VD s left right node \<noteq> Inl OutOfRange"
proof (cases "sint node < 2 ^ VD")
  case True
  then show ?thesis
    using readVariance_in_range[OF assms True]
    by (cases "readVariance s node") (simp_all add: triVariance_def Let_def)
next
  case False
  then show ?thesis by (simp add: triVariance_def)
qed

lemma RecursTessellate_cases:
  assumes run: "RecursTessellate PS VD (Suc n) s tri left right apex node = Some r"
  obtains (small) "\<bar>fst left - fst right\<bar> \<le> 1 \<and> \<bar>snd left - snd right\<bar> \<le> 1" "r = Inr s"
  | (fault) f where "triVariance PS VD s left right node = Inl f" "r = Inl f"
  | (flat) tv where "triVariance PS VD s left right node = Inr tv" "tv \<le> 1" "r = Inr s"
  | (splitfault) e where "Split n tri s = Some (Inl e)" "r = Inl e"
  | (leaf) ok s1 where "Split n tri s = Some (Inr (ok, s1))" "\<not> IsBranch (nd s1 tri)" "r = Inr s1"
  | (null1) ok s1 where "Split n tri s = Some (Inr (ok, s1))" "IsBranch (nd s1 tri)"
      "LeftChild (nd s1 tri) = None" "r = Inl NullPointer"
  | (fault1) ok s1 lc e where "Split n tri s = Some (Inr (ok, s1))" "IsBranch (nd s1 tri)"
      "LeftChild (nd s1 tri) = Some lc"
      "RecursTessellate PS VD n s1 lc apex left (midpoint left right) (push_bit 1 node) = Some (Inl e)"
      "r = Inl e"
  | (null2) ok s1 lc s2 where "Split n tri s = Some (Inr (ok, s1))" "IsBranch (nd s1 tri)"
      "LeftChild (nd s1 tri) = Some lc"
      "RecursTessellate PS VD n s1 lc apex left (midpoint left right) (push_bit 1 node) = Some (Inr s2)"
      "RightChild (nd s2 tri) = None" "r = Inl NullPointer"
  | (both) ok s1 lc s2 rc where "Split n tri s = Some (Inr (ok, s1))" "IsBranch (nd s1 tri)"
      "LeftChild (nd s1 tri) = Some lc"
      "RecursTessellate PS VD n s1 lc apex left (midpoint left right) (push_bit 1 node) = Some (Inr s2)"
      "RightChild (nd s2 tri) = Some rc"
      "RecursTessellate PS VD n s2 rc right apex (midpoint left right) (push_bit 1 node + 1) = Some r"
proof (cases "\<bar>fst left - fst right\<bar> \<le> 1 \<and> \<bar>snd left - snd right\<bar> \<le> 1")
  case True
  then show ?thesis using run small unfolding RecursTessellate_Suc by simp
next
  case False
  show ?thesis
  proof (cases "triVariance PS VD s left right node")
    case (Inl f)
    then show ?thesis using run False fault unfolding RecursTessellate_Suc by simp
  next
    case (Inr tv)
    show ?thesis
    proof (cases "tv \<le> 1")
      case True
      then show ?thesis using run False Inr flat unfolding RecursTessellate_Suc by simp
    next
      case big: False
      have r0: "bindR (Split n tri s) (\<lambda>(ok, s1).
                if IsBranch (nd s1 tri)
                then deref (LeftChild (nd s1 tri)) (\<lambda>lc.
                     bindR (RecursTessellate PS VD n s1 lc apex left (midpoint left right)
                              (push_bit 1 node))
                       (\<lambda>s2.
                     deref (RightChild (nd s2 tri)) (\<lambda>rc.
                       RecursTessellate PS VD n s2 rc right apex (midpoint left right)
                         (push_bit 1 node + 1))))
                else Some (Inr s1)) = Some r"
        using run False Inr big unfolding RecursTessellate_Suc by simp
      from r0 show ?thesis
      proof (cases rule: bindR_Some)
        case (fault e)
        then show ?thesis using splitfault by blast
      next
        case (ok x)
        obtain okS s1 where x: "x = (okS, s1)" by (cases x)
        note sp = ok(1)[unfolded x]
        show ?thesis
        proof (cases "IsBranch (nd s1 tri)")
          case False
          then show ?thesis using ok(2) x sp leaf by simp
        next
          case True
          then have d: "deref (LeftChild (nd s1 tri)) (\<lambda>lc.
                     bindR (RecursTessellate PS VD n s1 lc apex left (midpoint left right)
                              (push_bit 1 node))
                       (\<lambda>s2.
                     deref (RightChild (nd s2 tri)) (\<lambda>rc.
                       RecursTessellate PS VD n s2 rc right apex (midpoint left right)
                         (push_bit 1 node + 1)))) = Some r"
            using ok(2) x by simp
          from d show ?thesis
          proof (cases rule: deref_Some)
            case null
            then show ?thesis using null1[OF sp True] by blast
          next
            case (ok lc)
            note lc = ok(1)
            from ok(2) show ?thesis
            proof (cases rule: bindR_Some)
              case (fault e)
              then show ?thesis using fault1[OF sp True lc] by blast
            next
              case (ok s2)
              note r1 = ok(1)
              from ok(2) show ?thesis
              proof (cases rule: deref_Some)
                case null
                then show ?thesis using null2[OF sp True lc r1] by blast
              next
                case (ok rc)
                then show ?thesis using both[OF sp True lc r1] by blast
              qed
            qed
          qed
        qed
      qed
    qed
  qed
qed

lemma Split_frame: "Split n tri s = Some (Inr (ok, s')) \<Longrightarrow> frame s s'"
  using Split_frame_fault[of n tri s "Inr (ok, s')"] by simp

lemma Split_not_OutOfRange: "Split n tri s \<noteq> Some (Inl OutOfRange)"
  using Split_frame_fault[of n tri s "Inl OutOfRange"] by auto

lemma RecursTessellate_frame:
  "RecursTessellate PS VD n s tri left right apex node = Some (Inr s') \<Longrightarrow> frame s s'"
proof (induction n arbitrary: s tri left right apex node s')
  case 0
  then show ?case by simp
next
  case (Suc n)
  from Suc.prems show ?case
  proof (cases rule: RecursTessellate_cases)
    case (leaf ok s1)
    then show ?thesis using Split_frame by blast
  next
    case (both ok s1 lc s2 rc)
    have "frame s s1" using both(1) by (rule Split_frame)
    moreover have "frame s1 s2" using both(4) by (rule Suc.IH)
    moreover have "frame s2 s'" using both(6) by (rule Suc.IH)
    ultimately show ?thesis by (blast intro: frame_trans)
  qed (simp_all add: frame_refl)
qed

lemma RecursTessellate_in_range:
  "tables_ok VD s \<Longrightarrow> footRank r left right apex \<Longrightarrow> 0 < sint node \<Longrightarrow> sint node < 2 ^ d \<Longrightarrow>
     d + r \<le> 31 \<Longrightarrow>
     RecursTessellate PS VD n s tri left right apex node \<noteq> Some (Inl OutOfRange)"
proof (induction n arbitrary: s tri left right apex node d r)
  case 0
  then show ?case by simp
next
  case (Suc n)
  have nn: "0 \<le> sint node" using Suc.prems(3) by simp
  show ?case
  proof (cases "\<bar>fst left - fst right\<bar> \<le> 1 \<and> \<bar>snd left - snd right\<bar> \<le> 1")
    case True
    then show ?thesis unfolding RecursTessellate_Suc by simp
  next
    case False
    have "r \<noteq> 0"
    proof
      assume "r = 0"
      then have "footRank 0 left right apex" using Suc.prems(2) by simp
      from footRank_0_small[OF this] False show False by simp
    qed
    then obtain r' where r': "r = Suc r'" by (cases r) auto
    have d30: "d \<le> 30" using Suc.prems(5) r' by simp
    note lv = node_level[OF Suc.prems(3,4) d30]
    note ch = footRank_children[OF Suc.prems(2)[unfolded r']]
    have fuel: "Suc d + r' \<le> 31" using Suc.prems(5) r' by simp
    show ?thesis
    proof
      assume bad: "RecursTessellate PS VD (Suc n) s tri left right apex node = Some (Inl OutOfRange)"
      from bad show False
      proof (cases rule: RecursTessellate_cases)
        case (fault f)
        then show ?thesis using triVariance_in_range[OF Suc.prems(1) nn] by simp
      next
        case (splitfault e)
        then show ?thesis using Split_not_OutOfRange by simp
      next
        case (fault1 ok s1 lc e)
        have "tables_ok VD s1" using Split_frame[OF fault1(1)] Suc.prems(1) tables_ok_frame by blast
        then show ?thesis using Suc.IH[OF _ ch(1) lv(1,2) fuel] fault1(4,5) by simp
      next
        case (both ok s1 lc s2 rc)
        have "tables_ok VD s1" using Split_frame[OF both(1)] Suc.prems(1) tables_ok_frame by blast
        then have "tables_ok VD s2" using RecursTessellate_frame[OF both(4)] tables_ok_frame by blast
        then show ?thesis using Suc.IH[OF _ ch(2) lv(3,4) fuel] both(6) by simp
      qed simp_all
    qed
  qed
qed


lemma Tessellate_flag:
  assumes "Tessellate PS VD n s camDist viewRadius p = Some (Inr (ok, s'))"
  shows "ok = (\<not> OutOfNodes (currentPool s'))"
proof -
  from assms[unfolded Tessellate_def Let_def] show ?thesis
  proof (cases rule: bindR_E)
    case (1 s5)
    from 1(2) show ?thesis
    proof (cases rule: bindR_E)
      case (1 s7)
      then show ?thesis by auto
    qed
  qed
qed

text \<open>
  C2. Once an allocation fails (the pool is out of nodes), nothing is split any more:
  every later \<open>Split\<close> and every later \<open>RecursTessellate\<close> that returns leaves the
  patch exactly as it was (nodes and pool), the failing \<open>Allocate\<close> itself changes
  nothing on a leaf, and a \<open>Tessellate\<close> that ends in such a state reports \<open>false\<close>.
\<close>

theorem exhausted_pool_stops_splitting:
  assumes "\<not> fst (Allocate (currentPool s))"
  shows "(\<forall>r. Split n tri s = Some r \<longrightarrow> (\<exists>ok. r = Inr (ok, s)))
       \<and> (\<forall>s'. RecursTessellate PATCH_SIZE VARIANCE_DEPTH n s tri left right apex node = Some (Inr s')
              \<longrightarrow> s' = s)
       \<and> (IsLeaf (nd s tri) \<longrightarrow> allocChildren s tri = (False, s))
       \<and> (\<forall>s0 camDist viewRadius p ok.
             Tessellate PATCH_SIZE VARIANCE_DEPTH n s0 camDist viewRadius p = Some (Inr (ok, s))
              \<longrightarrow> \<not> ok)"
proof -
  have ex: "OutOfNodes (currentPool s)" using assms by (simp add: Allocate_fails_iff)
  show ?thesis
  proof (intro conjI allI impI)
    fix r assume "Split n tri s = Some r"
    then show "\<exists>ok. r = Inr (ok, s)" by (rule Split_exhausted[OF ex])
  next
    fix s' assume "RecursTessellate PATCH_SIZE VARIANCE_DEPTH n s tri left right apex node = Some (Inr s')"
    then show "s' = s" by (rule RecursTessellate_exhausted[OF ex])
  next
    assume "IsLeaf (nd s tri)"
    then show "allocChildren s tri = (False, s)" by (rule allocChildren_exhausted[OF ex])
  next
    fix s0 camDist viewRadius p ok
    assume "Tessellate PATCH_SIZE VARIANCE_DEPTH n s0 camDist viewRadius p = Some (Inr (ok, s))"
    from Tessellate_flag[OF this] ex show "\<not> ok" by simp
  qed
qed

lemma tables_ok_fields:
  "tables_ok VD (s\<lparr>currentVariance := cv\<rparr>) = tables_ok VD s"
  "tables_ok VD (s\<lparr>currentPool := p\<rparr>) = tables_ok VD s"
  "tables_ok VD (s\<lparr>camDistLODFactor := f\<rparr>) = tables_ok VD s"
  "tables_ok VD (s\<lparr>varianceMaxLimit := l\<rparr>) = tables_ok VD s"
  "tables_ok VD (s\<lparr>isDirty := b\<rparr>) = tables_ok VD s"
  by (simp_all add: tables_ok_def)

lemma storeVariance_returns:
  assumes t: "tables_ok VD s" and c: "currentVariance s \<noteq> None" and nn: "0 \<le> sint node"
  shows "\<exists>v s'. storeVariance VD s node x = Some (Inr (v, s'))"
proof (cases "sint node < 2 ^ VD")
  case False
  then show ?thesis by (simp add: storeVariance_def Let_def)
next
  case True
  then have "nat (sint node) < 2 ^ VD" using nn by (simp add: nat_less_iff)
  then have "\<exists>s'. writeVariance s node (max 0.001 x) = Inr s'"
    using t c nn
    by (cases "currentVariance s"; cases "the (currentVariance s)")
       (simp_all add: writeVariance_def tables_ok_def varTable_def)
  then show ?thesis using True by (auto simp: storeVariance_def Let_def)
qed

lemma RCV_keeps:
  assumes "RecursComputeVariance PS VD n s left rght apex hgts node = Some (Inr (v, s'))"
    and "tables_ok VD s"
  shows "tables_ok VD s'" "currentVariance s' = currentVariance s"
  using RecursComputeVariance_post[OF assms(1)] tables_ok_post assms(2)
  by (auto simp: RCV_post_def)

lemma RecursComputeVariance_returns:
  "tables_ok VD s \<Longrightarrow> currentVariance s \<noteq> None \<Longrightarrow> footRank r left rght apex \<Longrightarrow>
   0 < sint node \<Longrightarrow> sint node < 2 ^ d \<Longrightarrow> d + r \<le> 31 \<Longrightarrow> r < n \<Longrightarrow>
     \<exists>v s'. RecursComputeVariance PS VD n s left rght apex hgts node = Some (Inr (v, s'))"
proof (induction n arbitrary: s left rght apex hgts node d r)
  case 0
  then show ?case by simp
next
  case (Suc n)
  obtain hl hr ha where h: "hgts = (hl, hr, ha)" by (cases hgts)
  have nn: "0 \<le> sint node" using Suc.prems(4) by simp
  show ?case
  proof (cases "\<bar>fst left - fst rght\<bar> \<ge> 4 \<or> \<bar>snd left - snd rght\<bar> \<ge> 4")
    case False
    show ?thesis unfolding RCV_Suc_stop[OF False]
      using storeVariance_returns[OF Suc.prems(1,2) nn] by simp
  next
    case True
    have "r \<noteq> 0"
    proof
      assume "r = 0"
      then have "footRank 0 left rght apex" using Suc.prems(3) by simp
      from footRank_0_small[OF this] True show False by simp
    qed
    then obtain r' where r': "r = Suc r'" by (cases r) auto
    have d30: "d \<le> 30" using Suc.prems(6) r' by simp
    note lv = node_level[OF Suc.prems(4,5) d30]
    note ch = footRank_children[OF Suc.prems(3)[unfolded r']]
    have fuel: "Suc d + r' \<le> 31" "r' < n" using Suc.prems(6,7) r' by simp_all
    from Suc.IH[OF Suc.prems(1,2) ch(1) lv(1,2) fuel]
    obtain v1 s1 where r1: "RecursComputeVariance PS VD n s apex left (midpoint left rght)
              (ha, hl, GetHeight PS s (midpoint left rght)) (push_bit 1 node) = Some (Inr (v1, s1))"
      by blast
    note k1 = RCV_keeps[OF r1 Suc.prems(1)]
    have c1: "currentVariance s1 \<noteq> None" using k1(2) Suc.prems(2) by simp
    from Suc.IH[OF k1(1) c1 ch(2) lv(3,4) fuel]
    obtain v2 s2 where r2: "RecursComputeVariance PS VD n s1 rght apex (midpoint left rght)
              (hr, ha, GetHeight PS s (midpoint left rght)) (push_bit 1 node + 1) = Some (Inr (v2, s2))"
      by blast
    note k2 = RCV_keeps[OF r2 k1(1)]
    have c2: "currentVariance s2 \<noteq> None" using k2(2) c1 by simp
    have e: "RecursComputeVariance PS VD (Suc n) s left rght apex hgts node =
        storeVariance VD s2 node
          (max (max (ownVariance (hl, hr, ha) (GetHeight PS s (midpoint left rght))) v1) v2)"
      unfolding h RCV_Suc_rec[OF True] r1
      by (simp only: bindR_def option.case sum.case prod.case r2)
    show ?thesis unfolding e using storeVariance_returns[OF k2(1) c2 nn] by simp
  qed
qed

lemma one_level: "0 < sint (1 :: 32 word)" "sint (1 :: 32 word) < 2 ^ 1" by simp_all

lemma ComputeVariance_in_range:
  assumes t: "tables_ok VD s" and k: "k \<le> 15"
  shows "ComputeVariance (2 ^ k) VD n s \<noteq> Some (Inl OutOfRange)"
proof
  assume bad: "ComputeVariance (2 ^ k) VD n s = Some (Inl OutOfRange)"
  have dr: "1 + 2 * k \<le> 31" using k by simp
  note f = footRank_roots[of k 0 0, simplified]
  have t1: "tables_ok VD (s\<lparr>currentVariance := Some VarLeft\<rparr>)"
    using t by (simp add: tables_ok_fields)
  from bad[unfolded ComputeVariance_def Let_def] show False
  proof (cases rule: bindR_fault)
    case 1
    then show False using RecursComputeVariance_in_range[OF t1 f(1) one_level dr] by simp
  next
    case (2 x)
    obtain v s2 where x: "x = (v, s2)" by (cases x)
    have "tables_ok VD s2"
      using RecursComputeVariance_post[OF 2(1)[unfolded x]] tables_ok_post t1 by blast
    then have t3: "tables_ok VD (s2\<lparr>currentVariance := Some VarRight\<rparr>)"
      by (simp add: tables_ok_fields)
    from 2(2)[unfolded x] have "bindR (RecursComputeVariance (2 ^ k) VD n (s2\<lparr>currentVariance := Some VarRight\<rparr>)
         (2 ^ k, 0) (0, 2 ^ k) (2 ^ k, 2 ^ k)
         (GetHeight (2 ^ k) (s2\<lparr>currentVariance := Some VarRight\<rparr>) (2 ^ k, 0),
          GetHeight (2 ^ k) (s2\<lparr>currentVariance := Some VarRight\<rparr>) (0, 2 ^ k),
          GetHeight (2 ^ k) (s2\<lparr>currentVariance := Some VarRight\<rparr>) (2 ^ k, 2 ^ k)) 1)
        (\<lambda>(v, s4). Some (Inr (s4\<lparr>isDirty := False\<rparr>))) = Some (Inl OutOfRange)"
      by simp
    then show False
    proof (cases rule: bindR_fault)
      case 1
      then show False using RecursComputeVariance_in_range[OF t3 f(2) one_level dr] by simp
    next
      case (2 y)
      then show False by (cases y) simp
    qed
  qed
qed

lemma ComputeVariance_returns:
  assumes t: "tables_ok VD s" and k: "k \<le> 15" and n: "2 * k < n"
  shows "\<exists>s'. ComputeVariance (2 ^ k) VD n s = Some (Inr s')"
proof -
  have dr: "1 + 2 * k \<le> 31" using k by simp
  note f = footRank_roots[of k 0 0, simplified]
  have t1: "tables_ok VD (s\<lparr>currentVariance := Some VarLeft\<rparr>)"
    using t by (simp add: tables_ok_fields)
  have c1: "currentVariance (s\<lparr>currentVariance := Some VarLeft\<rparr>) \<noteq> None" by simp
  from RecursComputeVariance_returns[OF t1 c1 f(1) one_level dr n]
  obtain v s2 where r1: "RecursComputeVariance (2 ^ k) VD n (s\<lparr>currentVariance := Some VarLeft\<rparr>)
       (0, 2 ^ k) (2 ^ k, 0) (0, 0)
       (GetHeight (2 ^ k) (s\<lparr>currentVariance := Some VarLeft\<rparr>) (0, 2 ^ k),
        GetHeight (2 ^ k) (s\<lparr>currentVariance := Some VarLeft\<rparr>) (2 ^ k, 0),
        GetHeight (2 ^ k) (s\<lparr>currentVariance := Some VarLeft\<rparr>) (0, 0)) 1 = Some (Inr (v, s2))"
    by blast
  have "tables_ok VD s2" using RCV_keeps(1)[OF r1 t1] .
  then have t3: "tables_ok VD (s2\<lparr>currentVariance := Some VarRight\<rparr>)"
    by (simp add: tables_ok_fields)
  have c3: "currentVariance (s2\<lparr>currentVariance := Some VarRight\<rparr>) \<noteq> None" by simp
  from RecursComputeVariance_returns[OF t3 c3 f(2) one_level dr n]
  obtain v4 s4 where r2: "RecursComputeVariance (2 ^ k) VD n (s2\<lparr>currentVariance := Some VarRight\<rparr>)
         (2 ^ k, 0) (0, 2 ^ k) (2 ^ k, 2 ^ k)
         (GetHeight (2 ^ k) (s2\<lparr>currentVariance := Some VarRight\<rparr>) (2 ^ k, 0),
          GetHeight (2 ^ k) (s2\<lparr>currentVariance := Some VarRight\<rparr>) (0, 2 ^ k),
          GetHeight (2 ^ k) (s2\<lparr>currentVariance := Some VarRight\<rparr>) (2 ^ k, 2 ^ k)) 1 = Some (Inr (v4, s4))"
    by blast
  show ?thesis unfolding ComputeVariance_def Let_def r1
    by (simp only: bindR_def option.case sum.case prod.case r2) simp
qed

lemma Tessellate_in_range:
  assumes t: "tables_ok VD s" and k: "k \<le> 15"
  shows "Tessellate (2 ^ k) VD n s camDist viewRadius p \<noteq> Some (Inl OutOfRange)"
proof
  assume bad: "Tessellate (2 ^ k) VD n s camDist viewRadius p = Some (Inl OutOfRange)"
  have dr: "1 + 2 * k \<le> 31" using k by simp
  define s4 where "s4 = s\<lparr>currentPool := p,
      camDistLODFactor := 1 / max 1 (camDist * (300 / real_of_int viewRadius)),
      varianceMaxLimit := real_of_int viewRadius * 0.35, currentVariance := Some VarLeft\<rparr>"
  have co: "coors s4 = coors s" by (simp add: s4_def)
  note f = footRank_roots[of k "fst (coors s)" "snd (coors s)"]
  have t4: "tables_ok VD s4" using t by (simp add: s4_def tables_ok_def)
  from bad[unfolded Tessellate_def Let_def, folded s4_def] show False
  proof (cases rule: bindR_fault)
    case 1
    then show False using RecursTessellate_in_range[OF t4 f(1) one_level dr] by (simp add: s4_def)
  next
    case (2 s5)
    have "tables_ok VD s5"
      using RecursTessellate_frame[OF 2(1)[unfolded s4_def[symmetric]]] tables_ok_frame t4
      by (simp add: s4_def) 
    then have t6: "tables_ok VD (s5\<lparr>currentVariance := Some VarRight\<rparr>)"
      by (simp add: tables_ok_fields)
    from 2(2) show False
    proof (cases rule: bindR_fault)
      case 1
      then show False using RecursTessellate_in_range[OF t6 f(2) one_level dr] by (simp add: s4_def)
    next
      case (2 y)
      then show False by simp
    qed
  qed
qed

lemma ComputeVariance_tables:
  assumes run: "ComputeVariance PS VD n s = Some (Inr s')" and t: "tables_ok VD s"
  shows "tables_ok VD s'"
proof -
  have t1: "tables_ok VD (s\<lparr>currentVariance := Some VarLeft\<rparr>)"
    using t by (simp add: tables_ok_fields)
  from run[unfolded ComputeVariance_def Let_def] show ?thesis
  proof (cases rule: bindR_E)
    case (1 x)
    obtain v s2 where x: "x = (v, s2)" by (cases x)
    have "tables_ok VD s2"
      using RecursComputeVariance_post[OF 1(1)[unfolded x]] tables_ok_post t1 by blast
    then have t3: "tables_ok VD (s2\<lparr>currentVariance := Some VarRight\<rparr>)"
      by (simp add: tables_ok_fields)
    from 1(2)[unfolded x] have "bindR (RecursComputeVariance PS VD n (s2\<lparr>currentVariance := Some VarRight\<rparr>)
         (PS, 0) (0, PS) (PS, PS)
         (GetHeight PS (s2\<lparr>currentVariance := Some VarRight\<rparr>) (PS, 0),
          GetHeight PS (s2\<lparr>currentVariance := Some VarRight\<rparr>) (0, PS),
          GetHeight PS (s2\<lparr>currentVariance := Some VarRight\<rparr>) (PS, PS)) 1)
        (\<lambda>(v, s4). Some (Inr (s4\<lparr>isDirty := False\<rparr>))) = Some (Inr s')"
      by simp
    then show ?thesis
    proof (cases rule: bindR_E)
      case (1 y)
      obtain v4 s4 where y: "y = (v4, s4)" by (cases y)
      have "tables_ok VD s4"
        using RecursComputeVariance_post[OF 1(1)[unfolded y]] tables_ok_post t3 by blast
      then show ?thesis using 1(2) y by (auto simp: tables_ok_fields)
    qed
  qed
qed

lemma Tessellate_tables:
  assumes run: "Tessellate PS VD n s camDist viewRadius p = Some (Inr (ok, s'))" and t: "tables_ok VD s"
  shows "tables_ok VD s'"
proof -
  define s4 where "s4 = s\<lparr>currentPool := p,
      camDistLODFactor := 1 / max 1 (camDist * (300 / real_of_int viewRadius)),
      varianceMaxLimit := real_of_int viewRadius * 0.35, currentVariance := Some VarLeft\<rparr>"
  have t4: "tables_ok VD s4" using t by (simp add: s4_def tables_ok_def)
  from run[unfolded Tessellate_def Let_def, folded s4_def] show ?thesis
  proof (cases rule: bindR_E)
    case (1 s5)
    have "tables_ok VD s5"
      using RecursTessellate_frame[OF 1(1)[unfolded s4_def[symmetric]]] tables_ok_frame t4
      by (simp add: s4_def)
    then have t6: "tables_ok VD (s5\<lparr>currentVariance := Some VarRight\<rparr>)"
      by (simp add: tables_ok_fields)
    from 1(2) show ?thesis
    proof (cases rule: bindR_E)
      case (1 s7)
      have "tables_ok VD s7" using RecursTessellate_frame[OF 1(1)] tables_ok_frame t6 by blast
      then show ?thesis using 1(2) by auto
    qed
  qed
qed

text \<open>
  C10. Both tables are created with \<open>2 ^ VARIANCE_DEPTH\<close> entries and keep that length.
  On a patch of side \<open>PATCH_SIZE = 2 ^ k\<close> with \<open>k \<le> 15\<close> and with such tables, no run of
  \<open>ComputeVariance\<close> or \<open>Tessellate\<close>, whatever its length, indexes a table out of range:
  the walk from \<open>node = 1\<close> over the two root footprints ends \<open>2 * k\<close> levels down at the
  latest (the size tests), so the 32-bit \<open>node\<close> stays positive and below
  \<open>2 ^ 31\<close>, and the guard \<open>node < 2 ^ VARIANCE_DEPTH\<close> keeps every index inside the
  table. \<open>ComputeVariance\<close> returns, without any fault, once it is given more than
  \<open>2 * k\<close> levels.
\<close>

theorem variance_table_in_bounds:
  assumes "tables_ok VARIANCE_DEPTH s" and "PATCH_SIZE = 2 ^ k" and "k \<le> 15"
  shows "ComputeVariance PATCH_SIZE VARIANCE_DEPTH n s \<noteq> Some (Inl OutOfRange)
       \<and> Tessellate PATCH_SIZE VARIANCE_DEPTH n s camDist viewRadius p \<noteq> Some (Inl OutOfRange)
       \<and> (2 * k < n \<longrightarrow> (\<exists>s'. ComputeVariance PATCH_SIZE VARIANCE_DEPTH n s = Some (Inr s')))
       \<and> (\<forall>s'. ComputeVariance PATCH_SIZE VARIANCE_DEPTH n s = Some (Inr s')
             \<longrightarrow> tables_ok VARIANCE_DEPTH s')
       \<and> (\<forall>ok s'. Tessellate PATCH_SIZE VARIANCE_DEPTH n s camDist viewRadius p = Some (Inr (ok, s'))
             \<longrightarrow> tables_ok VARIANCE_DEPTH s')
       \<and> tables_ok VARIANCE_DEPTH (Patch_ctor VARIANCE_DEPTH p verts)"
proof (intro conjI allI impI)
  show "ComputeVariance PATCH_SIZE VARIANCE_DEPTH n s \<noteq> Some (Inl OutOfRange)"
    unfolding assms(2) by (rule ComputeVariance_in_range[OF assms(1,3)])
  show "Tessellate PATCH_SIZE VARIANCE_DEPTH n s camDist viewRadius p \<noteq> Some (Inl OutOfRange)"
    unfolding assms(2) by (rule Tessellate_in_range[OF assms(1,3)])
  show "tables_ok VARIANCE_DEPTH (Patch_ctor VARIANCE_DEPTH p verts)"
    by (rule tables_ok_ctor)
next
  assume "2 * k < n"
  then show "\<exists>s'. ComputeVariance PATCH_SIZE VARIANCE_DEPTH n s = Some (Inr s')"
    unfolding assms(2) by (rule ComputeVariance_returns[OF assms(1,3)])
next
  fix s' assume "ComputeVariance PATCH_SIZE VARIANCE_DEPTH n s = Some (Inr s')"
  then show "tables_ok VARIANCE_DEPTH s'" using assms(1) by (rule ComputeVariance_tables)
next
  fix ok s'
  assume "Tessellate PATCH_SIZE VARIANCE_DEPTH n s camDist viewRadius p = Some (Inr (ok, s'))"
  then show "tables_ok VARIANCE_DEPTH s'" using assms(1) by (rule Tessellate_tables)
qed

subsection \<open>Border extraction\<close>

lemma rightTri_children:
  assumes rt: "rightTri left rght apex" and sp: "splittable (left, rght, apex)"
  shows "rightTri apex left (midpoint left rght)" "rightTri rght apex (midpoint left rght)"
    "2 * fst (midpoint left rght) = fst left + fst rght"
    "2 * snd (midpoint left rght) = snd left + snd rght"
proof -
  from rt obtain j where j: "axisTri (2 ^ j) left rght apex \<or> diagTri (2 ^ j) left rght apex"
    unfolding rightTri_def by blast
  have all: "rightTri apex left (midpoint left rght) \<and> rightTri rght apex (midpoint left rght)
     \<and> 2 * fst (midpoint left rght) = fst left + fst rght
     \<and> 2 * snd (midpoint left rght) = snd left + snd rght"
  proof (cases "axisTri (2 ^ j) left rght apex")
    case True
    have "j \<noteq> 0"
    proof
      assume "j = 0"
      then have "axisTri 1 left rght apex" using True by simp
      then have "\<bar>fst left - fst rght\<bar> \<le> 1 \<and> \<bar>snd left - snd rght\<bar> \<le> 1"
        by (auto simp: axisTri_def quarterTurn_def abs_if split: if_splits)
      then show False using sp by (simp add: splittable_def)
    qed
    then obtain i where i: "j = Suc i" by (cases j) auto
    then have "axisTri (2 * 2 ^ i) left rght apex" using True by simp
    from axis_children[OF this] show ?thesis unfolding rightTri_def by blast
  next
    case False
    then have "diagTri (2 ^ j) left rght apex" using j by blast
    from diag_children[OF this] show ?thesis unfolding rightTri_def by blast
  qed
  then show "rightTri apex left (midpoint left rght)" "rightTri rght apex (midpoint left rght)"
    "2 * fst (midpoint left rght) = fst left + fst rght"
    "2 * snd (midpoint left rght) = snd left + snd rght" by blast+
qed

lemma inBox_midpoint: "inBox PS p \<Longrightarrow> inBox PS q \<Longrightarrow> inBox PS (midpoint p q)"
  by (auto simp: inBox_def midpoint_def)

lemma edgeDist_nonneg: "inBox PS p \<Longrightarrow> 0 \<le> edgeDist PS e p"
  by (cases e) (simp_all add: inBox_def edgeDist_def)

lemma edgeDist_midpoint:
  assumes "2 * fst m = fst p + fst q" "2 * snd m = snd p + snd q"
  shows "2 * edgeDist PS e m = edgeDist PS e p + edgeDist PS e q"
  using assms by (cases e) (simp_all add: edgeDist_def)

lemma onEdge_midpoint:
  assumes "2 * fst m = fst p + fst q" "2 * snd m = snd p + snd q" "inBox PS p" "inBox PS q"
  shows "onEdge PS e m \<longleftrightarrow> onEdge PS e p \<and> onEdge PS e q"
  using edgeDist_midpoint[OF assms(1,2), of PS e] edgeDist_nonneg[OF assms(3), of e]
    edgeDist_nonneg[OF assms(4), of e]
  by (auto simp: onEdge_def)

lemma axisTri_root_left: "0 < PS \<Longrightarrow> axisTri PS (0, PS) (PS, 0) (0, 0)"
  by (simp add: axisTri_def quarterTurn_def)

lemma axisTri_root_right: "0 < PS \<Longrightarrow> axisTri PS (PS, 0) (0, PS) (PS, PS)"
  by (simp add: axisTri_def quarterTurn_def)

lemma leafTris_Suc:
  "leafTris (Suc n) s tri left rght apex =
     (if IsLeaf (nd s tri) then Some (Inr [(left, rght, apex)])
      else deref (LeftChild (nd s tri)) (\<lambda>lc.
           bindR (leafTris n s lc apex left (midpoint left rght)) (\<lambda>ts1.
           deref (RightChild (nd s tri)) (\<lambda>rc.
           bindR (leafTris n s rc rght apex (midpoint left rght)) (\<lambda>ts2.
             Some (Inr (ts1 @ ts2)))))))"
  by simp

lemma leafTris_cases:
  assumes "leafTris (Suc n) s tri left rght apex = Some (Inr ts)"
  obtains (leaf) "IsLeaf (nd s tri)" "ts = [(left, rght, apex)]"
  | (branch) lc rc ts1 ts2 where "\<not> IsLeaf (nd s tri)"
      "LeftChild (nd s tri) = Some lc" "RightChild (nd s tri) = Some rc"
      "leafTris n s lc apex left (midpoint left rght) = Some (Inr ts1)"
      "leafTris n s rc rght apex (midpoint left rght) = Some (Inr ts2)"
      "ts = ts1 @ ts2"
proof (cases "IsLeaf (nd s tri)")
  case True
  then show ?thesis using assms leaf by simp
next
  case False
  then have d: "deref (LeftChild (nd s tri)) (\<lambda>lc.
           bindR (leafTris n s lc apex left (midpoint left rght)) (\<lambda>ts1.
           deref (RightChild (nd s tri)) (\<lambda>rc.
           bindR (leafTris n s rc rght apex (midpoint left rght)) (\<lambda>ts2.
             Some (Inr (ts1 @ ts2)))))) = Some (Inr ts)"
    using assms unfolding leafTris_Suc by simp
  from d show ?thesis
  proof (cases rule: deref_Some)
    case null
    then show ?thesis by simp
  next
    case (ok lc)
    note lc = ok(1)
    from ok(2) show ?thesis
    proof (cases rule: bindR_Some)
      case (fault e)
      then show ?thesis by simp
    next
      case (ok ts1)
      note t1 = ok(1)
      from ok(2) show ?thesis
      proof (cases rule: deref_Some)
        case null
        then show ?thesis by simp
      next
        case (ok rc)
        note rc = ok(1)
        from ok(2) show ?thesis
        proof (cases rule: bindR_Some)
          case (fault e)
          then show ?thesis by simp
        next
          case (ok ts2)
          then show ?thesis using branch[OF False lc rc t1] by simp
        qed
      qed
    qed
  qed
qed

lemma branchTris_branch:
  assumes "\<not> IsLeaf (nd s tri)" "LeftChild (nd s tri) = Some lc" "RightChild (nd s tri) = Some rc"
  shows "branchTris (Suc n) s tri left rght apex =
     (left, rght, apex) # branchTris n s lc apex left (midpoint left rght)
       @ branchTris n s rc rght apex (midpoint left rght)"
  by (simp only: branchTris.simps assms if_False option.case)

lemma leafSkirt_none:
  assumes "atMostOne (onEdge PS e left) (onEdge PS e rght) (onEdge PS e apex)"
  shows "leafSkirt PS s e (left, rght, apex) = []"
proof -
  have "\<not> (onEdge PS e left \<and> onEdge PS e rght)" "\<not> (onEdge PS e apex \<and> onEdge PS e left)"
    "\<not> (onEdge PS e rght \<and> onEdge PS e apex)"
    using assms unfolding atMostOne_def by blast+
  then show ?thesis unfolding leafSkirt_def by (simp only: prod.case if_False)
qed

lemma no_skirt_off_edge:
  "leafTris n s tri left rght apex = Some (Inr ts) \<Longrightarrow>
   \<forall>t \<in> set (branchTris n s tri left rght apex). splittable t \<Longrightarrow>
   rightTri left rght apex \<Longrightarrow> inBox PS left \<Longrightarrow> inBox PS rght \<Longrightarrow> inBox PS apex \<Longrightarrow>
   atMostOne (onEdge PS e left) (onEdge PS e rght) (onEdge PS e apex) \<Longrightarrow>
   concat (map (leafSkirt PS s e) ts) = []"
proof (induction n arbitrary: tri left rght apex ts)
  case 0
  then show ?case by simp
next
  case (Suc n)
  from Suc.prems(1) show ?case
  proof (cases rule: leafTris_cases)
    case leaf
    then show ?thesis using leafSkirt_none[OF Suc.prems(7)] by simp
  next
    case (branch lc rc ts1 ts2)
    let ?m = "midpoint left rght"
    note bt = branchTris_branch[OF branch(1,2,3), of n left rght apex]
    have sp: "splittable (left, rght, apex)" using Suc.prems(2) unfolding bt by simp
    have b1: "\<forall>t \<in> set (branchTris n s lc apex left ?m). splittable t"
      using Suc.prems(2) unfolding bt by simp
    have b2: "\<forall>t \<in> set (branchTris n s rc rght apex ?m). splittable t"
      using Suc.prems(2) unfolding bt by simp
    note ch = rightTri_children[OF Suc.prems(3) sp]
    have bm: "inBox PS ?m" using inBox_midpoint Suc.prems(4,5) by blast
    have om: "onEdge PS e ?m \<longleftrightarrow> onEdge PS e left \<and> onEdge PS e rght"
      using onEdge_midpoint[OF ch(3,4) Suc.prems(4,5)] .
    have a1: "atMostOne (onEdge PS e apex) (onEdge PS e left) (onEdge PS e ?m)"
      using Suc.prems(7) om by (auto simp: atMostOne_def)
    have a2: "atMostOne (onEdge PS e rght) (onEdge PS e apex) (onEdge PS e ?m)"
      using Suc.prems(7) om by (auto simp: atMostOne_def)
    have "concat (map (leafSkirt PS s e) ts1) = []"
      using Suc.IH[OF branch(4) b1 ch(1) Suc.prems(6,4) bm a1] .
    moreover have "concat (map (leafSkirt PS s e) ts2) = []"
      using Suc.IH[OF branch(5) b2 ch(2) Suc.prems(5,6) bm a2] .
    ultimately show ?thesis using branch(6) by simp
  qed
qed

lemma RBR_leaf:
  assumes "IsLeaf (nd s tri)"
  shows "RecursBorderRender PS (Suc n) s va tri left rght apex depth leftChild =
     Some (Inr (va @ (if depth mod 2 = 0
                      then skirtQuad (vertexAt PS s left) (vertexAt PS s rght)
                      else if leftChild then skirtQuad (vertexAt PS s apex) (vertexAt PS s left)
                      else skirtQuad (vertexAt PS s rght) (vertexAt PS s apex))))"
  unfolding RecursBorderRender.simps Let_def using assms by (simp only: if_True split: if_splits) simp

lemma RBR_even:
  assumes "\<not> IsLeaf (nd s tri)" "depth mod 2 = 0"
    "LeftChild (nd s tri) = Some lc" "RightChild (nd s tri) = Some rc"
  shows "RecursBorderRender PS (Suc n) s va tri left rght apex depth leftChild =
     bindR (RecursBorderRender PS n s va lc apex left (midpoint left rght) (depth + 1) (\<not> leftChild))
       (\<lambda>va1. RecursBorderRender PS n s va1 rc rght apex (midpoint left rght) (depth + 1) leftChild)"
  unfolding RecursBorderRender.simps Let_def deref_def
  by (simp only: assms if_False if_True option.case refl simp_thms)

lemma RBR_oddL:
  assumes "\<not> IsLeaf (nd s tri)" "depth mod 2 \<noteq> 0" "LeftChild (nd s tri) = Some lc"
  shows "RecursBorderRender PS (Suc n) s va tri left rght apex depth True =
     RecursBorderRender PS n s va lc apex left (midpoint left rght) (depth + 1) True"
  unfolding RecursBorderRender.simps Let_def deref_def
  by (simp only: assms if_False if_True option.case refl simp_thms)

lemma RBR_oddR:
  assumes "\<not> IsLeaf (nd s tri)" "depth mod 2 \<noteq> 0" "RightChild (nd s tri) = Some rc"
  shows "RecursBorderRender PS (Suc n) s va tri left rght apex depth False =
     RecursBorderRender PS n s va rc rght apex (midpoint left rght) (depth + 1) True"
  unfolding RecursBorderRender.simps Let_def deref_def
  by (simp only: assms if_False if_True option.case refl simp_thms)

lemma skirtQuad_skirt: "skirtQuad (vertexAt PS s p) (vertexAt PS s q) = skirt PS s p q"
  unfolding skirtQuad_def vertexAt_def skirt_def Let_def white_def trans_def
  by (simp only: prod.case mult.commute)

lemma leafSkirt_hyp:
  assumes "onEdge PS e left" "onEdge PS e rght"
  shows "leafSkirt PS s e (left, rght, apex) = skirtQuad (vertexAt PS s left) (vertexAt PS s rght)"
  unfolding leafSkirt_def using assms by (simp only: prod.case simp_thms if_True skirtQuad_skirt)

lemma leafSkirt_leftLeg:
  assumes "onEdge PS e apex" "onEdge PS e left" "\<not> onEdge PS e rght"
  shows "leafSkirt PS s e (left, rght, apex) = skirtQuad (vertexAt PS s apex) (vertexAt PS s left)"
  unfolding leafSkirt_def using assms by (simp only: prod.case simp_thms if_True if_False skirtQuad_skirt)

lemma leafSkirt_rightLeg:
  assumes "onEdge PS e apex" "onEdge PS e rght" "\<not> onEdge PS e left"
  shows "leafSkirt PS s e (left, rght, apex) = skirtQuad (vertexAt PS s rght) (vertexAt PS s apex)"
  unfolding leafSkirt_def using assms by (simp only: prod.case simp_thms if_True if_False skirtQuad_skirt)

lemma border_walk:
  "leafTris n s tri left rght apex = Some (Inr ts) \<Longrightarrow>
   \<forall>t \<in> set (branchTris n s tri left rght apex). splittable t \<Longrightarrow>
   rightTri left rght apex \<Longrightarrow> inBox PS left \<Longrightarrow> inBox PS rght \<Longrightarrow> inBox PS apex \<Longrightarrow>
   (depth mod 2 \<noteq> 0 \<and> onEdge PS e apex \<and> onEdge PS e left \<and> \<not> onEdge PS e rght \<longrightarrow>
      RecursBorderRender PS n s va tri left rght apex depth True
        = Some (Inr (va @ concat (map (leafSkirt PS s e) ts))))
   \<and> (depth mod 2 \<noteq> 0 \<and> onEdge PS e apex \<and> onEdge PS e rght \<and> \<not> onEdge PS e left \<longrightarrow>
      RecursBorderRender PS n s va tri left rght apex depth False
        = Some (Inr (va @ concat (map (leafSkirt PS s e) ts))))
   \<and> (depth mod 2 = 0 \<and> onEdge PS e left \<and> onEdge PS e rght \<and> \<not> onEdge PS e apex \<longrightarrow>
      RecursBorderRender PS n s va tri left rght apex depth True
        = Some (Inr (va @ concat (map (leafSkirt PS s e) ts))))"
proof (induction n arbitrary: tri left rght apex ts depth va)
  case 0
  then show ?case by simp
next
  case (Suc n)
  from Suc.prems(1) show ?case
  proof (cases rule: leafTris_cases)
    case leaf
    have one: "concat (map (leafSkirt PS s e) [(left, rght, apex)]) = leafSkirt PS s e (left, rght, apex)"
      by simp
    show ?thesis
      unfolding RBR_leaf[OF leaf(1)] leaf(2) one
    proof (intro conjI impI)
      assume c: "depth mod 2 \<noteq> 0 \<and> onEdge PS e apex \<and> onEdge PS e left \<and> \<not> onEdge PS e rght"
      then have "leafSkirt PS s e (left, rght, apex) = skirtQuad (vertexAt PS s apex) (vertexAt PS s left)"
        using leafSkirt_leftLeg by blast
      then show "Some (Inr (va @ (if depth mod 2 = 0
                      then skirtQuad (vertexAt PS s left) (vertexAt PS s rght)
                      else if True then skirtQuad (vertexAt PS s apex) (vertexAt PS s left)
                      else skirtQuad (vertexAt PS s rght) (vertexAt PS s apex))))
            = Some (Inr (va @ leafSkirt PS s e (left, rght, apex)))"
        using c by (simp only: if_True if_False)
    next
      assume c: "depth mod 2 \<noteq> 0 \<and> onEdge PS e apex \<and> onEdge PS e rght \<and> \<not> onEdge PS e left"
      then have "leafSkirt PS s e (left, rght, apex) = skirtQuad (vertexAt PS s rght) (vertexAt PS s apex)"
        using leafSkirt_rightLeg by blast
      then show "Some (Inr (va @ (if depth mod 2 = 0
                      then skirtQuad (vertexAt PS s left) (vertexAt PS s rght)
                      else if False then skirtQuad (vertexAt PS s apex) (vertexAt PS s left)
                      else skirtQuad (vertexAt PS s rght) (vertexAt PS s apex))))
            = Some (Inr (va @ leafSkirt PS s e (left, rght, apex)))"
        using c by (simp only: if_True if_False)
    next
      assume c: "depth mod 2 = 0 \<and> onEdge PS e left \<and> onEdge PS e rght \<and> \<not> onEdge PS e apex"
      then have "leafSkirt PS s e (left, rght, apex) = skirtQuad (vertexAt PS s left) (vertexAt PS s rght)"
        using leafSkirt_hyp by blast
      then show "Some (Inr (va @ (if depth mod 2 = 0
                      then skirtQuad (vertexAt PS s left) (vertexAt PS s rght)
                      else if True then skirtQuad (vertexAt PS s apex) (vertexAt PS s left)
                      else skirtQuad (vertexAt PS s rght) (vertexAt PS s apex))))
            = Some (Inr (va @ leafSkirt PS s e (left, rght, apex)))"
        using c by (simp only: if_True if_False simp_thms)
    qed
  next
    case (branch lc rc ts1 ts2)
    let ?m = "midpoint left rght"
    note bt = branchTris_branch[OF branch(1,2,3), of n left rght apex]
    have sp: "splittable (left, rght, apex)" using Suc.prems(2) unfolding bt by simp
    have b1: "\<forall>t \<in> set (branchTris n s lc apex left ?m). splittable t"
      using Suc.prems(2) unfolding bt by simp
    have b2: "\<forall>t \<in> set (branchTris n s rc rght apex ?m). splittable t"
      using Suc.prems(2) unfolding bt by simp
    note ch = rightTri_children[OF Suc.prems(3) sp]
    have bm: "inBox PS ?m" using inBox_midpoint Suc.prems(4,5) by blast
    have om: "onEdge PS e ?m \<longleftrightarrow> onEdge PS e left \<and> onEdge PS e rght"
      using onEdge_midpoint[OF ch(3,4) Suc.prems(4,5)] .
    note IH1 = Suc.IH[OF branch(4) b1 ch(1) Suc.prems(6,4) bm]
    note IH2 = Suc.IH[OF branch(5) b2 ch(2) Suc.prems(5,6) bm]
    have parity: "depth mod 2 \<noteq> 0 \<Longrightarrow> (depth + 1) mod 2 = 0"
      "depth mod 2 = 0 \<Longrightarrow> (depth + 1) mod 2 \<noteq> 0" by presburger+
    show ?thesis
    proof (intro conjI impI)
      assume c: "depth mod 2 \<noteq> 0 \<and> onEdge PS e apex \<and> onEdge PS e left \<and> \<not> onEdge PS e rght"
      then have notm: "\<not> onEdge PS e ?m" using om by simp
      have off: "concat (map (leafSkirt PS s e) ts2) = []"
        using no_skirt_off_edge[OF branch(5) b2 ch(2) Suc.prems(5,6) bm] c notm
        by (simp add: atMostOne_def)
      have "RecursBorderRender PS n s va lc apex left ?m (depth + 1) True
              = Some (Inr (va @ concat (map (leafSkirt PS s e) ts1)))"
        using IH1[of "depth + 1" va] c notm parity(1) by simp
      then show "RecursBorderRender PS (Suc n) s va tri left rght apex depth True
              = Some (Inr (va @ concat (map (leafSkirt PS s e) ts)))"
        using c off unfolding RBR_oddL[OF branch(1) conjunct1[OF c] branch(2)] branch(6) by simp
    next
      assume c: "depth mod 2 \<noteq> 0 \<and> onEdge PS e apex \<and> onEdge PS e rght \<and> \<not> onEdge PS e left"
      then have notm: "\<not> onEdge PS e ?m" using om by simp
      have off: "concat (map (leafSkirt PS s e) ts1) = []"
        using no_skirt_off_edge[OF branch(4) b1 ch(1) Suc.prems(6,4) bm] c notm
        by (simp add: atMostOne_def)
      have "RecursBorderRender PS n s va rc rght apex ?m (depth + 1) True
              = Some (Inr (va @ concat (map (leafSkirt PS s e) ts2)))"
        using IH2[of "depth + 1" va] c notm parity(1) by simp
      then show "RecursBorderRender PS (Suc n) s va tri left rght apex depth False
              = Some (Inr (va @ concat (map (leafSkirt PS s e) ts)))"
        using c off unfolding RBR_oddR[OF branch(1) conjunct1[OF c] branch(3)] branch(6) by simp
    next
      assume c: "depth mod 2 = 0 \<and> onEdge PS e left \<and> onEdge PS e rght \<and> \<not> onEdge PS e apex"
      then have m: "onEdge PS e ?m" using om by simp
      have r1: "RecursBorderRender PS n s va lc apex left ?m (depth + 1) False
              = Some (Inr (va @ concat (map (leafSkirt PS s e) ts1)))"
        using IH1[of "depth + 1" va] c m parity(2) by simp
      have r2: "RecursBorderRender PS n s (va @ concat (map (leafSkirt PS s e) ts1)) rc rght apex ?m (depth + 1) True
              = Some (Inr ((va @ concat (map (leafSkirt PS s e) ts1)) @ concat (map (leafSkirt PS s e) ts2)))"
        using IH2[of "depth + 1" "va @ concat (map (leafSkirt PS s e) ts1)"] c m parity(2) by simp
      show "RecursBorderRender PS (Suc n) s va tri left rght apex depth True
              = Some (Inr (va @ concat (map (leafSkirt PS s e) ts)))"
        unfolding RBR_even[OF branch(1) conjunct1[OF c] branch(2,3)] branch(6)
        using r1 r2 by (simp add: bindR_def)
    qed
  qed
qed

lemma rightTri_roots:
  "rightTri (0, 2 ^ k) (2 ^ k, 0) (0, 0)" "rightTri (2 ^ k, 0) (0, 2 ^ k) (2 ^ k, 2 ^ k)"
  unfolding rightTri_def
  using axisTri_root_left[of "2 ^ k"] axisTri_root_right[of "2 ^ k"] by (auto intro: exI[of _ k])

lemma root_edges:
  assumes "0 < PS"
  shows "onEdge PS XLow (0, 0)" "onEdge PS XLow (0, PS)" "\<not> onEdge PS XLow (PS, 0)"
    "onEdge PS YLow (0, 0)" "onEdge PS YLow (PS, 0)" "\<not> onEdge PS YLow (0, PS)"
    "onEdge PS YHigh (PS, PS)" "onEdge PS YHigh (0, PS)" "\<not> onEdge PS YHigh (PS, 0)"
    "onEdge PS XHigh (PS, PS)" "onEdge PS XHigh (PS, 0)" "\<not> onEdge PS XHigh (0, PS)"
    "inBox PS (0, 0)" "inBox PS (0, PS)" "inBox PS (PS, 0)" "inBox PS (PS, PS)"
  using assms by (simp_all add: onEdge_def edgeDist_def inBox_def)

text \<open>
  C9. If all four neighbour slots of the roots (\<open>baseLeft.LeftNeighbor\<close>,
  \<open>baseLeft.RightNeighbor\<close>, \<open>baseRight.RightNeighbor\<close>, \<open>baseRight.LeftNeighbor\<close>)
  are non-null, \<open>GenerateBorderIndices\<close> returns the empty list. On a patch of side
  \<open>2 ^ k\<close> whose branches all pass the size test of \<open>RecursTessellate\<close>, and with fuel
  enough for the walk of both trees, it returns, for each of the four slots that is null
  and in the order of the code, the skirts of exactly the leaves with a side on the edge
  of that slot (\<open>x = 0\<close>, \<open>y = 0\<close>, \<open>y = PS\<close>, \<open>x = PS\<close>), in the order of the tree walk,
  and nothing for an edge whose slot is non-null. The skirt of a leaf is the six vertices
  of \<open>skirt\<close> over its side on the edge: the two corners in opaque white and the points
  at height \<open>- 400\<close> under them, transparent.
\<close>

theorem border_covers_edge_leaves:
  "(LeftNeighbor (baseLeft s) \<noteq> None \<and> RightNeighbor (baseLeft s) \<noteq> None
      \<and> RightNeighbor (baseRight s) \<noteq> None \<and> LeftNeighbor (baseRight s) \<noteq> None
      \<longrightarrow> GenerateBorderIndices PS n s = Some (Inr []))
   \<and> (PS = 2 ^ k
      \<and> leafTris n s BaseLeft (0, PS) (PS, 0) (0, 0) = Some (Inr tsL)
      \<and> leafTris n s BaseRight (PS, 0) (0, PS) (PS, PS) = Some (Inr tsR)
      \<and> (\<forall>t \<in> set (branchTris n s BaseLeft (0, PS) (PS, 0) (0, 0)). splittable t)
      \<and> (\<forall>t \<in> set (branchTris n s BaseRight (PS, 0) (0, PS) (PS, PS)). splittable t)
      \<longrightarrow> GenerateBorderIndices PS n s = Some (Inr (
            (if LeftNeighbor (baseLeft s) = None then concat (map (leafSkirt PS s XLow) tsL) else [])
          @ (if RightNeighbor (baseLeft s) = None then concat (map (leafSkirt PS s YLow) tsL) else [])
          @ (if RightNeighbor (baseRight s) = None then concat (map (leafSkirt PS s YHigh) tsR) else [])
          @ (if LeftNeighbor (baseRight s) = None then concat (map (leafSkirt PS s XHigh) tsR) else []))))"
proof (intro conjI impI)
  assume "LeftNeighbor (baseLeft s) \<noteq> None \<and> RightNeighbor (baseLeft s) \<noteq> None
      \<and> RightNeighbor (baseRight s) \<noteq> None \<and> LeftNeighbor (baseRight s) \<noteq> None"
  then show "GenerateBorderIndices PS n s = Some (Inr [])"
    by (auto simp: GenerateBorderIndices_def bindR_def)
next
  assume a: "PS = 2 ^ k
      \<and> leafTris n s BaseLeft (0, PS) (PS, 0) (0, 0) = Some (Inr tsL)
      \<and> leafTris n s BaseRight (PS, 0) (0, PS) (PS, PS) = Some (Inr tsR)
      \<and> (\<forall>t \<in> set (branchTris n s BaseLeft (0, PS) (PS, 0) (0, 0)). splittable t)
      \<and> (\<forall>t \<in> set (branchTris n s BaseRight (PS, 0) (0, PS) (PS, PS)). splittable t)"
  then have PS: "PS = 2 ^ k"
    and L: "leafTris n s BaseLeft (0, PS) (PS, 0) (0, 0) = Some (Inr tsL)"
    and R: "leafTris n s BaseRight (PS, 0) (0, PS) (PS, PS) = Some (Inr tsR)"
    and bL: "\<forall>t \<in> set (branchTris n s BaseLeft (0, PS) (PS, 0) (0, 0)). splittable t"
    and bR: "\<forall>t \<in> set (branchTris n s BaseRight (PS, 0) (0, PS) (PS, PS)). splittable t"
    by blast+
  have pos: "0 < PS" unfolding PS by simp
  note re = root_edges[OF pos]
  have rtL: "rightTri (0, PS) (PS, 0) (0, 0)" and rtR: "rightTri (PS, 0) (0, PS) (PS, PS)"
    using rightTri_roots[of k] unfolding PS by simp_all
  have odd1: "(1::int) mod 2 \<noteq> 0" by simp
  note wL = border_walk[OF L bL rtL re(14,15,13), of 1]
  note wR = border_walk[OF R bR rtR re(15,14,16), of 1]
  have w1: "RecursBorderRender PS n s va BaseLeft (0, PS) (PS, 0) (0, 0) 1 True
      = Some (Inr (va @ concat (map (leafSkirt PS s XLow) tsL)))" for va
    using wL[of XLow va] odd1 re(1,2,3) by blast
  have w2: "RecursBorderRender PS n s va BaseLeft (0, PS) (PS, 0) (0, 0) 1 False
      = Some (Inr (va @ concat (map (leafSkirt PS s YLow) tsL)))" for va
    using wL[of YLow va] odd1 re(4,5,6) by blast
  have w3: "RecursBorderRender PS n s va BaseRight (PS, 0) (0, PS) (PS, PS) 1 False
      = Some (Inr (va @ concat (map (leafSkirt PS s YHigh) tsR)))" for va
    using wR[of YHigh va] odd1 re(7,8,9) by blast
  have w4: "RecursBorderRender PS n s va BaseRight (PS, 0) (0, PS) (PS, PS) 1 True
      = Some (Inr (va @ concat (map (leafSkirt PS s XHigh) tsR)))" for va
    using wR[of XHigh va] odd1 re(10,11,12) by blast
  show "GenerateBorderIndices PS n s = Some (Inr (
            (if LeftNeighbor (baseLeft s) = None then concat (map (leafSkirt PS s XLow) tsL) else [])
          @ (if RightNeighbor (baseLeft s) = None then concat (map (leafSkirt PS s YLow) tsL) else [])
          @ (if RightNeighbor (baseRight s) = None then concat (map (leafSkirt PS s YHigh) tsR) else [])
          @ (if LeftNeighbor (baseRight s) = None then concat (map (leafSkirt PS s XHigh) tsR) else [])))"
    unfolding GenerateBorderIndices_def Let_def w1 w2 w3 w4
    by (simp add: bindR_def)
qed

subsection \<open>Runs on concrete patches\<close>

lemmas eval_defs = Patch_Reset_def Patch_ctor_def Let_def setBase_def setLeft_def setRight_def
  upd_def fresh_pool_def nd_def IsLeaf_def IsBranch_def zeroNode_def allocChildren_def Allocate_def
  OutOfNodes_def bindR_def deref_def readVariance_def writeVariance_def varTable_def
  midpoint_def GetHeight_def ownVariance_def storeVariance_def triVariance_def

lemma run_with_state:
  "map_option (map_sum id fst) m = Some (Inr v) \<Longrightarrow> \<exists>s'. m = Some (Inr (v, s'))"
  by (cases m) (auto simp: map_sum_def split: sum.splits)

lemma vpatch_run:
  "map_option (map_sum id fst)
     (RecursComputeVariance 4 2 (Suc 2) vpatch (0, 4) (4, 0) (0, 0) (-1, -1, -1) 1) = Some (Inr 20)"
  by (simp add: vpatch_def verts0_def numeral_2_eq_2 eval_defs)

theorem variance_max_propagation_witness:
  "map_option (map_sum id fst)
     (RecursComputeVariance 4 2 (Suc 2) vpatch (0, 4) (4, 0) (0, 0) (-1, -1, -1) 1) = Some (Inr 20)
   \<and> (0.001 :: real) \<le> 20"
proof -
  from run_with_state[OF vpatch_run] obtain s' where
    run: "RecursComputeVariance 4 2 (Suc 2) vpatch (0, 4) (4, 0) (0, 0) (-1, -1, -1) 1 = Some (Inr (20, s'))"
    by blast
  from variance_max_propagation[OF run] vpatch_run show ?thesis by simp
qed

theorem variance_table_in_bounds_witness:
  "tables_ok 2 vpatch \<and> (4::int) = 2 ^ 2 \<and> (2::nat) \<le> 15
   \<and> map_option (map_sum id (\<lambda>s. (varianceLeft s, varianceRight s)))
        (ComputeVariance 4 2 (Suc (Suc (Suc (Suc (Suc 0))))) vpatch)
       = Some (Inr ([0, 20, 20, 20], [0, 20, 20, 20]))
   \<and> ComputeVariance 4 2 (Suc (Suc (Suc (Suc (Suc 0))))) vpatch \<noteq> Some (Inl OutOfRange)"
proof -
  have t: "tables_ok 2 vpatch" by (simp add: tables_ok_def vpatch_def Patch_ctor_def)
  have p: "(4::int) = 2 ^ 2" and k: "(2::nat) \<le> 15" by simp_all
  have l: "(replicate 4 (0::real))[2 := 20, 3 := 20, Suc 0 := 20] = [0, 20, 20, 20]"
    by (simp add: eval_nat_numeral)
  have run: "map_option (map_sum id (\<lambda>s. (varianceLeft s, varianceRight s)))
        (ComputeVariance 4 2 (Suc (Suc (Suc (Suc (Suc 0))))) vpatch)
       = Some (Inr ([0, 20, 20, 20], [0, 20, 20, 20]))"
    by (simp add: ComputeVariance_def vpatch_def verts0_def eval_defs l)
  note a = variance_table_in_bounds[OF t p k, of "Suc (Suc (Suc (Suc (Suc 0))))", THEN conjunct1]
  show ?thesis by (intro conjI t p k run a)
qed

theorem exhausted_pool_stops_splitting_witness:
  "\<not> fst (Allocate (currentPool fullPatch))
   \<and> Split (Suc 0) BaseLeft fullPatch = Some (Inr (False, fullPatch))
   \<and> RecursTessellate 4 2 (Suc (Suc 0)) fullPatch BaseLeft (0, 4) (4, 0) (0, 0) 1 = Some (Inr fullPatch)"
proof -
  have a: "\<not> fst (Allocate (currentPool fullPatch))"
    by (simp add: fullPatch_def eval_defs)
  have b: "Split (Suc 0) BaseLeft fullPatch = Some (Inr (False, fullPatch))"
    by (simp add: fullPatch_def eval_defs)
  have c: "RecursTessellate 4 2 (Suc (Suc 0)) fullPatch BaseLeft (0, 4) (4, 0) (0, 0) 1 = Some (Inr fullPatch)"
    by (simp add: fullPatch_def eval_defs)
  from exhausted_pool_stops_splitting[OF a] a b c show ?thesis by simp
qed

lemma leafTris_splitOnce:
  "leafTris 2 splitOnce BaseLeft (0, 2) (2, 0) (0, 0)
     = Some (Inr [((0, 0), (0, 2), (1, 1)), ((2, 0), (0, 0), (1, 1))])"
  "leafTris 2 splitOnce BaseRight (2, 0) (0, 2) (2, 2)
     = Some (Inr [((2, 2), (2, 0), (1, 1)), ((0, 2), (2, 2), (1, 1))])"
  by code_simp+

lemma branchTris_splitOnce:
  "branchTris 2 splitOnce BaseLeft (0, 2) (2, 0) (0, 0) = [((0, 2), (2, 0), (0, 0))]"
  "branchTris 2 splitOnce BaseRight (2, 0) (0, 2) (2, 2) = [((2, 0), (0, 2), (2, 2))]"
  by code_simp+

lemma leafSkirt_splitOnce:
  "leafSkirt 2 splitOnce XLow ((0, 0), (0, 2), (1, 1)) =
     [((0, 10, 0), (255, 255, 255, 255)), ((0, - 400, 0), (255, 255, 255, 0)),
      ((0, 16, 16), (255, 255, 255, 255)), ((0, 16, 16), (255, 255, 255, 255)),
      ((0, - 400, 0), (255, 255, 255, 0)), ((0, - 400, 16), (255, 255, 255, 0))]"
  "leafSkirt 2 splitOnce YLow ((2, 0), (0, 0), (1, 1)) =
     [((16, 12, 0), (255, 255, 255, 255)), ((16, - 400, 0), (255, 255, 255, 0)),
      ((0, 10, 0), (255, 255, 255, 255)), ((0, 10, 0), (255, 255, 255, 255)),
      ((16, - 400, 0), (255, 255, 255, 0)), ((0, - 400, 0), (255, 255, 255, 0))]"
  "leafSkirt 2 splitOnce YHigh ((0, 2), (2, 2), (1, 1)) =
     [((0, 16, 16), (255, 255, 255, 255)), ((0, - 400, 16), (255, 255, 255, 0)),
      ((16, 18, 16), (255, 255, 255, 255)), ((16, 18, 16), (255, 255, 255, 255)),
      ((0, - 400, 16), (255, 255, 255, 0)), ((16, - 400, 16), (255, 255, 255, 0))]"
  "leafSkirt 2 splitOnce XHigh ((2, 2), (2, 0), (1, 1)) =
     [((16, 18, 16), (255, 255, 255, 255)), ((16, - 400, 16), (255, 255, 255, 0)),
      ((16, 12, 0), (255, 255, 255, 255)), ((16, 12, 0), (255, 255, 255, 255)),
      ((16, - 400, 16), (255, 255, 255, 0)), ((16, - 400, 0), (255, 255, 255, 0))]"
  by (simp_all add: leafSkirt_def onEdge_def edgeDist_def skirt_def Let_def splitOnce_def
        mkPatch_def grid2_def)

theorem border_covers_edge_leaves_witness:
  "GenerateBorderIndices 2 2 innerPatch = Some (Inr [])
   \<and> GenerateBorderIndices 2 2 splitOnce = Some (Inr
       [((0, 10, 0), (255, 255, 255, 255)), ((0, - 400, 0), (255, 255, 255, 0)),
        ((0, 16, 16), (255, 255, 255, 255)), ((0, 16, 16), (255, 255, 255, 255)),
        ((0, - 400, 0), (255, 255, 255, 0)), ((0, - 400, 16), (255, 255, 255, 0)),
        ((16, 12, 0), (255, 255, 255, 255)), ((16, - 400, 0), (255, 255, 255, 0)),
        ((0, 10, 0), (255, 255, 255, 255)), ((0, 10, 0), (255, 255, 255, 255)),
        ((16, - 400, 0), (255, 255, 255, 0)), ((0, - 400, 0), (255, 255, 255, 0)),
        ((0, 16, 16), (255, 255, 255, 255)), ((0, - 400, 16), (255, 255, 255, 0)),
        ((16, 18, 16), (255, 255, 255, 255)), ((16, 18, 16), (255, 255, 255, 255)),
        ((0, - 400, 16), (255, 255, 255, 0)), ((16, - 400, 16), (255, 255, 255, 0)),
        ((16, 18, 16), (255, 255, 255, 255)), ((16, - 400, 16), (255, 255, 255, 0)),
        ((16, 12, 0), (255, 255, 255, 255)), ((16, 12, 0), (255, 255, 255, 255)),
        ((16, - 400, 16), (255, 255, 255, 0)), ((16, - 400, 0), (255, 255, 255, 0))])"
proof -
  have n: "LeftNeighbor (baseLeft innerPatch) \<noteq> None \<and> RightNeighbor (baseLeft innerPatch) \<noteq> None
      \<and> RightNeighbor (baseRight innerPatch) \<noteq> None \<and> LeftNeighbor (baseRight innerPatch) \<noteq> None"
    by (simp add: innerPatch_def mkPatch_def node5_def)
  have a: "GenerateBorderIndices 2 2 innerPatch = Some (Inr [])"
    using border_covers_edge_leaves[of innerPatch 2 2 0 "[]" "[]"] n by blast
  have sp: "\<forall>t \<in> set (branchTris 2 splitOnce BaseLeft (0, 2) (2, 0) (0, 0)). splittable t"
    "\<forall>t \<in> set (branchTris 2 splitOnce BaseRight (2, 0) (0, 2) (2, 2)). splittable t"
    unfolding branchTris_splitOnce by (simp_all add: splittable_def)
  have e: "LeftNeighbor (baseLeft splitOnce) = None" "RightNeighbor (baseLeft splitOnce) = None"
      "RightNeighbor (baseRight splitOnce) = None" "LeftNeighbor (baseRight splitOnce) = None"
    by (simp_all add: splitOnce_def mkPatch_def node5_def)
  have p: "(2::int) = 2 ^ 1" by simp
  have sk: "leafSkirt 2 splitOnce XLow ((2, 0), (0, 0), (1, 1)) = []"
     "leafSkirt 2 splitOnce YLow ((0, 0), (0, 2), (1, 1)) = []"
     "leafSkirt 2 splitOnce YHigh ((2, 2), (2, 0), (1, 1)) = []"
     "leafSkirt 2 splitOnce XHigh ((0, 2), (2, 2), (1, 1)) = []"
    by (simp_all add: leafSkirt_def onEdge_def edgeDist_def)
  have b: "GenerateBorderIndices 2 2 splitOnce = Some (Inr (
         leafSkirt 2 splitOnce XLow ((0, 0), (0, 2), (1, 1))
       @ leafSkirt 2 splitOnce YLow ((2, 0), (0, 0), (1, 1))
       @ leafSkirt 2 splitOnce YHigh ((0, 2), (2, 2), (1, 1))
       @ leafSkirt 2 splitOnce XHigh ((2, 2), (2, 0), (1, 1))))"
    using border_covers_edge_leaves[of splitOnce 2 2 1
        "[((0, 0), (0, 2), (1, 1)), ((2, 0), (0, 0), (1, 1))]"
        "[((2, 2), (2, 0), (1, 1)), ((0, 2), (2, 2), (1, 1))]"]
      leafTris_splitOnce sp p
    unfolding e by (simp add: sk)
  from a b show ?thesis unfolding leafSkirt_splitOnce by simp
qed

subsection \<open>The diamond invariant of \<open>Split\<close>\<close>

lemma nd_upd: "valid s a \<Longrightarrow> nd (upd s a f) = (nd s)(a := f (nd s a))"
  by (rule ext) (auto simp: nd_def upd_def valid_def split: addr.splits)

lemma pool_upd [simp]:
  "length (pool (currentPool (upd s a f))) = length (pool (currentPool s))"
  "nextTriNodeIdx (currentPool (upd s a f)) = nextTriNodeIdx (currentPool s)"
  by (auto simp: upd_def split: addr.splits)

lemma valid_upd [simp]: "valid (upd s a f) b = valid s b"
  by (simp add: valid_def split: addr.splits)

lemma live_upd [simp]: "live w (upd s a f) b = live w s b"
  by (simp add: live_def split: addr.splits)

lemma poolOk_upd: "poolOk w s \<Longrightarrow> live w s a \<Longrightarrow> poolOk w (upd s a f)"
  unfolding poolOk_def pool_upd
  by (auto simp: upd_def live_def split: addr.splits)

lemma live_valid: "poolOk w s \<Longrightarrow> live w s a \<Longrightarrow> valid s a"
  by (auto simp: poolOk_def live_def valid_def split: addr.splits)

lemma gmesh_kids: "gmesh A lv h W \<Longrightarrow> u \<in> A \<Longrightarrow> kidsOk A lv h u"
  and gmesh_distinct: "gmesh A lv h W \<Longrightarrow> u \<in> A \<Longrightarrow> slotsDistinct (h u)"
  and gmesh_leaf: "gmesh A lv h W \<Longrightarrow> u \<in> A \<Longrightarrow> IsLeaf (h u) \<Longrightarrow> leafOk A lv h W u"
  and gmesh_branch: "gmesh A lv h W \<Longrightarrow> u \<in> A \<Longrightarrow> \<not> IsLeaf (h u) \<Longrightarrow> branchOk A lv h W u"
  unfolding gmesh_def by blast+

lemma gmeshI:
  assumes "\<And>u. u \<in> A \<Longrightarrow> kidsOk A lv h u"
    and "\<And>u. u \<in> A \<Longrightarrow> slotsDistinct (h u)"
    and "\<And>u. u \<in> A \<Longrightarrow> IsLeaf (h u) \<Longrightarrow> leafOk A lv h W u"
    and "\<And>u. u \<in> A \<Longrightarrow> \<not> IsLeaf (h u) \<Longrightarrow> branchOk A lv h W u"
  shows "gmesh A lv h W"
  unfolding gmesh_def using assms by blast

text \<open>Slot-wise facts.\<close>

lemma gmesh_B:
  "gmesh A lv h W \<Longrightarrow> u \<in> A \<Longrightarrow> IsLeaf (h u) \<Longrightarrow> BaseNeighbor (h u) = Some x \<Longrightarrow> baseOk A lv h W u x"
  and gmesh_L:
  "gmesh A lv h W \<Longrightarrow> u \<in> A \<Longrightarrow> IsLeaf (h u) \<Longrightarrow> LeftNeighbor (h u) = Some x \<Longrightarrow> leftOk A lv h u x"
  and gmesh_R:
  "gmesh A lv h W \<Longrightarrow> u \<in> A \<Longrightarrow> IsLeaf (h u) \<Longrightarrow> RightNeighbor (h u) = Some x \<Longrightarrow> rightOk A lv h u x"
  using gmesh_leaf[of A lv h W u] unfolding leafOk_def by blast+

lemma distinctD:
  assumes "slotsDistinct n"
  shows "BaseNeighbor n = Some x \<Longrightarrow> LeftNeighbor n \<noteq> Some x"
    "BaseNeighbor n = Some x \<Longrightarrow> RightNeighbor n \<noteq> Some x"
    "LeftNeighbor n = Some x \<Longrightarrow> RightNeighbor n \<noteq> Some x"
    "LeftNeighbor n = Some x \<Longrightarrow> BaseNeighbor n \<noteq> Some x"
    "RightNeighbor n = Some x \<Longrightarrow> BaseNeighbor n \<noteq> Some x"
    "RightNeighbor n = Some x \<Longrightarrow> LeftNeighbor n \<noteq> Some x"
  using assms unfolding slotsDistinct_def by blast+

lemma linkPreD:
  assumes "linkPre A lv h W t lc rc"
  shows "gmesh A lv h W" "t \<in> A" "IsLeaf (h t)" "lc \<notin> A" "rc \<notin> A" "lc \<noteq> rc"
    "\<And>w. w \<in> W \<Longrightarrow> BaseNeighbor (h t) = Some w"
    "\<And>c. BaseNeighbor (h t) = Some c \<Longrightarrow> BaseNeighbor (h c) = Some t"
  using assms unfolding linkPre_def by simp_all

text \<open>What a leaf other than t that points at t looks like.\<close>

lemma points_at_t_L:
  assumes p: "linkPre A lv h W t lc rc" and u: "u \<in> A" "IsLeaf (h u)" "u \<noteq> t"
    and s: "LeftNeighbor (h u) = Some t"
  shows "RightNeighbor (h t) = Some u \<and> lv u = lv t \<and> LeftNeighbor (h t) \<noteq> Some u"
proof -
  note g = linkPreD(1)[OF p] and t = linkPreD(2,3)[OF p] and m = linkPreD(8)[OF p]
  have l: "leftOk A lv h u t" using gmesh_L[OF g u(1,2) s] .
  have du: "slotsDistinct (h u)" using gmesh_distinct[OF g u(1)] .
  have dt: "slotsDistinct (h t)" using gmesh_distinct[OF g t(1)] .
  from l have c: "(lv t = lv u \<and> RightNeighbor (h t) = Some u) \<or> (lv t = Suc (lv u) \<and> BaseNeighbor (h t) = Some u)"
    unfolding leftOk_def by simp
  from c show ?thesis
  proof
    assume a: "lv t = lv u \<and> RightNeighbor (h t) = Some u"
    then show ?thesis using distinctD(6)[OF dt, of u] by simp
  next
    assume a: "lv t = Suc (lv u) \<and> BaseNeighbor (h t) = Some u"
    then have "BaseNeighbor (h u) = Some t" using m[of u] by simp
    then show ?thesis using distinctD(1)[OF du, of t] s by simp
  qed
qed

lemma points_at_t_R:
  assumes p: "linkPre A lv h W t lc rc" and u: "u \<in> A" "IsLeaf (h u)" "u \<noteq> t"
    and s: "RightNeighbor (h u) = Some t"
  shows "LeftNeighbor (h t) = Some u \<and> lv u = lv t \<and> RightNeighbor (h t) \<noteq> Some u"
proof -
  note g = linkPreD(1)[OF p] and t = linkPreD(2,3)[OF p] and m = linkPreD(8)[OF p]
  have l: "rightOk A lv h u t" using gmesh_R[OF g u(1,2) s] .
  have du: "slotsDistinct (h u)" using gmesh_distinct[OF g u(1)] .
  have dt: "slotsDistinct (h t)" using gmesh_distinct[OF g t(1)] .
  from l have c: "(lv t = lv u \<and> LeftNeighbor (h t) = Some u) \<or> (lv t = Suc (lv u) \<and> BaseNeighbor (h t) = Some u)"
    unfolding rightOk_def by simp
  from c show ?thesis
  proof
    assume a: "lv t = lv u \<and> LeftNeighbor (h t) = Some u"
    then show ?thesis using distinctD(3)[OF dt, of u] by simp
  next
    assume a: "lv t = Suc (lv u) \<and> BaseNeighbor (h t) = Some u"
    then have "BaseNeighbor (h u) = Some t" using m[of u] by simp
    then show ?thesis using distinctD(2)[OF du, of t] s by simp
  qed
qed

lemma points_at_t_B:
  assumes p: "linkPre A lv h W t lc rc" and u: "u \<in> A" "IsLeaf (h u)" "u \<noteq> t"
    and s: "BaseNeighbor (h u) = Some t"
  shows "(BaseNeighbor (h t) = Some u \<and> lv u = lv t \<and> LeftNeighbor (h t) \<noteq> Some u \<and> RightNeighbor (h t) \<noteq> Some u)
       \<or> (LeftNeighbor (h t) = Some u \<and> lv u = Suc (lv t) \<and> RightNeighbor (h t) \<noteq> Some u)
       \<or> (RightNeighbor (h t) = Some u \<and> lv u = Suc (lv t) \<and> LeftNeighbor (h t) \<noteq> Some u)"
proof -
  note g = linkPreD(1)[OF p] and t = linkPreD(2,3)[OF p]
  have l: "baseOk A lv h W u t" using gmesh_B[OF g u(1,2) s] .
  have dt: "slotsDistinct (h t)" using gmesh_distinct[OF g t(1)] .
  from l t have c: "(lv t = lv u \<and> BaseNeighbor (h t) = Some u)
      \<or> (lv u = Suc (lv t) \<and> (LeftNeighbor (h t) = Some u \<or> RightNeighbor (h t) = Some u))"
    unfolding baseOk_def by simp
  show ?thesis
    using c distinctD(1)[OF dt, of u] distinctD(2)[OF dt, of u] distinctD(3)[OF dt, of u]
    by auto
qed

text \<open>The slots of an old leaf after the step.\<close>

lemma linked_old:
  assumes p: "linkPre A lv h W t lc rc" and u: "u \<in> A" "u \<noteq> t"
  shows "LeftChild (linked h t lc rc u) = LeftChild (h u)"
    "RightChild (linked h t lc rc u) = RightChild (h u)"
    "IsLeaf (linked h t lc rc u) = IsLeaf (h u)"
    "BaseNeighbor (linked h t lc rc u) = repoint h t lc rc u (BaseNeighbor (h u))"
    "LeftNeighbor (linked h t lc rc u) = repoint h t lc rc u (LeftNeighbor (h u))"
    "RightNeighbor (linked h t lc rc u) = repoint h t lc rc u (RightNeighbor (h u))"
proof -
  have n: "u \<noteq> lc" "u \<noteq> rc" using linkPreD(4,5)[OF p] u(1) by auto
  show "LeftChild (linked h t lc rc u) = LeftChild (h u)"
    "RightChild (linked h t lc rc u) = RightChild (h u)"
    "IsLeaf (linked h t lc rc u) = IsLeaf (h u)"
    "BaseNeighbor (linked h t lc rc u) = repoint h t lc rc u (BaseNeighbor (h u))"
    "LeftNeighbor (linked h t lc rc u) = repoint h t lc rc u (LeftNeighbor (h u))"
    "RightNeighbor (linked h t lc rc u) = repoint h t lc rc u (RightNeighbor (h u))"
    using n u(2) by (simp_all add: linked_def IsLeaf_def)
qed

lemma linked_new:
  assumes p: "linkPre A lv h W t lc rc"
  shows "linked h t lc rc t = (h t)\<lparr>LeftChild := Some lc, RightChild := Some rc\<rparr>"
    "linked h t lc rc lc = \<lparr>LeftChild = None, RightChild = None, BaseNeighbor = LeftNeighbor (h t),
                           LeftNeighbor = Some rc, RightNeighbor = None\<rparr>"
    "linked h t lc rc rc = \<lparr>LeftChild = None, RightChild = None, BaseNeighbor = RightNeighbor (h t),
                           LeftNeighbor = None, RightNeighbor = Some lc\<rparr>"
    "t \<noteq> lc" "t \<noteq> rc"
proof -
  show n: "t \<noteq> lc" "t \<noteq> rc" using linkPreD(2,4,5)[OF p] by auto
  show "linked h t lc rc t = (h t)\<lparr>LeftChild := Some lc, RightChild := Some rc\<rparr>"
    "linked h t lc rc lc = \<lparr>LeftChild = None, RightChild = None, BaseNeighbor = LeftNeighbor (h t),
                           LeftNeighbor = Some rc, RightNeighbor = None\<rparr>"
    "linked h t lc rc rc = \<lparr>LeftChild = None, RightChild = None, BaseNeighbor = RightNeighbor (h t),
                           LeftNeighbor = None, RightNeighbor = Some lc\<rparr>"
    using n linkPreD(6)[OF p] by (simp_all add: linked_def)
qed

text \<open>A slot of an old node that does not point at t keeps its value.\<close>

lemma repoint_other: "v \<noteq> Some t \<Longrightarrow> repoint h t lc rc x v = v"
  by (simp add: repoint_def)

lemma repoint_branch:
  assumes p: "linkPre A lv h W t lc rc" and u: "\<not> IsLeaf (h u)"
  shows "repoint h t lc rc u v = v"
proof -
  note g = linkPreD(1)[OF p] and t = linkPreD(2,3)[OF p]
  have "LeftNeighbor (h t) \<noteq> Some u"
    using gmesh_L[OF g t, of u] u unfolding leftOk_def by auto
  moreover have "RightNeighbor (h t) \<noteq> Some u"
    using gmesh_R[OF g t, of u] u unfolding rightOk_def by auto
  ultimately show ?thesis by (simp add: repoint_def)
qed

lemma lvKids_simps:
  assumes p: "linkPre A lv h W t lc rc"
  shows "lvKids lv t lc rc lc = Suc (lv t)" "lvKids lv t lc rc rc = Suc (lv t)"
    "\<And>x. x \<in> A \<Longrightarrow> lvKids lv t lc rc x = lv x"
  using linkPreD(4,5)[OF p] by (auto simp: lvKids_def)

lemma back_kept:
  assumes p: "linkPre A lv h W t lc rc" and x: "x \<in> A" "x \<noteq> t" and u: "u \<noteq> t"
  shows "BaseNeighbor (h x) = Some u \<Longrightarrow> BaseNeighbor (linked h t lc rc x) = Some u"
    "LeftNeighbor (h x) = Some u \<Longrightarrow> LeftNeighbor (linked h t lc rc x) = Some u"
    "RightNeighbor (h x) = Some u \<Longrightarrow> RightNeighbor (linked h t lc rc x) = Some u"
  using u by (simp_all add: linked_old[OF p x] repoint_other)

lemma link_kids:
  assumes p: "linkPre A lv h W t lc rc" and u: "u \<in> addKids A lc rc"
  shows "kidsOk (addKids A lc rc) (lvKids lv t lc rc) (linked h t lc rc) u"
proof -
  note n = linked_new[OF p] and lvs = lvKids_simps[OF p]
  consider "u = t" | "u = lc" | "u = rc" | "u \<in> A" "u \<noteq> t" using u by (auto simp: addKids_def)
  then show ?thesis
  proof cases
    case 1
    have "t \<in> A" using linkPreD(2)[OF p] .
    then show ?thesis unfolding 1 kidsOk_def n(1) using lvs by (auto simp: addKids_def)
  next
    case 2
    show ?thesis unfolding 2 kidsOk_def n(2) by simp
  next
    case 3
    show ?thesis unfolding 3 kidsOk_def n(3) by simp
  next
    case 4
    have k: "kidsOk A lv h u" using gmesh_kids[OF linkPreD(1)[OF p] 4(1)] .
    show ?thesis using k lvs(3) 4(1) unfolding kidsOk_def linked_old[OF p 4] addKids_def by auto
  qed
qed

lemma link_distinct:
  assumes p: "linkPre A lv h W t lc rc" and u: "u \<in> addKids A lc rc"
  shows "slotsDistinct (linked h t lc rc u)"
proof -
  note n = linked_new[OF p] and g = linkPreD(1)[OF p] and t = linkPreD(2,3)[OF p]
  have dt: "slotsDistinct (h t)" using gmesh_distinct[OF g t(1)] .
  consider "u = t" | "u = lc" | "u = rc" | "u \<in> A" "u \<noteq> t" using u by (auto simp: addKids_def)
  then show ?thesis
  proof cases
    case 1
    show ?thesis using dt unfolding 1 n(1) slotsDistinct_def by simp
  next
    case 2
    have "LeftNeighbor (h t) \<noteq> Some rc"
      using gmesh_L[OF g t, of rc] linkPreD(5)[OF p] unfolding leftOk_def by auto
    then show ?thesis unfolding 2 n(2) slotsDistinct_def by auto
  next
    case 3
    have "RightNeighbor (h t) \<noteq> Some lc"
      using gmesh_R[OF g t, of lc] linkPreD(4)[OF p] unfolding rightOk_def by auto
    then show ?thesis unfolding 3 n(3) slotsDistinct_def by auto
  next
    case 4
    have du: "slotsDistinct (h u)" using gmesh_distinct[OF g 4(1)] .
    show ?thesis
    proof (cases "IsLeaf (h u)")
      case False
      show ?thesis using du unfolding slotsDistinct_def linked_old[OF p 4] repoint_branch[OF p False] .
    next
      case True
      have a: "\<And>x. BaseNeighbor (h u) = Some x \<Longrightarrow> x \<in> A"
        using gmesh_B[OF g 4(1) True] unfolding baseOk_def by simp
      have b: "\<And>x. LeftNeighbor (h u) = Some x \<Longrightarrow> x \<in> A"
        using gmesh_L[OF g 4(1) True] unfolding leftOk_def by simp
      have c: "\<And>x. RightNeighbor (h u) = Some x \<Longrightarrow> x \<in> A"
        using gmesh_R[OF g 4(1) True] unfolding rightOk_def by simp
      have f: "lc \<notin> A" "rc \<notin> A" "lc \<noteq> rc" using linkPreD(4,5,6)[OF p] .
      have dt3: "LeftNeighbor (h t) = Some u \<Longrightarrow> RightNeighbor (h t) \<noteq> Some u"
        using distinctD(3)[OF dt] by simp
      show ?thesis
        using du a b c f dt3 unfolding slotsDistinct_def linked_old[OF p 4] repoint_def
        by (auto split: if_splits)
    qed
  qed
qed

lemma leftOk_kept:
  assumes p: "linkPre A lv h W t lc rc" and u: "u \<in> A" "u \<noteq> t" and x: "x \<noteq> t"
    and l: "leftOk A lv h u x"
  shows "leftOk (addKids A lc rc) (lvKids lv t lc rc) (linked h t lc rc) u x"
proof -
  from l have xA: "x \<in> A" unfolding leftOk_def by simp
  note o = linked_old[OF p xA x] and lvs = lvKids_simps(3)[OF p]
  note bk = back_kept[OF p xA x u(2)]
  show ?thesis using l bk xA u(1) unfolding leftOk_def o(3) by (auto simp: lvs addKids_def)
qed

lemma rightOk_kept:
  assumes p: "linkPre A lv h W t lc rc" and u: "u \<in> A" "u \<noteq> t" and x: "x \<noteq> t"
    and l: "rightOk A lv h u x"
  shows "rightOk (addKids A lc rc) (lvKids lv t lc rc) (linked h t lc rc) u x"
proof -
  from l have xA: "x \<in> A" unfolding rightOk_def by simp
  note o = linked_old[OF p xA x] and lvs = lvKids_simps(3)[OF p]
  note bk = back_kept[OF p xA x u(2)]
  show ?thesis using l bk xA u(1) unfolding rightOk_def o(3) by (auto simp: lvs addKids_def)
qed

lemma baseOk_kept:
  assumes p: "linkPre A lv h W t lc rc" and u: "u \<in> A" "u \<noteq> t" and x: "x \<noteq> t"
    and l: "baseOk A lv h W u x"
  shows "baseOk (addKids A lc rc) (lvKids lv t lc rc) (linked h t lc rc) (waitAfter h W t) u x"
proof -
  from l have xA: "x \<in> A" unfolding baseOk_def by simp
  note o = linked_old[OF p xA x] and lvs = lvKids_simps(3)[OF p]
  note bk = back_kept[OF p xA x u(2)]
  show ?thesis using l bk xA u(1) unfolding baseOk_def o(3)
    by (auto simp: lvs addKids_def waitAfter_def)
qed

lemma left_of_t:
  assumes p: "linkPre A lv h W t lc rc" and l: "LeftNeighbor (h t) = Some l"
  shows "l \<in> A" "l \<noteq> t" "IsLeaf (h l)" "l \<noteq> lc" "l \<noteq> rc"
    "(lv l = lv t \<and> RightNeighbor (h l) = Some t) \<or> (lv l = Suc (lv t) \<and> BaseNeighbor (h l) = Some t)"
    "RightNeighbor (h t) \<noteq> Some l" "BaseNeighbor (h t) \<noteq> Some l"
proof -
  note g = linkPreD(1)[OF p] and t = linkPreD(2,3)[OF p]
  have dt: "slotsDistinct (h t)" using gmesh_distinct[OF g t(1)] .
  have lo: "leftOk A lv h t l" using gmesh_L[OF g t l] .
  show a: "l \<in> A" using lo unfolding leftOk_def by simp
  show "IsLeaf (h l)" using lo unfolding leftOk_def by simp
  show c: "(lv l = lv t \<and> RightNeighbor (h l) = Some t) \<or> (lv l = Suc (lv t) \<and> BaseNeighbor (h l) = Some t)"
    using lo unfolding leftOk_def by simp
  show r: "RightNeighbor (h t) \<noteq> Some l" using distinctD(3)[OF dt l] .
  show "BaseNeighbor (h t) \<noteq> Some l" using distinctD(4)[OF dt l] .
  show "l \<noteq> lc" "l \<noteq> rc" using a linkPreD(4,5)[OF p] by auto
  show "l \<noteq> t" using c r by auto
qed

lemma right_of_t:
  assumes p: "linkPre A lv h W t lc rc" and r: "RightNeighbor (h t) = Some r"
  shows "r \<in> A" "r \<noteq> t" "IsLeaf (h r)" "r \<noteq> lc" "r \<noteq> rc"
    "(lv r = lv t \<and> LeftNeighbor (h r) = Some t) \<or> (lv r = Suc (lv t) \<and> BaseNeighbor (h r) = Some t)"
    "LeftNeighbor (h t) \<noteq> Some r" "BaseNeighbor (h t) \<noteq> Some r"
proof -
  note g = linkPreD(1)[OF p] and t = linkPreD(2,3)[OF p]
  have dt: "slotsDistinct (h t)" using gmesh_distinct[OF g t(1)] .
  have lo: "rightOk A lv h t r" using gmesh_R[OF g t r] .
  show a: "r \<in> A" using lo unfolding rightOk_def by simp
  show "IsLeaf (h r)" using lo unfolding rightOk_def by simp
  show c: "(lv r = lv t \<and> LeftNeighbor (h r) = Some t) \<or> (lv r = Suc (lv t) \<and> BaseNeighbor (h r) = Some t)"
    using lo unfolding rightOk_def by simp
  show l: "LeftNeighbor (h t) \<noteq> Some r" using distinctD(6)[OF dt r] .
  show "BaseNeighbor (h t) \<noteq> Some r" using distinctD(5)[OF dt r] .
  show "r \<noteq> lc" "r \<noteq> rc" using a linkPreD(4,5)[OF p] by auto
  show "r \<noteq> t" using c l by auto
qed

lemma link_leaf_lc:
  assumes p: "linkPre A lv h W t lc rc"
  shows "leafOk (addKids A lc rc) (lvKids lv t lc rc) (linked h t lc rc) (waitAfter h W t) lc"
proof -
  note n = linked_new[OF p] and lvs = lvKids_simps[OF p]
  have f: "lc \<noteq> rc" using linkPreD(6)[OF p] .
  have b: "baseOk (addKids A lc rc) (lvKids lv t lc rc) (linked h t lc rc) (waitAfter h W t) lc l"
    if l: "LeftNeighbor (h t) = Some l" for l
  proof -
    note lt = left_of_t[OF p l]
    note o = linked_old[OF p lt(1,2)]
    have rp: "repoint h t lc rc l (Some t) = Some lc" using l by (simp add: repoint_def)
    from lt(6) show ?thesis
    proof
      assume a: "lv l = lv t \<and> RightNeighbor (h l) = Some t"
      then have "RightNeighbor (linked h t lc rc l) = Some lc" unfolding o using rp by simp
      then show ?thesis unfolding baseOk_def o(3) using lt(1,3,4) a lvs
        by (simp add: addKids_def)
    next
      assume a: "lv l = Suc (lv t) \<and> BaseNeighbor (h l) = Some t"
      then have "BaseNeighbor (linked h t lc rc l) = Some lc" unfolding o using rp by simp
      then show ?thesis unfolding baseOk_def o(3) using lt(1,3,4) a lvs
        by (simp add: addKids_def)
    qed
  qed
  have l: "leftOk (addKids A lc rc) (lvKids lv t lc rc) (linked h t lc rc) lc rc"
    unfolding leftOk_def n(3) using lvs by (simp add: addKids_def IsLeaf_def)
  show ?thesis unfolding leafOk_def using b l by (simp add: n(2))
qed

lemma link_leaf_rc:
  assumes p: "linkPre A lv h W t lc rc"
  shows "leafOk (addKids A lc rc) (lvKids lv t lc rc) (linked h t lc rc) (waitAfter h W t) rc"
proof -
  note n = linked_new[OF p] and lvs = lvKids_simps[OF p]
  have f: "lc \<noteq> rc" using linkPreD(6)[OF p] .
  have b: "baseOk (addKids A lc rc) (lvKids lv t lc rc) (linked h t lc rc) (waitAfter h W t) rc r"
    if r: "RightNeighbor (h t) = Some r" for r
  proof -
    note rt = right_of_t[OF p r]
    note o = linked_old[OF p rt(1,2)]
    have rp: "repoint h t lc rc r (Some t) = Some rc" using r rt(7) by (simp add: repoint_def)
    from rt(6) show ?thesis
    proof
      assume a: "lv r = lv t \<and> LeftNeighbor (h r) = Some t"
      then have "LeftNeighbor (linked h t lc rc r) = Some rc" unfolding o using rp by simp
      then show ?thesis unfolding baseOk_def o(3) using rt(1,3,5) a lvs
        by (simp add: addKids_def)
    next
      assume a: "lv r = Suc (lv t) \<and> BaseNeighbor (h r) = Some t"
      then have "BaseNeighbor (linked h t lc rc r) = Some rc" unfolding o using rp by simp
      then show ?thesis unfolding baseOk_def o(3) using rt(1,3,5) a lvs
        by (simp add: addKids_def)
    qed
  qed
  have l: "rightOk (addKids A lc rc) (lvKids lv t lc rc) (linked h t lc rc) rc lc"
    unfolding rightOk_def n(2) using lvs by (simp add: addKids_def IsLeaf_def)
  show ?thesis unfolding leafOk_def using b l by (simp add: n(3))
qed

lemma link_leaf_old:
  assumes p: "linkPre A lv h W t lc rc" and u: "u \<in> A" "u \<noteq> t" "IsLeaf (h u)"
  shows "leafOk (addKids A lc rc) (lvKids lv t lc rc) (linked h t lc rc) (waitAfter h W t) u"
proof -
  note n = linked_new[OF p] and lvs = lvKids_simps[OF p] and o = linked_old[OF p u(1,2)]
  note g = linkPreD(1)[OF p] and t = linkPreD(2,3)[OF p]
  have ulc: "u \<noteq> lc" "u \<noteq> rc" using u(1) linkPreD(4,5)[OF p] by auto
  have B: "baseOk (addKids A lc rc) (lvKids lv t lc rc) (linked h t lc rc) (waitAfter h W t) u x"
    if x: "BaseNeighbor (linked h t lc rc u) = Some x" for x
  proof (cases "BaseNeighbor (h u) = Some t")
    case False
    then have e: "BaseNeighbor (h u) = Some x" using x unfolding o by (simp add: repoint_other)
    then have xt: "x \<noteq> t" using False by auto
    show ?thesis using baseOk_kept[OF p u(1,2) xt gmesh_B[OF g u(1,3) e]] .
  next
    case True
    from points_at_t_B[OF p u(1,3,2) True]
    consider (m) "BaseNeighbor (h t) = Some u" "lv u = lv t" "LeftNeighbor (h t) \<noteq> Some u" "RightNeighbor (h t) \<noteq> Some u"
      | (l) "LeftNeighbor (h t) = Some u" "lv u = Suc (lv t)"
      | (r) "RightNeighbor (h t) = Some u" "lv u = Suc (lv t)" "LeftNeighbor (h t) \<noteq> Some u"
      by blast
    then show ?thesis
    proof cases
      case m
      have "x = t" using x True m(3,4) unfolding o by (simp add: repoint_def)
      moreover have "t \<in> waitAfter h W t" using m(1) by (simp add: waitAfter_def)
      ultimately show ?thesis unfolding baseOk_def
        using t(1) u(1,2) m(1,2) lvs(3) by (simp add: n(1) addKids_def IsLeaf_def)
    next
      case l
      have "x = lc" using x True l unfolding o by (simp add: repoint_def)
      then show ?thesis unfolding baseOk_def using ulc l lvs u(1)
        by (simp add: n(2) addKids_def IsLeaf_def)
    next
      case r
      have "x = rc" using x True r unfolding o by (simp add: repoint_def)
      then show ?thesis unfolding baseOk_def using ulc r lvs u(1)
        by (simp add: n(3) addKids_def IsLeaf_def)
    qed
  qed
  have L: "leftOk (addKids A lc rc) (lvKids lv t lc rc) (linked h t lc rc) u x"
    if x: "LeftNeighbor (linked h t lc rc u) = Some x" for x
  proof (cases "LeftNeighbor (h u) = Some t")
    case False
    then have e: "LeftNeighbor (h u) = Some x" using x unfolding o by (simp add: repoint_other)
    then have xt: "x \<noteq> t" using False by auto
    show ?thesis using leftOk_kept[OF p u(1,2) xt gmesh_L[OF g u(1,3) e]] .
  next
    case True
    note pt = points_at_t_L[OF p u(1,3,2) True]
    have "x = rc" using x True pt unfolding o by (simp add: repoint_def)
    then show ?thesis unfolding leftOk_def using ulc pt lvs u(1)
      by (simp add: n(3) addKids_def IsLeaf_def)
  qed
  have R: "rightOk (addKids A lc rc) (lvKids lv t lc rc) (linked h t lc rc) u x"
    if x: "RightNeighbor (linked h t lc rc u) = Some x" for x
  proof (cases "RightNeighbor (h u) = Some t")
    case False
    then have e: "RightNeighbor (h u) = Some x" using x unfolding o by (simp add: repoint_other)
    then have xt: "x \<noteq> t" using False by auto
    show ?thesis using rightOk_kept[OF p u(1,2) xt gmesh_R[OF g u(1,3) e]] .
  next
    case True
    note pt = points_at_t_R[OF p u(1,3,2) True]
    have "x = lc" using x True pt unfolding o by (simp add: repoint_def)
    then show ?thesis unfolding rightOk_def using ulc pt lvs u(1)
      by (simp add: n(2) addKids_def IsLeaf_def)
  qed
  show ?thesis unfolding leafOk_def using B L R by blast
qed

lemma link_leaf:
  assumes p: "linkPre A lv h W t lc rc" and u: "u \<in> addKids A lc rc" "IsLeaf (linked h t lc rc u)"
  shows "leafOk (addKids A lc rc) (lvKids lv t lc rc) (linked h t lc rc) (waitAfter h W t) u"
proof -
  note n = linked_new[OF p]
  have "\<not> IsLeaf (linked h t lc rc t)" by (simp add: n(1) IsLeaf_def)
  then have "u \<noteq> t" using u(2) by auto
  then consider "u = lc" | "u = rc" | "u \<in> A" "u \<noteq> t" using u(1) by (auto simp: addKids_def)
  then show ?thesis
  proof cases
    case 1
    then show ?thesis using link_leaf_lc[OF p] by simp
  next
    case 2
    then show ?thesis using link_leaf_rc[OF p] by simp
  next
    case 3
    have "IsLeaf (h u)" using u(2) unfolding linked_old[OF p 3] .
    then show ?thesis using link_leaf_old[OF p 3] by simp
  qed
qed

lemma partner_of_t:
  assumes p: "linkPre A lv h W t lc rc" and c: "BaseNeighbor (h t) = Some c"
  shows "c \<in> A" "c \<noteq> t" "BaseNeighbor (h c) = Some t" "lv c = lv t"
    "LeftNeighbor (h t) \<noteq> Some c" "RightNeighbor (h t) \<noteq> Some c"
    "c \<noteq> lc" "c \<noteq> rc"
proof -
  note g = linkPreD(1)[OF p] and t = linkPreD(2,3)[OF p]
  have dt: "slotsDistinct (h t)" using gmesh_distinct[OF g t(1)] .
  have bo: "baseOk A lv h W t c" using gmesh_B[OF g t c] .
  show a: "c \<in> A" using bo unfolding baseOk_def by simp
  show "c \<noteq> t" using bo unfolding baseOk_def by simp
  show m: "BaseNeighbor (h c) = Some t" using linkPreD(8)[OF p c] .
  have dc: "slotsDistinct (h c)" using gmesh_distinct[OF g a] .
  show "lv c = lv t" using bo distinctD(1)[OF dc m] distinctD(2)[OF dc m] unfolding baseOk_def by auto
  show "LeftNeighbor (h t) \<noteq> Some c" using distinctD(1)[OF dt c] .
  show "RightNeighbor (h t) \<noteq> Some c" using distinctD(2)[OF dt c] .
  show "c \<noteq> lc" "c \<noteq> rc" using a linkPreD(4,5)[OF p] by auto
qed

lemma link_branch_t:
  assumes p: "linkPre A lv h W t lc rc"
  shows "branchOk (addKids A lc rc) (lvKids lv t lc rc) (linked h t lc rc) (waitAfter h W t) t"
proof -
  note n = linked_new[OF p] and lvs = lvKids_simps[OF p] and t = linkPreD(2,3)[OF p]
  have f: "lc \<noteq> rc" using linkPreD(6)[OF p] .
  have hs: "halfSplit (linked h t lc rc) t"
    unfolding halfSplit_def using n(4,5) f by (simp add: n(1,2,3) IsLeaf_def)
  have "c \<in> addKids A lc rc \<and> c \<noteq> t \<and> BaseNeighbor (linked h t lc rc c) = Some t
        \<and> lvKids lv t lc rc c = lvKids lv t lc rc t \<and> t \<in> waitAfter h W t"
    if c: "BaseNeighbor (h t) = Some c" for c
  proof -
    note pt = partner_of_t[OF p c]
    note o = linked_old[OF p pt(1,2)]
    have "BaseNeighbor (linked h t lc rc c) = Some t"
      unfolding o using pt(3,5,6) by (simp add: repoint_def)
    then show ?thesis using pt(1,2,4) lvs(3) t(1) c by (simp add: addKids_def waitAfter_def)
  qed
  then show ?thesis unfolding branchOk_def using hs by (simp add: n(1))
qed

lemma kid_not_t:
  assumes p: "linkPre A lv h W t lc rc" and a: "a \<in> A" "a \<in> W"
    and k: "LeftChild (h a) = Some x \<or> RightChild (h a) = Some x"
  shows "x \<noteq> t" "x \<in> A"
proof -
  note g = linkPreD(1)[OF p]
  have c: "BaseNeighbor (h t) = Some a" using linkPreD(7)[OF p a(2)] .
  note pt = partner_of_t[OF p c]
  have ko: "kidsOk A lv h a" using gmesh_kids[OF g a(1)] .
  then have "lv x = Suc (lv a)" and "x \<in> A" using k unfolding kidsOk_def by auto
  then show "x \<noteq> t" "x \<in> A" using pt(4) by auto
qed

lemma halfSplit_kept:
  assumes p: "linkPre A lv h W t lc rc" and a: "a \<in> A" "a \<in> W" "\<not> IsLeaf (h a)"
    and hs: "halfSplit h a"
  shows "halfSplit (linked h t lc rc) a"
proof -
  note g = linkPreD(1)[OF p]
  have c: "BaseNeighbor (h t) = Some a" using linkPreD(7)[OF p a(2)] .
  note pt = partner_of_t[OF p c]
  have da: "slotsDistinct (h a)" using gmesh_distinct[OF g a(1)] .
  from hs obtain al ar where k: "LeftChild (h a) = Some al" "RightChild (h a) = Some ar"
     "IsLeaf (h al)" "IsLeaf (h ar)"
     "BaseNeighbor (h al) = LeftNeighbor (h a)" "LeftNeighbor (h al) = Some ar" "RightNeighbor (h al) = None"
     "BaseNeighbor (h ar) = RightNeighbor (h a)" "LeftNeighbor (h ar) = None" "RightNeighbor (h ar) = Some al"
    unfolding halfSplit_def by blast
  have al: "al \<noteq> t" "al \<in> A" using kid_not_t[OF p a(1,2), of al] k(1) by auto
  have ar: "ar \<noteq> t" "ar \<in> A" using kid_not_t[OF p a(1,2), of ar] k(2) by auto
  note oa = linked_old[OF p a(1) pt(2)] and ol = linked_old[OF p al(2,1)] and or = linked_old[OF p ar(2,1)]
  have la: "LeftNeighbor (h a) \<noteq> Some t" using distinctD(1)[OF da pt(3)] .
  have ra: "RightNeighbor (h a) \<noteq> Some t" using distinctD(2)[OF da pt(3)] .
  show ?thesis unfolding halfSplit_def oa repoint_branch[OF p a(3)]
    using k al(1) ar(1) la ra by (simp add: ol or repoint_other)
qed

lemma crossed_kept:
  assumes p: "linkPre A lv h W t lc rc" and a: "a \<in> A" "\<not> IsLeaf (h a)"
    and b: "b \<in> A" "\<not> IsLeaf (h b)" "lv b = lv a"
    and cr: "crossed h a b"
  shows "crossed (linked h t lc rc) a b"
proof -
  note g = linkPreD(1)[OF p] and t = linkPreD(2,3)[OF p] and n = linked_new[OF p]
  have at: "a \<noteq> t" "b \<noteq> t" using a b t by auto
  from cr obtain al ar bl br where k: "LeftChild (h a) = Some al" "RightChild (h a) = Some ar"
     "LeftChild (h b) = Some bl" "RightChild (h b) = Some br"
     and c1: "RightNeighbor (h al) = Some br \<or> (\<exists>g. RightNeighbor (h al) = Some g \<and> LeftChild (h br) = Some g)"
     and c2: "LeftNeighbor (h ar) = Some bl \<or> (\<exists>g. LeftNeighbor (h ar) = Some g \<and> RightChild (h bl) = Some g)"
    unfolding crossed_def by blast
  have ka: "kidsOk A lv h a" and kb: "kidsOk A lv h b" using gmesh_kids[OF g] a(1) b(1) by auto
  have al: "al \<in> A" "lv al = Suc (lv a)" and ar: "ar \<in> A" "lv ar = Suc (lv a)"
    using ka k(1,2) unfolding kidsOk_def by auto
  have bl: "bl \<in> A" "lv bl = Suc (lv a)" and br: "br \<in> A" "lv br = Suc (lv a)"
    using kb k(3,4) b(3) unfolding kidsOk_def by auto
  note oa = linked_old[OF p a(1) at(1)] and ob = linked_old[OF p b(1) at(2)]
  have lcK: "LeftChild (linked h t lc rc x) = (if x = t then Some lc else LeftChild (h x))" if "x \<in> A" for x
    using linked_old(1)[OF p that] by (simp add: n(1))
  have rcK: "RightChild (linked h t lc rc x) = (if x = t then Some rc else RightChild (h x))" if "x \<in> A" for x
    using linked_old(2)[OF p that] by (simp add: n(1))
  have tl: "LeftChild (h t) = None" "RightChild (h t) = None" using t(2) by (auto simp: IsLeaf_def)
  have d1: "RightNeighbor (linked h t lc rc al) = Some br
      \<or> (\<exists>g. RightNeighbor (linked h t lc rc al) = Some g \<and> LeftChild (linked h t lc rc br) = Some g)"
  proof (cases "al \<noteq> t \<and> IsLeaf (h al) \<and> RightNeighbor (h al) = Some t")
    case True
    note pt = points_at_t_R[OF p al(1)] 
    have e: "LeftNeighbor (h t) = Some al" "lv al = lv t" using pt True by auto
    have r: "RightNeighbor (linked h t lc rc al) = Some lc"
      using True e unfolding linked_old[OF p al(1)] by (simp add: linked_old[OF p al(1)] repoint_def)
    from c1 show ?thesis
    proof
      assume "RightNeighbor (h al) = Some br"
      then have "br = t" using True by simp
      then show ?thesis using r by (simp add: n(1))
    next
      assume "\<exists>g. RightNeighbor (h al) = Some g \<and> LeftChild (h br) = Some g"
      then have "LeftChild (h br) = Some t" using True by auto
      then have "lv t = Suc (lv br)" using gmesh_kids[OF g br(1)] unfolding kidsOk_def by auto
      then show ?thesis using e(2) al(2) br(2) by simp
    qed
  next
    case False
    have r: "RightNeighbor (linked h t lc rc al) = RightNeighbor (h al)"
    proof (cases "al = t")
      case True
      then show ?thesis by (simp add: n(1))
    next
      case nt: False
      show ?thesis
      proof (cases "IsLeaf (h al)")
        case True
        then have "RightNeighbor (h al) \<noteq> Some t" using False nt by simp
        then show ?thesis by (simp add: linked_old[OF p al(1) nt] repoint_other)
      next
        case nl: False
        show ?thesis by (simp add: linked_old[OF p al(1) nt] repoint_branch[OF p nl])
      qed
    qed
    from c1 show ?thesis
    proof
      assume "RightNeighbor (h al) = Some br"
      then show ?thesis using r by simp
    next
      assume "\<exists>g. RightNeighbor (h al) = Some g \<and> LeftChild (h br) = Some g"
      then obtain g where gg: "RightNeighbor (h al) = Some g" "LeftChild (h br) = Some g" by blast
      then have "br \<noteq> t" using tl by auto
      then show ?thesis using r gg by (simp add: lcK[OF br(1)])
    qed
  qed
  have d2: "LeftNeighbor (linked h t lc rc ar) = Some bl
      \<or> (\<exists>g. LeftNeighbor (linked h t lc rc ar) = Some g \<and> RightChild (linked h t lc rc bl) = Some g)"
  proof (cases "ar \<noteq> t \<and> IsLeaf (h ar) \<and> LeftNeighbor (h ar) = Some t")
    case True
    note pt = points_at_t_L[OF p ar(1)] 
    have e: "RightNeighbor (h t) = Some ar" "lv ar = lv t" "LeftNeighbor (h t) \<noteq> Some ar" using pt True by auto
    have r: "LeftNeighbor (linked h t lc rc ar) = Some rc"
      using True e by (simp add: linked_old[OF p ar(1)] repoint_def)
    from c2 show ?thesis
    proof
      assume "LeftNeighbor (h ar) = Some bl"
      then have "bl = t" using True by simp
      then show ?thesis using r by (simp add: n(1))
    next
      assume "\<exists>g. LeftNeighbor (h ar) = Some g \<and> RightChild (h bl) = Some g"
      then have "RightChild (h bl) = Some t" using True by auto
      then have "lv t = Suc (lv bl)" using gmesh_kids[OF g bl(1)] unfolding kidsOk_def by auto
      then show ?thesis using e(2) ar(2) bl(2) by simp
    qed
  next
    case False
    have r: "LeftNeighbor (linked h t lc rc ar) = LeftNeighbor (h ar)"
    proof (cases "ar = t")
      case True
      then show ?thesis by (simp add: n(1))
    next
      case nt: False
      show ?thesis
      proof (cases "IsLeaf (h ar)")
        case True
        then have "LeftNeighbor (h ar) \<noteq> Some t" using False nt by simp
        then show ?thesis by (simp add: linked_old[OF p ar(1) nt] repoint_other)
      next
        case nl: False
        show ?thesis by (simp add: linked_old[OF p ar(1) nt] repoint_branch[OF p nl])
      qed
    qed
    from c2 show ?thesis
    proof
      assume "LeftNeighbor (h ar) = Some bl"
      then show ?thesis using r by simp
    next
      assume "\<exists>g. LeftNeighbor (h ar) = Some g \<and> RightChild (h bl) = Some g"
      then obtain g where gg: "LeftNeighbor (h ar) = Some g" "RightChild (h bl) = Some g" by blast
      then have "bl \<noteq> t" using tl by auto
      then show ?thesis using r gg by (simp add: rcK[OF bl(1)])
    qed
  qed
  show ?thesis unfolding crossed_def oa ob using k d1 d2 by simp
qed

lemma link_branch_old:
  assumes p: "linkPre A lv h W t lc rc" and a: "a \<in> A" "\<not> IsLeaf (h a)"
  shows "branchOk (addKids A lc rc) (lvKids lv t lc rc) (linked h t lc rc) (waitAfter h W t) a"
proof -
  note g = linkPreD(1)[OF p] and t = linkPreD(2,3)[OF p] and n = linked_new[OF p]
  note lvs = lvKids_simps[OF p]
  have at: "a \<noteq> t" using a t by auto
  note oa = linked_old[OF p a(1) at]
  have bo: "branchOk A lv h W a" using gmesh_branch[OF g a] .
  have aw: "a \<in> waitAfter h W t \<longleftrightarrow> a \<in> W" using at by (simp add: waitAfter_def)
  have "b \<in> addKids A lc rc \<and> b \<noteq> a \<and> BaseNeighbor (linked h t lc rc b) = Some a
        \<and> lvKids lv t lc rc b = lvKids lv t lc rc a
        \<and> (if a \<in> W then halfSplit (linked h t lc rc) a
            else \<not> IsLeaf (linked h t lc rc b) \<and> crossed (linked h t lc rc) a b)"
    if b: "BaseNeighbor (h a) = Some b" for b
  proof -
    from bo b have f: "b \<in> A" "b \<noteq> a" "BaseNeighbor (h b) = Some a" "lv b = lv a"
      and i: "if a \<in> W then halfSplit h a else \<not> IsLeaf (h b) \<and> crossed h a b"
      unfolding branchOk_def by auto
    have bb: "BaseNeighbor (linked h t lc rc b) = Some a"
    proof (cases "b = t")
      case True
      then show ?thesis using f(3) by (simp add: n(1))
    next
      case False
      show ?thesis using back_kept(1)[OF p f(1) False at f(3)] .
    qed
    have "if a \<in> W then halfSplit (linked h t lc rc) a
            else \<not> IsLeaf (linked h t lc rc b) \<and> crossed (linked h t lc rc) a b"
    proof (cases "a \<in> W")
      case True
      then show ?thesis using halfSplit_kept[OF p a(1) True a(2)] i by simp
    next
      case False
      then have nb: "\<not> IsLeaf (h b)" and cr: "crossed h a b" using i by auto
      have bt: "b \<noteq> t" using nb t by auto
      show ?thesis using False crossed_kept[OF p a f(1) nb f(4) cr] nb
        by (simp add: linked_old[OF p f(1) bt])
    qed
    then show ?thesis using f bb lvs(3) a(1) by (simp add: addKids_def)
  qed
  then show ?thesis unfolding branchOk_def aw oa repoint_branch[OF p a(2)] by simp
qed

lemma link_gmesh:
  assumes p: "linkPre A lv h W t lc rc"
  shows "gmesh (addKids A lc rc) (lvKids lv t lc rc) (linked h t lc rc) (waitAfter h W t)"
proof (rule gmeshI)
  fix u assume "u \<in> addKids A lc rc"
  then show "kidsOk (addKids A lc rc) (lvKids lv t lc rc) (linked h t lc rc) u"
    using link_kids[OF p] by simp
next
  fix u assume "u \<in> addKids A lc rc"
  then show "slotsDistinct (linked h t lc rc u)" using link_distinct[OF p] by simp
next
  fix u assume "u \<in> addKids A lc rc" "IsLeaf (linked h t lc rc u)"
  then show "leafOk (addKids A lc rc) (lvKids lv t lc rc) (linked h t lc rc) (waitAfter h W t) u"
    using link_leaf[OF p] by simp
next
  fix u assume u: "u \<in> addKids A lc rc" "\<not> IsLeaf (linked h t lc rc u)"
  note n = linked_new[OF p]
  have "u \<noteq> lc" "u \<noteq> rc" using u(2) n(4,5) linkPreD(6)[OF p] by (auto simp: n(2,3) IsLeaf_def)
  then consider "u = t" | "u \<in> A" "u \<noteq> t" using u(1) by (auto simp: addKids_def)
  then show "branchOk (addKids A lc rc) (lvKids lv t lc rc) (linked h t lc rc) (waitAfter h W t) u"
  proof cases
    case 1
    then show ?thesis using link_branch_t[OF p] by simp
  next
    case 2
    then have "\<not> IsLeaf (h u)" using u(2) by (simp add: linked_old[OF p 2])
    then show ?thesis using link_branch_old[OF p 2(1)] by simp
  qed
qed

lemma crossPreD:
  assumes "crossPre A lv h t c ta tb ca cb"
  shows "gmesh A lv h {t, c}" "t \<in> A" "c \<in> A"
    "\<not> IsLeaf (h t)" "\<not> IsLeaf (h c)" "BaseNeighbor (h t) = Some c"
    "LeftChild (h t) = Some ta" "RightChild (h t) = Some tb"
    "LeftChild (h c) = Some ca" "RightChild (h c) = Some cb"
    "ta \<noteq> ca" "ta \<noteq> cb" "tb \<noteq> ca" "tb \<noteq> cb"
    "BaseNeighbor (h ta) \<noteq> Some cb" "BaseNeighbor (h tb) \<noteq> Some ca"
    "BaseNeighbor (h ca) \<noteq> Some tb" "BaseNeighbor (h cb) \<noteq> Some ta"
  using assms unfolding crossPre_def by simp_all

text \<open>The facts about the two half-split partners.\<close>

lemma cross_facts:
  assumes p: "crossPre A lv h t c ta tb ca cb"
  shows "c \<noteq> t" "BaseNeighbor (h c) = Some t" "lv c = lv t"
    "ta \<in> A" "tb \<in> A" "ca \<in> A" "cb \<in> A"
    "lv ta = Suc (lv t)" "lv tb = Suc (lv t)" "lv ca = Suc (lv t)" "lv cb = Suc (lv t)"
    "IsLeaf (h ta)" "IsLeaf (h tb)" "IsLeaf (h ca)" "IsLeaf (h cb)"
    "LeftNeighbor (h ta) = Some tb" "RightNeighbor (h ta) = None"
    "LeftNeighbor (h tb) = None" "RightNeighbor (h tb) = Some ta"
    "LeftNeighbor (h ca) = Some cb" "RightNeighbor (h ca) = None"
    "LeftNeighbor (h cb) = None" "RightNeighbor (h cb) = Some ca"
    "ta \<noteq> tb" "ca \<noteq> cb"
proof -
  note d = crossPreD[OF p]
  have bt: "branchOk A lv h {t, c} t" using gmesh_branch[OF d(1,2,4)] .
  then have f: "c \<noteq> t" "BaseNeighbor (h c) = Some t" "lv c = lv t" and ht: "halfSplit h t"
    using d(6)  unfolding branchOk_def by auto
  show "c \<noteq> t" "BaseNeighbor (h c) = Some t" "lv c = lv t" using f .
  have bc: "branchOk A lv h {t, c} c" using gmesh_branch[OF d(1,3,5)] .
  then have hc: "halfSplit h c" using f(2)  unfolding branchOk_def by auto
  have kt: "kidsOk A lv h t" using gmesh_kids[OF d(1,2)] .
  have kc: "kidsOk A lv h c" using gmesh_kids[OF d(1,3)] .
  show "ta \<in> A" "tb \<in> A" "lv ta = Suc (lv t)" "lv tb = Suc (lv t)"
    using kt d(7,8) unfolding kidsOk_def by auto
  show "ca \<in> A" "cb \<in> A" "lv ca = Suc (lv t)" "lv cb = Suc (lv t)"
    using kc d(9,10) f(3) unfolding kidsOk_def by auto
  show t1: "IsLeaf (h ta)" "IsLeaf (h tb)" "LeftNeighbor (h ta) = Some tb" "RightNeighbor (h ta) = None"
    "LeftNeighbor (h tb) = None" "RightNeighbor (h tb) = Some ta"
    using ht d(7,8) unfolding halfSplit_def by auto
  show c1: "IsLeaf (h ca)" "IsLeaf (h cb)" "LeftNeighbor (h ca) = Some cb" "RightNeighbor (h ca) = None"
    "LeftNeighbor (h cb) = None" "RightNeighbor (h cb) = Some ca"
    using hc d(9,10) unfolding halfSplit_def by auto
  show "ta \<noteq> tb" using t1(3,5) by auto
  show "ca \<noteq> cb" using c1(3,5) by auto
qed

lemma crossH_simps:
  assumes p: "crossPre A lv h t c ta tb ca cb"
  shows "LeftChild (crossH h ta tb ca cb x) = LeftChild (h x)"
    "RightChild (crossH h ta tb ca cb x) = RightChild (h x)"
    "IsLeaf (crossH h ta tb ca cb x) = IsLeaf (h x)"
    "BaseNeighbor (crossH h ta tb ca cb x) = BaseNeighbor (h x)"
    "LeftNeighbor (crossH h ta tb ca cb x) = (if x = tb then Some ca else if x = cb then Some ta else LeftNeighbor (h x))"
    "RightNeighbor (crossH h ta tb ca cb x) = (if x = ta then Some cb else if x = ca then Some tb else RightNeighbor (h x))"
  using crossPreD(11-14)[OF p] cross_facts(24,25)[OF p]
  by (auto simp: crossH_def IsLeaf_def)

lemma cross_back:
  assumes p: "crossPre A lv h t c ta tb ca cb"
  shows "LeftNeighbor (h x) = Some u \<Longrightarrow> LeftNeighbor (crossH h ta tb ca cb x) = Some u"
    "RightNeighbor (h x) = Some u \<Longrightarrow> RightNeighbor (crossH h ta tb ca cb x) = Some u"
  using cross_facts(17,18,21,22)[OF p] by (auto simp: crossH_simps[OF p])

lemma cross_leftOk:
  assumes p: "crossPre A lv h t c ta tb ca cb" and l: "leftOk A lv h u x"
  shows "leftOk A lv (crossH h ta tb ca cb) u x"
  using l cross_back[OF p, of x u] unfolding leftOk_def crossH_simps(3,4)[OF p] by auto

lemma cross_rightOk:
  assumes p: "crossPre A lv h t c ta tb ca cb" and l: "rightOk A lv h u x"
  shows "rightOk A lv (crossH h ta tb ca cb) u x"
  using l cross_back[OF p, of x u] unfolding rightOk_def crossH_simps(3,4)[OF p] by auto

lemma cross_baseOk:
  assumes p: "crossPre A lv h t c ta tb ca cb" and u: "IsLeaf (h u)" and l: "baseOk A lv h {t, c} u x"
  shows "baseOk A lv (crossH h ta tb ca cb) {} u x"
proof -
  note d = crossPreD[OF p] and f = cross_facts[OF p]
  have "\<not> (x \<in> {t, c} \<and> \<not> IsLeaf (h x) \<and> BaseNeighbor (h x) = Some u)"
    using d(4,5,6) f(2) u by auto
  then show ?thesis
    using l cross_back[OF p, of x u] unfolding baseOk_def crossH_simps(3,4)[OF p] by auto
qed

lemma cross_leaf:
  assumes p: "crossPre A lv h t c ta tb ca cb" and u: "u \<in> A" "IsLeaf (h u)"
  shows "leafOk A lv (crossH h ta tb ca cb) {} u"
proof -
  note d = crossPreD[OF p] and f = cross_facts[OF p] and cs = crossH_simps[OF p]
  note g = d(1)
  have B: "baseOk A lv (crossH h ta tb ca cb) {} u x" if "BaseNeighbor (h u) = Some x" for x
    using cross_baseOk[OF p u(2) gmesh_B[OF g u that]] .
  have L: "leftOk A lv (crossH h ta tb ca cb) u x"
    if x: "LeftNeighbor (crossH h ta tb ca cb u) = Some x" for x
  proof -
    consider "u = tb" "x = ca" | "u = cb" "x = ta" | "u \<noteq> tb" "u \<noteq> cb" "LeftNeighbor (h u) = Some x"
      using x unfolding cs by (auto split: if_splits)
    then show ?thesis
    proof cases
      case 1
      then show ?thesis unfolding leftOk_def cs using f d(11-14) by simp
    next
      case 2
      then show ?thesis unfolding leftOk_def cs using f d(11-14) by simp
    next
      case 3
      show ?thesis using cross_leftOk[OF p gmesh_L[OF g u 3(3)]] .
    qed
  qed
  have R: "rightOk A lv (crossH h ta tb ca cb) u x"
    if x: "RightNeighbor (crossH h ta tb ca cb u) = Some x" for x
  proof -
    consider "u = ta" "x = cb" | "u = ca" "x = tb" | "u \<noteq> ta" "u \<noteq> ca" "RightNeighbor (h u) = Some x"
      using x unfolding cs by (auto split: if_splits)
    then show ?thesis
    proof cases
      case 1
      then show ?thesis unfolding rightOk_def cs using f d(11-14) by simp
    next
      case 2
      then show ?thesis unfolding rightOk_def cs using f d(11-14) by simp
    next
      case 3
      show ?thesis using cross_rightOk[OF p gmesh_R[OF g u 3(3)]] .
    qed
  qed
  show ?thesis unfolding leafOk_def using B L R by (simp add: cs(4))
qed

lemma cross_distinct:
  assumes p: "crossPre A lv h t c ta tb ca cb" and u: "u \<in> A"
  shows "slotsDistinct (crossH h ta tb ca cb u)"
proof -
  note d = crossPreD[OF p] and f = cross_facts[OF p] and cs = crossH_simps[OF p]
  have du: "slotsDistinct (h u)" using gmesh_distinct[OF d(1) u] .
  consider "u = ta" | "u = tb" | "u = ca" | "u = cb" | "u \<noteq> ta" "u \<noteq> tb" "u \<noteq> ca" "u \<noteq> cb" by blast
  then show ?thesis
  proof cases
    case 1
    then show ?thesis using du d(11-18) f(16-25) unfolding slotsDistinct_def cs by auto
  next
    case 2
    then show ?thesis using du d(11-18) f(16-25) unfolding slotsDistinct_def cs by auto
  next
    case 3
    then show ?thesis using du d(11-18) f(16-25) unfolding slotsDistinct_def cs by auto
  next
    case 4
    then show ?thesis using du d(11-18) f(16-25) unfolding slotsDistinct_def cs by auto
  next
    case 5
    then show ?thesis using du unfolding slotsDistinct_def cs by simp
  qed
qed

lemma cross_crossed:
  assumes p: "crossPre A lv h t c ta tb ca cb" and cb: "crossed h a b"
  shows "crossed (crossH h ta tb ca cb) a b"
proof -
  note f = cross_facts[OF p] and cs = crossH_simps[OF p]
  from cb obtain al ar bl br where k: "LeftChild (h a) = Some al" "RightChild (h a) = Some ar"
     "LeftChild (h b) = Some bl" "RightChild (h b) = Some br"
     and c1: "RightNeighbor (h al) = Some br \<or> (\<exists>g. RightNeighbor (h al) = Some g \<and> LeftChild (h br) = Some g)"
     and c2: "LeftNeighbor (h ar) = Some bl \<or> (\<exists>g. LeftNeighbor (h ar) = Some g \<and> RightChild (h bl) = Some g)"
    unfolding crossed_def by blast
  have al: "al \<noteq> ta" "al \<noteq> ca" using c1 f(17,21) by auto
  have ar: "ar \<noteq> tb" "ar \<noteq> cb" using c2 f(18,22) by auto
  show ?thesis unfolding crossed_def cs using k c1 c2 al ar by simp
qed

lemma cross_branch:
  assumes p: "crossPre A lv h t c ta tb ca cb" and a: "a \<in> A" "\<not> IsLeaf (h a)"
  shows "branchOk A lv (crossH h ta tb ca cb) {} a"
proof -
  note d = crossPreD[OF p] and f = cross_facts[OF p] and cs = crossH_simps[OF p]
  have bo: "branchOk A lv h {t, c} a" using gmesh_branch[OF d(1) a] .
  consider "a = t" | "a = c" | "a \<noteq> t" "a \<noteq> c" by blast
  then show ?thesis
  proof cases
    case 1
    have "crossed (crossH h ta tb ca cb) t c"
      unfolding crossed_def cs using d(7-14) f(24,25) by simp
    then show ?thesis unfolding 1 branchOk_def cs using d(2-6) f(1,2,3) by simp
  next
    case 2
    have "crossed (crossH h ta tb ca cb) c t"
      unfolding crossed_def cs using d(7-14) f(24,25) by simp
    then show ?thesis unfolding 2 branchOk_def cs using d(2-6) f(1,2,3) by simp
  next
    case 3
    then have "a \<notin> {t, c}" by simp
    then have "\<And>b. BaseNeighbor (h a) = Some b \<Longrightarrow>
         b \<in> A \<and> b \<noteq> a \<and> BaseNeighbor (h b) = Some a \<and> lv b = lv a \<and> \<not> IsLeaf (h b) \<and> crossed h a b"
      using bo unfolding branchOk_def by simp
    then show ?thesis unfolding branchOk_def cs using cross_crossed[OF p] by auto
  qed
qed

lemma cross_gmesh:
  assumes p: "crossPre A lv h t c ta tb ca cb"
  shows "gmesh A lv (crossH h ta tb ca cb) {}"
proof (rule gmeshI)
  fix u assume u: "u \<in> A"
  show "kidsOk A lv (crossH h ta tb ca cb) u"
    using gmesh_kids[OF crossPreD(1)[OF p] u] unfolding kidsOk_def crossH_simps[OF p] .
  show "slotsDistinct (crossH h ta tb ca cb u)" using cross_distinct[OF p u] .
next
  fix u assume "u \<in> A" "IsLeaf (crossH h ta tb ca cb u)"
  then show "leafOk A lv (crossH h ta tb ca cb) {} u"
    using cross_leaf[OF p] by (simp add: crossH_simps[OF p])
next
  fix u assume "u \<in> A" "\<not> IsLeaf (crossH h ta tb ca cb u)"
  then show "branchOk A lv (crossH h ta tb ca cb) {} u"
    using cross_branch[OF p] by (simp add: crossH_simps[OF p])
qed

lemma nd_setBase: "valid s a \<Longrightarrow> nd (setBase s a v) = (nd s)(a := (nd s a)\<lparr>BaseNeighbor := v\<rparr>)"
  and nd_setLeft: "valid s a \<Longrightarrow> nd (setLeft s a v) = (nd s)(a := (nd s a)\<lparr>LeftNeighbor := v\<rparr>)"
  and nd_setRight: "valid s a \<Longrightarrow> nd (setRight s a v) = (nd s)(a := (nd s a)\<lparr>RightNeighbor := v\<rparr>)"
  by (simp_all add: setBase_def setLeft_def setRight_def nd_upd)

lemma valid_set [simp]:
  "valid (setBase s a v) b = valid s b"
  "valid (setLeft s a v) b = valid s b"
  "valid (setRight s a v) b = valid s b"
  by (simp_all add: setBase_def setLeft_def setRight_def)

lemma relinkLeft_heap:
  assumes "\<And>x. LeftNeighbor (nd s t) = Some x \<Longrightarrow> valid s x"
  shows "nd (relinkLeft s t c) = relinked (nd s) t (LeftNeighbor (nd s t)) c"
  using assms
  by (auto simp: relinkLeft_def relinked_def nd_setBase nd_setLeft nd_setRight split: option.splits)

lemma relinkRight_heap:
  assumes "\<And>x. RightNeighbor (nd s t) = Some x \<Longrightarrow> valid s x"
  shows "nd (relinkRight s t c) = relinkedR (nd s) t (RightNeighbor (nd s t)) c"
  using assms
  by (auto simp: relinkRight_def relinkedR_def nd_setBase nd_setLeft nd_setRight split: option.splits)

lemma valid_relink [simp]:
  "valid (relinkLeft s t c) b = valid s b"
  "valid (relinkRight s t c) b = valid s b"
  by (simp_all add: relinkLeft_def relinkRight_def split: option.splits)

lemma linkChildren_steps:
  assumes v: "valid s t" "valid s lc" "valid s rc"
    and ne: "t \<noteq> lc" "t \<noteq> rc" "lc \<noteq> rc"
    and L: "\<And>x. LeftNeighbor (nd s t) = Some x \<Longrightarrow> valid s x"
    and R: "\<And>x. RightNeighbor (nd s t) = Some x \<Longrightarrow> valid s x"
  shows "nd (linkChildren s t lc rc) =
     relinkedR (relinked (kidsLinked (nd s) t lc rc) t (LeftNeighbor (nd s t)) lc) t (RightNeighbor (nd s t)) rc"
proof -
  let ?s1 = "setBase s lc (LeftNeighbor (nd s t))"
  let ?s2 = "setLeft ?s1 lc (Some rc)"
  let ?s3 = "setBase ?s2 rc (RightNeighbor (nd ?s2 t))"
  let ?s4 = "setRight ?s3 rc (Some lc)"
  have h4: "nd ?s4 = kidsLinked (nd s) t lc rc"
    using v ne by (simp add: nd_setBase nd_setLeft nd_setRight kidsLinked_def fun_upd_def fun_eq_iff)
  have t4: "nd ?s4 t = nd s t" using ne by (simp add: h4 kidsLinked_def)
  let ?s5 = "relinkLeft ?s4 t lc"
  have h5: "nd ?s5 = relinked (nd ?s4) t (LeftNeighbor (nd s t)) lc"
    using relinkLeft_heap[of ?s4 t lc] L by (simp add: t4)
  have t5: "RightNeighbor (nd ?s5 t) = RightNeighbor (nd s t)"
    unfolding h5 using t4 by (auto simp: relinked_def split: option.splits)
  have h6: "nd (relinkRight ?s5 t rc) = relinkedR (nd ?s5) t (RightNeighbor (nd s t)) rc"
    using relinkRight_heap[of ?s5 t rc] R by (simp add: t5)
  show ?thesis unfolding linkChildren_def Let_def h6 h5 h4 ..
qed

lemma relinked_distinct:
  assumes d: "slotsDistinct (k l)"
  shows "relinked k t (Some l) c =
     k(l := (k l)\<lparr>BaseNeighbor := rp t c (BaseNeighbor (k l)), LeftNeighbor := rp t c (LeftNeighbor (k l)),
                   RightNeighbor := rp t c (RightNeighbor (k l))\<rparr>)"
    "relinkedR k t (Some l) c =
     k(l := (k l)\<lparr>BaseNeighbor := rp t c (BaseNeighbor (k l)), LeftNeighbor := rp t c (LeftNeighbor (k l)),
                   RightNeighbor := rp t c (RightNeighbor (k l))\<rparr>)"
proof -
  consider "BaseNeighbor (k l) = Some t" | "BaseNeighbor (k l) \<noteq> Some t" "LeftNeighbor (k l) = Some t"
    | "BaseNeighbor (k l) \<noteq> Some t" "LeftNeighbor (k l) \<noteq> Some t" "RightNeighbor (k l) = Some t"
    | "BaseNeighbor (k l) \<noteq> Some t" "LeftNeighbor (k l) \<noteq> Some t" "RightNeighbor (k l) \<noteq> Some t"
    by blast
  then show "relinked k t (Some l) c =
     k(l := (k l)\<lparr>BaseNeighbor := rp t c (BaseNeighbor (k l)), LeftNeighbor := rp t c (LeftNeighbor (k l)),
                   RightNeighbor := rp t c (RightNeighbor (k l))\<rparr>)"
  proof cases
    case 1
    then show ?thesis using distinctD(1,2)[OF d 1] by (simp add: relinked_def rp_def)
  next
    case 2
    then show ?thesis using distinctD(3)[OF d 2(2)] by (simp add: relinked_def rp_def)
  next
    case 3
    then show ?thesis by (simp add: relinked_def rp_def)
  next
    case 4
    then show ?thesis by (simp add: relinked_def rp_def)
  qed
  consider "BaseNeighbor (k l) = Some t" | "BaseNeighbor (k l) \<noteq> Some t" "LeftNeighbor (k l) = Some t"
    | "BaseNeighbor (k l) \<noteq> Some t" "LeftNeighbor (k l) \<noteq> Some t" "RightNeighbor (k l) = Some t"
    | "BaseNeighbor (k l) \<noteq> Some t" "LeftNeighbor (k l) \<noteq> Some t" "RightNeighbor (k l) \<noteq> Some t"
    by blast
  then show "relinkedR k t (Some l) c =
     k(l := (k l)\<lparr>BaseNeighbor := rp t c (BaseNeighbor (k l)), LeftNeighbor := rp t c (LeftNeighbor (k l)),
                   RightNeighbor := rp t c (RightNeighbor (k l))\<rparr>)"
  proof cases
    case 1
    then show ?thesis using distinctD(1,2)[OF d 1] by (simp add: relinkedR_def rp_def)
  next
    case 2
    then show ?thesis using distinctD(3)[OF d 2(2)] by (simp add: relinkedR_def rp_def)
  next
    case 3
    then show ?thesis by (simp add: relinkedR_def rp_def)
  next
    case 4
    then show ?thesis by (simp add: relinkedR_def rp_def)
  qed
qed

lemma relinked_None [simp]: "relinked k t None c = k" "relinkedR k t None c = k"
  by (simp_all add: relinked_def relinkedR_def)

lemma repoint_cases:
  "LeftNeighbor (h t) = Some x \<Longrightarrow> repoint h t lc rc x v = rp t lc v"
  "LeftNeighbor (h t) \<noteq> Some x \<Longrightarrow> RightNeighbor (h t) = Some x \<Longrightarrow> repoint h t lc rc x v = rp t rc v"
  "LeftNeighbor (h t) \<noteq> Some x \<Longrightarrow> RightNeighbor (h t) \<noteq> Some x \<Longrightarrow> repoint h t lc rc x v = v"
  by (simp_all add: repoint_def rp_def)

lemma linked_code:
  assumes p: "linkPre A lv h W t lc rc"
    and z: "h lc = zeroNode" "h rc = zeroNode"
    and h2: "h2 = h(t := (h t)\<lparr>LeftChild := Some lc, RightChild := Some rc\<rparr>)"
  shows "relinkedR (relinked (kidsLinked h2 t lc rc) t (LeftNeighbor (h2 t)) lc) t (RightNeighbor (h2 t)) rc
           = linked h t lc rc"
proof -
  note n = linked_new[OF p]
  note g = linkPreD(1)[OF p]
  have t2: "LeftNeighbor (h2 t) = LeftNeighbor (h t)" "RightNeighbor (h2 t) = RightNeighbor (h t)"
    by (simp_all add: h2)
  define k where "k = kidsLinked h2 t lc rc"
  have kt: "k t = linked h t lc rc t" using n(4,5) by (simp add: k_def kidsLinked_def h2 n(1))
  have kl: "k lc = linked h t lc rc lc"
    using n(4,5) linkPreD(6)[OF p] z by (simp add: k_def kidsLinked_def h2 n(2) zeroNode_def)
  have kr: "k rc = linked h t lc rc rc"
    using n(4,5) linkPreD(6)[OF p] z by (simp add: k_def kidsLinked_def h2 n(3) zeroNode_def)
  have ko: "\<And>y. y \<noteq> t \<Longrightarrow> y \<noteq> lc \<Longrightarrow> y \<noteq> rc \<Longrightarrow> k y = h y"
    by (simp add: k_def kidsLinked_def h2)
  have lo: "\<And>y. y \<noteq> t \<Longrightarrow> y \<noteq> lc \<Longrightarrow> y \<noteq> rc \<Longrightarrow>
      linked h t lc rc y = (h y)\<lparr>BaseNeighbor := repoint h t lc rc y (BaseNeighbor (h y)),
                LeftNeighbor := repoint h t lc rc y (LeftNeighbor (h y)),
                RightNeighbor := repoint h t lc rc y (RightNeighbor (h y))\<rparr>"
    by (simp add: linked_def)
  have goal: "relinkedR (relinked k t (LeftNeighbor (h t)) lc) t (RightNeighbor (h t)) rc x = linked h t lc rc x" for x
  proof (cases "LeftNeighbor (h t)")
    case None
    note ln = None
    show ?thesis
    proof (cases "RightNeighbor (h t)")
      case None
      have "x \<noteq> t \<Longrightarrow> x \<noteq> lc \<Longrightarrow> x \<noteq> rc \<Longrightarrow> linked h t lc rc x = h x"
        using lo[of x] by (simp add: repoint_cases(3) ln None)
      then show ?thesis unfolding ln None relinked_None using kt kl kr ko[of x] by metis
    next
      case (Some r)
      note rt = right_of_t[OF p Some]
      have dr: "slotsDistinct (k r)" using gmesh_distinct[OF g rt(1)] ko[OF rt(2,4,5)] by simp
      have a: "x \<noteq> t \<Longrightarrow> x \<noteq> lc \<Longrightarrow> x \<noteq> rc \<Longrightarrow> x \<noteq> r \<Longrightarrow> linked h t lc rc x = h x"
        using lo[of x] by (simp add: repoint_cases(3) ln Some)
      have b: "linked h t lc rc r = (h r)\<lparr>BaseNeighbor := rp t rc (BaseNeighbor (h r)),
           LeftNeighbor := rp t rc (LeftNeighbor (h r)), RightNeighbor := rp t rc (RightNeighbor (h r))\<rparr>"
        using lo[OF rt(2,4,5)] by (simp add: repoint_cases(2) ln Some)
      have e: "relinkedR k t (Some r) rc = k(r := (h r)\<lparr>BaseNeighbor := rp t rc (BaseNeighbor (h r)),
           LeftNeighbor := rp t rc (LeftNeighbor (h r)), RightNeighbor := rp t rc (RightNeighbor (h r))\<rparr>)"
        unfolding relinked_distinct(2)[of k r, OF dr] ko[OF rt(2,4,5)] ..
      have kx: "k x = linked h t lc rc x" if "x \<noteq> r" using kt kl kr ko[of x] a that by metis
      show ?thesis unfolding ln Some relinked_None e using kx b by (cases "x = r") simp_all
    qed
  next
    case (Some l)
    note ln = Some
    note lt = left_of_t[OF p Some]
    have dl: "slotsDistinct (k l)" using gmesh_distinct[OF g lt(1)] ko[OF lt(2,4,5)] by simp
    have b: "linked h t lc rc l = (h l)\<lparr>BaseNeighbor := rp t lc (BaseNeighbor (h l)),
           LeftNeighbor := rp t lc (LeftNeighbor (h l)), RightNeighbor := rp t lc (RightNeighbor (h l))\<rparr>"
      using lo[OF lt(2,4,5)] by (simp add: repoint_cases(1) ln)
    show ?thesis
    proof (cases "RightNeighbor (h t)")
      case None
      have a: "x \<noteq> t \<Longrightarrow> x \<noteq> lc \<Longrightarrow> x \<noteq> rc \<Longrightarrow> x \<noteq> l \<Longrightarrow> linked h t lc rc x = h x"
        using lo[of x] by (simp add: repoint_cases(3) ln None)
      have e: "relinked k t (Some l) lc = k(l := (h l)\<lparr>BaseNeighbor := rp t lc (BaseNeighbor (h l)),
           LeftNeighbor := rp t lc (LeftNeighbor (h l)), RightNeighbor := rp t lc (RightNeighbor (h l))\<rparr>)"
        unfolding relinked_distinct(1)[of k l, OF dl] ko[OF lt(2,4,5)] ..
      have kx: "k x = linked h t lc rc x" if "x \<noteq> l" using kt kl kr ko[of x] a that by metis
      show ?thesis unfolding ln None relinked_None e using kx b by (cases "x = l") simp_all
    next
      case (Some r)
      note rt = right_of_t[OF p Some]
      have lr: "l \<noteq> r" using lt(7) Some by auto
      define k1 where "k1 = relinked k t (Some l) lc"
      have k1: "k1 = k(l := (h l)\<lparr>BaseNeighbor := rp t lc (BaseNeighbor (h l)),
           LeftNeighbor := rp t lc (LeftNeighbor (h l)), RightNeighbor := rp t lc (RightNeighbor (h l))\<rparr>)"
        unfolding k1_def relinked_distinct(1)[of k l, OF dl] ko[OF lt(2,4,5)] ..
      have k1r: "k1 r = h r" using lr ko[OF rt(2,4,5)] by (simp add: k1)
      have dr: "slotsDistinct (k1 r)" using gmesh_distinct[OF g rt(1)] k1r by simp
      have a: "x \<noteq> t \<Longrightarrow> x \<noteq> lc \<Longrightarrow> x \<noteq> rc \<Longrightarrow> x \<noteq> l \<Longrightarrow> x \<noteq> r \<Longrightarrow> linked h t lc rc x = h x"
        using lo[of x] by (simp add: repoint_cases(3) ln Some)
      have c: "linked h t lc rc r = (h r)\<lparr>BaseNeighbor := rp t rc (BaseNeighbor (h r)),
           LeftNeighbor := rp t rc (LeftNeighbor (h r)), RightNeighbor := rp t rc (RightNeighbor (h r))\<rparr>"
        using lo[OF rt(2,4,5)] lr by (simp add: repoint_cases(2) ln Some)
      have e: "relinkedR k1 t (Some r) rc = k1(r := (h r)\<lparr>BaseNeighbor := rp t rc (BaseNeighbor (h r)),
           LeftNeighbor := rp t rc (LeftNeighbor (h r)), RightNeighbor := rp t rc (RightNeighbor (h r))\<rparr>)"
        unfolding relinked_distinct(2)[of k1 r, OF dr] k1r ..
      have kx: "k x = linked h t lc rc x" if "x \<noteq> l" "x \<noteq> r" using kt kl kr ko[of x] a that by metis
      have "relinkedR k1 t (Some r) rc x = linked h t lc rc x"
        unfolding e using kx b c lr by (cases "x = r"; cases "x = l") (simp_all add: k1)
      then show ?thesis unfolding ln Some k1_def .
    qed
  qed
  show ?thesis unfolding t2 k_def[symmetric] using goal by (rule ext)
qed

lemma crossLink_heap:
  assumes v: "valid s lc" "valid s rc" "valid s blc" "valid s brc"
    and ne: "lc \<noteq> rc" "lc \<noteq> blc" "lc \<noteq> brc" "rc \<noteq> blc" "rc \<noteq> brc" "blc \<noteq> brc"
    and k: "LeftChild (nd s b) = Some blc" "RightChild (nd s b) = Some brc"
  shows "nd (crossLink s lc rc b blc brc) = crossH (nd s) lc rc blc brc"
proof -
  let ?s1 = "setRight s blc (Some rc)"
  let ?s2 = "setLeft ?s1 brc (Some lc)"
  have c2: "RightChild (nd ?s2 b) = Some brc"
    using v k(2) by (auto simp: nd_setLeft nd_setRight)
  let ?s3 = "setRight ?s2 lc (Some brc)"
  have c3: "LeftChild (nd ?s3 b) = Some blc"
    using v k(1) by (auto simp: nd_setLeft nd_setRight)
  have "nd (setLeft ?s3 rc (Some blc)) = crossH (nd s) lc rc blc brc"
    using v ne by (auto simp: nd_setLeft nd_setRight crossH_def fun_eq_iff)
  then show ?thesis unfolding crossLink_def Let_def c2 c3 .
qed

lemma pool_set [simp]:
  "length (pool (currentPool (setBase s a v))) = length (pool (currentPool s))"
  "nextTriNodeIdx (currentPool (setBase s a v)) = nextTriNodeIdx (currentPool s)"
  "length (pool (currentPool (setLeft s a v))) = length (pool (currentPool s))"
  "nextTriNodeIdx (currentPool (setLeft s a v)) = nextTriNodeIdx (currentPool s)"
  "length (pool (currentPool (setRight s a v))) = length (pool (currentPool s))"
  "nextTriNodeIdx (currentPool (setRight s a v)) = nextTriNodeIdx (currentPool s)"
  by (simp_all add: setBase_def setLeft_def setRight_def)

lemma pool_relink [simp]:
  "length (pool (currentPool (relinkLeft s t c))) = length (pool (currentPool s))"
  "nextTriNodeIdx (currentPool (relinkLeft s t c)) = nextTriNodeIdx (currentPool s)"
  "length (pool (currentPool (relinkRight s t c))) = length (pool (currentPool s))"
  "nextTriNodeIdx (currentPool (relinkRight s t c)) = nextTriNodeIdx (currentPool s)"
  by (simp_all add: relinkLeft_def relinkRight_def split: option.splits)

lemma pool_linkChildren [simp]:
  "length (pool (currentPool (linkChildren s t lc rc))) = length (pool (currentPool s))"
  "nextTriNodeIdx (currentPool (linkChildren s t lc rc)) = nextTriNodeIdx (currentPool s)"
  by (simp_all add: linkChildren_def Let_def)

lemma pool_crossLink [simp]:
  "length (pool (currentPool (crossLink s lc rc b blc brc))) = length (pool (currentPool s))"
  "nextTriNodeIdx (currentPool (crossLink s lc rc b blc brc)) = nextTriNodeIdx (currentPool s)"
  by (simp_all add: crossLink_def Let_def)

lemma poolOk_nd:
  "poolOk w s = (w \<le> nextTriNodeIdx (currentPool s)
      \<and> nextTriNodeIdx (currentPool s) \<le> length (pool (currentPool s))
      \<and> (\<forall>i. nextTriNodeIdx (currentPool s) \<le> i \<and> i < length (pool (currentPool s))
             \<longrightarrow> nd s (Pool i) = zeroNode))"
  by (simp add: poolOk_def nd_def)

lemma nodes_same:
  "nextTriNodeIdx (currentPool s') = nextTriNodeIdx (currentPool s) \<Longrightarrow> nodes w s' = nodes w s"
  by (auto simp: nodes_def live_def split: addr.splits)

lemma nodes_valid: "poolOk w s \<Longrightarrow> a \<in> nodes w s \<Longrightarrow> valid s a"
  by (simp add: nodes_def live_valid)

lemma allocChildren_fail:
  assumes "OutOfNodes (currentPool s)"
  shows "\<exists>s2. allocChildren s t = (False, s2)
     \<and> nextTriNodeIdx (currentPool s2) = nextTriNodeIdx (currentPool s)
     \<and> length (pool (currentPool s2)) = length (pool (currentPool s))"
  using assms by (simp add: allocChildren_def Allocate_def)

lemma allocChildren_ok:
  assumes pk: "poolOk w s" and t: "t \<in> nodes w s" and o: "\<not> OutOfNodes (currentPool s)"
    and n: "n = nextTriNodeIdx (currentPool s)"
  shows "\<exists>s2. allocChildren s t = (True, s2) \<and> poolOk w s2
     \<and> nd s2 = (nd s)(t := (nd s t)\<lparr>LeftChild := Some (Pool n), RightChild := Some (Pool (Suc n))\<rparr>)
     \<and> nextTriNodeIdx (currentPool s2) = n + 2
     \<and> length (pool (currentPool s2)) = length (pool (currentPool s))
     \<and> nodes w s2 = addKids (nodes w s) (Pool n) (Pool (Suc n))"
    and "nd s (Pool n) = zeroNode" "nd s (Pool (Suc n)) = zeroNode"
      "Pool n \<notin> nodes w s" "Pool (Suc n) \<notin> nodes w s"
proof -
  let ?p = "(currentPool s)\<lparr>nextTriNodeIdx := n + 2\<rparr>"
  let ?s1 = "s\<lparr>currentPool := ?p\<rparr>"
  let ?s2 = "upd ?s1 t (\<lambda>m. m\<lparr>LeftChild := Some (Pool n), RightChild := Some (Pool (Suc n))\<rparr>)"
  have len: "n + 2 \<le> length (pool (currentPool s))" using o n by (simp add: OutOfNodes_def)
  have a: "allocChildren s t = (True, ?s2)"
    using o n by (simp add: allocChildren_def Allocate_def Let_def)
  have v: "valid ?s1 t" using nodes_valid[OF pk t] by (simp add: valid_def split: addr.splits)
  have nd1: "nd ?s1 = nd s" by (rule ext) (simp add: nd_def split: addr.splits)
  have h: "nd ?s2 = (nd s)(t := (nd s t)\<lparr>LeftChild := Some (Pool n), RightChild := Some (Pool (Suc n))\<rparr>)"
    unfolding nd_upd[OF v] nd1 ..
  have tl: "\<And>i. t = Pool i \<Longrightarrow> i < n" using t n by (simp add: nodes_def live_def)
  have pk2: "poolOk w ?s2"
    unfolding poolOk_nd h using pk len n tl by (auto simp: poolOk_nd)
  have nx: "nextTriNodeIdx (currentPool ?s2) = n + 2" by simp
  have ln: "length (pool (currentPool ?s2)) = length (pool (currentPool s))" by simp
  have ns: "nodes w ?s2 = addKids (nodes w s) (Pool n) (Pool (Suc n))"
    using pk n by (auto simp: nodes_def live_def addKids_def poolOk_def split: addr.splits)
  show "\<exists>s2. allocChildren s t = (True, s2) \<and> poolOk w s2
     \<and> nd s2 = (nd s)(t := (nd s t)\<lparr>LeftChild := Some (Pool n), RightChild := Some (Pool (Suc n))\<rparr>)
     \<and> nextTriNodeIdx (currentPool s2) = n + 2
     \<and> length (pool (currentPool s2)) = length (pool (currentPool s))
     \<and> nodes w s2 = addKids (nodes w s) (Pool n) (Pool (Suc n))"
    using a pk2 h nx ln ns by blast
  show "nd s (Pool n) = zeroNode" "nd s (Pool (Suc n)) = zeroNode"
    using pk len n by (simp_all add: poolOk_nd)
  show "Pool n \<notin> nodes w s" "Pool (Suc n) \<notin> nodes w s"
    using n by (simp_all add: nodes_def live_def)
qed

lemma grow_refl: "grow k A lv h A lv h"
  by (simp add: grow_def)

lemma growD:
  assumes "grow k A lv h A' lv' h'"
  shows "A \<subseteq> A'" "\<And>a. a \<in> A \<Longrightarrow> lv' a = lv a"
    "\<And>u. u \<in> A \<Longrightarrow> \<not> IsLeaf (h u) \<Longrightarrow> \<not> IsLeaf (h' u)"
    "\<And>u. u \<in> A \<Longrightarrow> IsLeaf (h u) \<Longrightarrow> k < lv u \<Longrightarrow> IsLeaf (h' u)"
    "\<And>u. u \<in> A \<Longrightarrow> IsLeaf (h u) \<Longrightarrow> k < lv u \<Longrightarrow>
        BaseNeighbor (h' u) = BaseNeighbor (h u)
      \<or> (\<exists>c. BaseNeighbor (h' u) = Some c \<and> c \<in> A' \<and> c \<notin> A \<and> lv' c = lv u)"
  using assms unfolding grow_def by blast+

lemma growI:
  assumes "A \<subseteq> A'" "\<And>a. a \<in> A \<Longrightarrow> lv' a = lv a"
    "\<And>u. u \<in> A \<Longrightarrow> \<not> IsLeaf (h u) \<Longrightarrow> \<not> IsLeaf (h' u)"
    "\<And>u. u \<in> A \<Longrightarrow> IsLeaf (h u) \<Longrightarrow> k < lv u \<Longrightarrow> IsLeaf (h' u)"
    "\<And>u. u \<in> A \<Longrightarrow> IsLeaf (h u) \<Longrightarrow> k < lv u \<Longrightarrow>
        BaseNeighbor (h' u) = BaseNeighbor (h u)
      \<or> (\<exists>c. BaseNeighbor (h' u) = Some c \<and> c \<in> A' \<and> c \<notin> A \<and> lv' c = lv u)"
  shows "grow k A lv h A' lv' h'"
  unfolding grow_def using assms by blast

lemma grow_mono: "grow k A lv h A' lv' h' \<Longrightarrow> k \<le> k' \<Longrightarrow> grow k' A lv h A' lv' h'"
  unfolding grow_def by (meson le_less_trans)

lemma grow_trans:
  assumes a: "grow k A lv h A1 lv1 h1" and b: "grow k A1 lv1 h1 A2 lv2 h2"
  shows "grow k A lv h A2 lv2 h2"
proof (rule growI)
  show "A \<subseteq> A2" using growD(1)[OF a] growD(1)[OF b] by blast
  show l: "\<And>x. x \<in> A \<Longrightarrow> lv2 x = lv x" using growD(1,2)[OF a] growD(2)[OF b] by (metis subsetD)
  show "\<And>u. u \<in> A \<Longrightarrow> \<not> IsLeaf (h u) \<Longrightarrow> \<not> IsLeaf (h2 u)"
    using growD(1,3)[OF a] growD(3)[OF b] by (meson subsetD)
  fix u assume u: "u \<in> A" "IsLeaf (h u)" "k < lv u"
  have u1: "u \<in> A1" "IsLeaf (h1 u)" "k < lv1 u"
    using growD(1)[OF a] u growD(4)[OF a u] growD(2)[OF a u(1)] by auto
  show "IsLeaf (h2 u)" using growD(4)[OF b u1] .
  have x: "BaseNeighbor (h1 u) = BaseNeighbor (h u)
      \<or> (\<exists>c. BaseNeighbor (h1 u) = Some c \<and> c \<in> A1 \<and> c \<notin> A \<and> lv1 c = lv u)"
    using growD(5)[OF a u] .
  have y: "BaseNeighbor (h2 u) = BaseNeighbor (h1 u)
      \<or> (\<exists>c. BaseNeighbor (h2 u) = Some c \<and> c \<in> A2 \<and> c \<notin> A1 \<and> lv2 c = lv1 u)"
    using growD(5)[OF b u1] .
  from y show "BaseNeighbor (h2 u) = BaseNeighbor (h u)
      \<or> (\<exists>c. BaseNeighbor (h2 u) = Some c \<and> c \<in> A2 \<and> c \<notin> A \<and> lv2 c = lv u)"
  proof
    assume e: "BaseNeighbor (h2 u) = BaseNeighbor (h1 u)"
    from x show ?thesis
    proof
      assume "BaseNeighbor (h1 u) = BaseNeighbor (h u)"
      then show ?thesis using e by simp
    next
      assume "\<exists>c. BaseNeighbor (h1 u) = Some c \<and> c \<in> A1 \<and> c \<notin> A \<and> lv1 c = lv u"
      then obtain c where c: "BaseNeighbor (h1 u) = Some c" "c \<in> A1" "c \<notin> A" "lv1 c = lv u" by blast
      have "c \<in> A2" "lv2 c = lv u" using c growD(1,2)[OF b] by auto
      then show ?thesis using e c by simp
    qed
  next
    assume "\<exists>c. BaseNeighbor (h2 u) = Some c \<and> c \<in> A2 \<and> c \<notin> A1 \<and> lv2 c = lv1 u"
    then obtain c where c: "BaseNeighbor (h2 u) = Some c" "c \<in> A2" "c \<notin> A1" "lv2 c = lv1 u" by blast
    have "c \<notin> A" "lv2 c = lv u" using c growD(1,2)[OF a] u(1) by auto
    then show ?thesis using c by simp
  qed
qed

lemma grow_link:
  assumes p: "linkPre A lv h W t lc rc" and k: "lv t \<le> k"
  shows "grow k A lv h (addKids A lc rc) (lvKids lv t lc rc) (linked h t lc rc)"
proof (rule growI)
  note g = linkPreD(1)[OF p] and lvs = lvKids_simps[OF p]
  show "A \<subseteq> addKids A lc rc" by (auto simp: addKids_def)
  show "\<And>a. a \<in> A \<Longrightarrow> lvKids lv t lc rc a = lv a" using lvs(3) .
  show "\<not> IsLeaf (linked h t lc rc u)" if "u \<in> A" "\<not> IsLeaf (h u)" for u
  proof -
    have "u \<noteq> t" using that(2) linkPreD(3)[OF p] by auto
    then show ?thesis using that by (simp add: linked_old[OF p that(1)])
  qed
  fix u assume u: "u \<in> A" "IsLeaf (h u)" "k < lv u"
  have ut: "u \<noteq> t" using u(3) k by auto
  note o = linked_old[OF p u(1) ut]
  show "IsLeaf (linked h t lc rc u)" using u(2) by (simp add: o)
  show "BaseNeighbor (linked h t lc rc u) = BaseNeighbor (h u)
      \<or> (\<exists>c. BaseNeighbor (linked h t lc rc u) = Some c \<and> c \<in> addKids A lc rc \<and> c \<notin> A
              \<and> lvKids lv t lc rc c = lv u)"
  proof (cases "BaseNeighbor (h u) = Some t")
    case False
    then show ?thesis by (simp add: o repoint_other)
  next
    case True
    have bo: "baseOk A lv h W u t" using gmesh_B[OF g u(1,2) True] .
    have l: "lv u = Suc (lv t)"
      using bo linkPreD(3)[OF p] u(3) k unfolding baseOk_def by auto
    have "repoint h t lc rc u (Some t) = Some t \<or> repoint h t lc rc u (Some t) = Some lc
          \<or> repoint h t lc rc u (Some t) = Some rc"
      by (simp add: repoint_def)
    then show ?thesis
      using l lvs(1,2) linkPreD(4,5)[OF p] by (auto simp: o True addKids_def)
  qed
qed

lemma grow_cross:
  assumes p: "crossPre A lv h t c ta tb ca cb"
  shows "grow k A lv h A lv (crossH h ta tb ca cb)"
  by (rule growI) (simp_all add: crossH_simps[OF p])

lemma crossPre_after_link:
  assumes p: "linkPre A lv h {c} t lc rc"
    and c: "BaseNeighbor (h t) = Some c" "\<not> IsLeaf (h c)"
    and k: "LeftChild (h c) = Some ca" "RightChild (h c) = Some cb"
  shows "crossPre (addKids A lc rc) (lvKids lv t lc rc) (linked h t lc rc) t c lc rc ca cb"
proof -
  note g = linkPreD(1)[OF p] and n = linked_new[OF p] and pt = partner_of_t[OF p c(1)]
  have w: "waitAfter h {c} t = {t, c}" using c(1) by (simp add: waitAfter_def)
  have g': "gmesh (addKids A lc rc) (lvKids lv t lc rc) (linked h t lc rc) {t, c}"
    using link_gmesh[OF p] unfolding w .
  have tA: "t \<in> addKids A lc rc" "c \<in> addKids A lc rc"
    using linkPreD(2)[OF p] pt(1) by (simp_all add: addKids_def)
  have bt: "\<not> IsLeaf (linked h t lc rc t)" by (simp add: n(1) IsLeaf_def)
  note oc = linked_old[OF p pt(1,2)]
  have bc: "\<not> IsLeaf (linked h t lc rc c)" using c(2) by (simp add: oc)
  have b': "BaseNeighbor (linked h t lc rc t) = Some c" using c(1) by (simp add: n(1))
  have kt: "LeftChild (linked h t lc rc t) = Some lc" "RightChild (linked h t lc rc t) = Some rc"
    by (simp_all add: n(1))
  have kc: "LeftChild (linked h t lc rc c) = Some ca" "RightChild (linked h t lc rc c) = Some cb"
    using k by (simp_all add: oc)
  have ko: "kidsOk A lv h c" using gmesh_kids[OF g pt(1)] .
  have ka: "ca \<in> A" "cb \<in> A" "lv ca = Suc (lv t)" "lv cb = Suc (lv t)"
    using ko k pt(4) unfolding kidsOk_def by auto
  have ne: "lc \<noteq> ca" "lc \<noteq> cb" "rc \<noteq> ca" "rc \<noteq> cb"
    using ka(1,2) linkPreD(4,5)[OF p] by auto
  have bo: "branchOk A lv h {c} c" using gmesh_branch[OF g pt(1) c(2)] .
  have hs: "halfSplit h c" using bo pt(3) unfolding branchOk_def by simp
  have hk: "BaseNeighbor (h ca) = LeftNeighbor (h c)" "BaseNeighbor (h cb) = RightNeighbor (h c)"
    "IsLeaf (h ca)" "IsLeaf (h cb)"
    using hs k unfolding halfSplit_def by auto
  have dc: "slotsDistinct (h c)" using gmesh_distinct[OF g pt(1)] .
  have nl: "LeftNeighbor (h c) \<noteq> Some t" "RightNeighbor (h c) \<noteq> Some t"
    using distinctD(1,2)[OF dc pt(3)] by auto
  have x1: "BaseNeighbor (linked h t lc rc lc) \<noteq> Some cb"
  proof
    assume "BaseNeighbor (linked h t lc rc lc) = Some cb"
    then have l: "LeftNeighbor (h t) = Some cb" by (simp add: n(2))
    have "BaseNeighbor (h cb) = Some t" using left_of_t(6)[OF p l] ka(4) by auto
    then show False using hk(2) nl(2) by simp
  qed
  have x2: "BaseNeighbor (linked h t lc rc rc) \<noteq> Some ca"
  proof
    assume "BaseNeighbor (linked h t lc rc rc) = Some ca"
    then have r: "RightNeighbor (h t) = Some ca" by (simp add: n(3))
    have "BaseNeighbor (h ca) = Some t" using right_of_t(6)[OF p r] ka(3) by auto
    then show False using hk(1) nl(1) by simp
  qed
  have cat: "ca \<noteq> t" "cb \<noteq> t" using ka(3,4) by auto
  have x3: "BaseNeighbor (linked h t lc rc ca) \<noteq> Some rc"
  proof
    assume a: "BaseNeighbor (linked h t lc rc ca) = Some rc"
    have "BaseNeighbor (linked h t lc rc ca) = BaseNeighbor (h ca)"
      using nl(1) by (simp add: linked_old[OF p ka(1) cat(1)] hk(1) repoint_other)
    then have "BaseNeighbor (h ca) = Some rc" using a by simp
    then have "rc \<in> A" using gmesh_B[OF g ka(1) hk(3)] unfolding baseOk_def by blast
    then show False using linkPreD(5)[OF p] by simp
  qed
  have x4: "BaseNeighbor (linked h t lc rc cb) \<noteq> Some lc"
  proof
    assume a: "BaseNeighbor (linked h t lc rc cb) = Some lc"
    have "BaseNeighbor (linked h t lc rc cb) = BaseNeighbor (h cb)"
      using nl(2) by (simp add: linked_old[OF p ka(2) cat(2)] hk(2) repoint_other)
    then have "BaseNeighbor (h cb) = Some lc" using a by simp
    then have "lc \<in> A" using gmesh_B[OF g ka(2) hk(4)] unfolding baseOk_def by blast
    then show False using linkPreD(4)[OF p] by simp
  qed
  show ?thesis
    unfolding crossPre_def using g' tA bt bc b' kt kc ne x1 x2 x3 x4 by simp
qed

lemma link_state:
  assumes pk: "poolOk w s" and p: "linkPre (nodes w s) lv (nd s) W t lc rc"
    and o: "\<not> OutOfNodes (currentPool s)"
    and lc: "lc = Pool (nextTriNodeIdx (currentPool s))"
    and rc: "rc = Pool (Suc (nextTriNodeIdx (currentPool s)))"
  shows "\<exists>s2. allocChildren s t = (True, s2)
       \<and> LeftChild (nd s2 t) = Some lc \<and> RightChild (nd s2 t) = Some rc
       \<and> nd (linkChildren s2 t lc rc) = linked (nd s) t lc rc
       \<and> poolOk w (linkChildren s2 t lc rc)
       \<and> nextTriNodeIdx (currentPool (linkChildren s2 t lc rc)) = nextTriNodeIdx (currentPool s) + 2
       \<and> length (pool (currentPool (linkChildren s2 t lc rc))) = length (pool (currentPool s))
       \<and> nodes w (linkChildren s2 t lc rc) = addKids (nodes w s) lc rc"
proof -
  define n where "n = nextTriNodeIdx (currentPool s)"
  note t = linkPreD(2)[OF p]
  note al = allocChildren_ok[OF pk t o n_def]
  from al(1) obtain s2 where s2: "allocChildren s t = (True, s2)" "poolOk w s2"
    "nd s2 = (nd s)(t := (nd s t)\<lparr>LeftChild := Some lc, RightChild := Some rc\<rparr>)"
    "nextTriNodeIdx (currentPool s2) = n + 2"
    "length (pool (currentPool s2)) = length (pool (currentPool s))"
    "nodes w s2 = addKids (nodes w s) lc rc"
    unfolding lc rc n_def by blast
  let ?s3 = "linkChildren s2 t lc rc"
  note nw = linked_new[OF p]
  have z: "nd s lc = zeroNode" "nd s rc = zeroNode" using al(2,3) by (simp_all add: lc rc n_def)
  have k2: "LeftChild (nd s2 t) = Some lc" "RightChild (nd s2 t) = Some rc" by (simp_all add: s2(3))
  have t2: "LeftNeighbor (nd s2 t) = LeftNeighbor (nd s t)" "RightNeighbor (nd s2 t) = RightNeighbor (nd s t)"
    by (simp_all add: s2(3))
  have in2: "\<And>x. x \<in> nodes w s \<Longrightarrow> valid s2 x"
    using nodes_valid[OF s2(2)] by (simp add: s2(6) addKids_def)
  have v: "valid s2 t" "valid s2 lc" "valid s2 rc"
    using nodes_valid[OF s2(2)] t by (simp_all add: s2(6) addKids_def)
  have L: "\<And>x. LeftNeighbor (nd s2 t) = Some x \<Longrightarrow> valid s2 x"
    using left_of_t(1)[OF p] in2 by (simp add: t2)
  have R: "\<And>x. RightNeighbor (nd s2 t) = Some x \<Longrightarrow> valid s2 x"
    using right_of_t(1)[OF p] in2 by (simp add: t2)
  have h3: "nd ?s3 = linked (nd s) t lc rc"
    by (rule trans[OF linkChildren_steps[OF v nw(4,5) linkPreD(6)[OF p] L R] linked_code[OF p z s2(3)]])
  have nx: "nextTriNodeIdx (currentPool ?s3) = nextTriNodeIdx (currentPool s) + 2"
    by (simp add: s2(4) n_def)
  have ln: "length (pool (currentPool ?s3)) = length (pool (currentPool s))" by (simp add: s2(5))
  have ns: "nodes w ?s3 = addKids (nodes w s) lc rc"
    using nodes_same[of ?s3 s2 w] by (simp add: s2(6))
  have zero: "nd ?s3 (Pool i) = zeroNode"
    if i: "nextTriNodeIdx (currentPool ?s3) \<le> i" "i < length (pool (currentPool ?s3))" for i
  proof -
    have i2: "nextTriNodeIdx (currentPool s) + 2 \<le> i" "i < length (pool (currentPool s))"
      using i unfolding nx ln by simp_all
    have a: "Pool i \<noteq> lc" "Pool i \<noteq> rc" using i2(1) by (simp_all add: lc rc)
    have b: "Pool i \<noteq> t" using t i2(1) by (auto simp: nodes_def live_def)
    have c: "nd s (Pool i) = zeroNode" using pk i2 by (simp add: poolOk_nd)
    show ?thesis unfolding h3 using a b by (simp add: linked_def c zeroNode_def repoint_def)
  qed
  have pk3: "poolOk w ?s3"
    unfolding poolOk_nd using zero s2(2) by (simp add: poolOk_nd s2(4,5))
  show ?thesis using s2(1) k2 h3 pk3 nx ln ns by blast
qed

lemma cross_state:
  assumes pk: "poolOk w s" and p: "crossPre (nodes w s) lv (nd s) t c ta tb ca cb"
  shows "nd (crossLink s ta tb c ca cb) = crossH (nd s) ta tb ca cb"
    "poolOk w (crossLink s ta tb c ca cb)"
    "nodes w (crossLink s ta tb c ca cb) = nodes w s"
proof -
  note d = crossPreD[OF p] and f = cross_facts[OF p]
  have v: "valid s ta" "valid s tb" "valid s ca" "valid s cb"
    using nodes_valid[OF pk] f(4-7) by simp_all
  show h: "nd (crossLink s ta tb c ca cb) = crossH (nd s) ta tb ca cb"
    using crossLink_heap[OF v f(24) d(11,12,13,14) f(25) d(9,10)] .
  show ns: "nodes w (crossLink s ta tb c ca cb) = nodes w s" by (rule nodes_same) simp
  have zero: "nd (crossLink s ta tb c ca cb) (Pool i) = zeroNode"
    if i: "nextTriNodeIdx (currentPool s) \<le> i" "i < length (pool (currentPool s))" for i
  proof -
    have "Pool i \<notin> nodes w s" using i(1) by (simp add: nodes_def live_def)
    then have a: "Pool i \<noteq> ta" "Pool i \<noteq> tb" "Pool i \<noteq> ca" "Pool i \<noteq> cb" using f(4-7) by auto
    have "nd s (Pool i) = zeroNode" using pk i by (simp add: poolOk_nd)
    then show ?thesis unfolding h using a by (simp add: crossH_def)
  qed
  show "poolOk w (crossLink s ta tb c ca cb)"
    unfolding poolOk_nd using zero pk by (simp add: poolOk_nd)
qed

lemma allocChildren_fail_pool:
  assumes pk: "poolOk w s" and t: "t \<in> nodes w s" and o: "OutOfNodes (currentPool s)"
  shows "\<exists>s2. allocChildren s t = (False, s2) \<and> poolOk w s2
     \<and> nextTriNodeIdx (currentPool s2) = nextTriNodeIdx (currentPool s)
     \<and> length (pool (currentPool s2)) = length (pool (currentPool s))"
proof -
  have "live w s t" using t by (simp add: nodes_def)
  then have "poolOk w (upd s t (\<lambda>n. n\<lparr>LeftChild := None, RightChild := None\<rparr>))"
    using poolOk_upd[OF pk] by simp
  then show ?thesis using o by (simp add: allocChildren_def Allocate_def)
qed

lemma stepOk_fail:
  assumes "poolOk w s'" "nextTriNodeIdx (currentPool s') = nextTriNodeIdx (currentPool s)"
    "length (pool (currentPool s')) = length (pool (currentPool s))" "OutOfNodes (currentPool s)"
  shows "stepOk w k s lv t s'"
  using assms by (simp add: stepOk_def OutOfNodes_def)

lemma partner_call:
  assumes pk: "poolOk w s" and g: "gmesh (nodes w s) lv (nd s) {c}"
    and t: "t \<in> nodes w s" "IsLeaf (nd s t)" and c: "BaseNeighbor (nd s t) = Some c" "\<not> IsLeaf (nd s c)"
    and k: "lv t \<le> k"
  shows "\<exists>ok s'. Split (Suc m) t s = Some (Inr (ok, s')) \<and> stepOk w k s lv t s'"
proof -
  let ?A = "nodes w s" and ?h = "nd s"
  have bo: "baseOk ?A lv ?h {c} t c" using gmesh_B[OF g t c(1)] .
  have cA: "c \<in> ?A" and m: "BaseNeighbor (?h c) = Some t"
    using bo c(2) unfolding baseOk_def by auto
  have pre: "Split (Suc m) t s =
     (case allocChildren s t of
               (ok, s2) \<Rightarrow>
                 if \<not> ok then Some (Inr (False, s2))
                 else
                   deref (LeftChild (nd s2 t)) (\<lambda>lc.
                   deref (RightChild (nd s2 t)) (\<lambda>rc.
                     let s3 = linkChildren s2 t lc rc
                     in (case BaseNeighbor (nd s3 t) of
                           Some b \<Rightarrow>
                             if IsBranch (nd s3 b)
                             then deref (LeftChild (nd s3 b)) (\<lambda>blc.
                                  deref (RightChild (nd s3 b)) (\<lambda>brc.
                                    Some (Inr (True, crossLink s3 lc rc b blc brc))))
                             else bindR (Split m b s3) (\<lambda>(ok, s'). Some (Inr (True, s')))
                         | None \<Rightarrow>
                             Some (Inr (True, setLeft (setRight s3 lc None) rc None))))))"
    using t(2) c(1) m by (simp add: bindR_def)
  show ?thesis
  proof (cases "OutOfNodes (currentPool s)")
    case True
    from allocChildren_fail_pool[OF pk t(1) True] obtain s2 where
      s2: "allocChildren s t = (False, s2)" "poolOk w s2"
       "nextTriNodeIdx (currentPool s2) = nextTriNodeIdx (currentPool s)"
       "length (pool (currentPool s2)) = length (pool (currentPool s))" by blast
    have "Split (Suc m) t s = Some (Inr (False, s2))" unfolding pre s2(1) by simp
    then show ?thesis using stepOk_fail[OF s2(2,3,4) True] by blast
  next
    case False
    define lc where "lc = Pool (nextTriNodeIdx (currentPool s))"
    define rc where "rc = Pool (Suc (nextTriNodeIdx (currentPool s)))"
    have fr: "lc \<notin> ?A" "rc \<notin> ?A" "lc \<noteq> rc"
      by (simp_all add: lc_def rc_def nodes_def live_def)
    have p: "linkPre ?A lv ?h {c} t lc rc"
      unfolding linkPre_def using g t fr c(1) m by simp
    from link_state[OF pk p False lc_def rc_def] obtain s2 where
      s2: "allocChildren s t = (True, s2)"
        "LeftChild (nd s2 t) = Some lc" "RightChild (nd s2 t) = Some rc"
        "nd (linkChildren s2 t lc rc) = linked ?h t lc rc"
        "poolOk w (linkChildren s2 t lc rc)"
        "nextTriNodeIdx (currentPool (linkChildren s2 t lc rc)) = nextTriNodeIdx (currentPool s) + 2"
        "length (pool (currentPool (linkChildren s2 t lc rc))) = length (pool (currentPool s))"
        "nodes w (linkChildren s2 t lc rc) = addKids ?A lc rc" by blast
    let ?s3 = "linkChildren s2 t lc rc"
    have kc: "kidsOk ?A lv ?h c" using gmesh_kids[OF g cA] .
    obtain ca cb where k2: "LeftChild (?h c) = Some ca" "RightChild (?h c) = Some cb"
      using kc c(2) unfolding kidsOk_def IsLeaf_def by auto
    have cp: "crossPre (nodes w ?s3) (lvKids lv t lc rc) (nd ?s3) t c lc rc ca cb"
      unfolding s2(4) s2(8) using crossPre_after_link[OF p c k2] .
    note d = crossPreD[OF cp]
    let ?s4 = "crossLink ?s3 lc rc c ca cb"
    have run: "Split (Suc m) t s = Some (Inr (True, ?s4))"
      unfolding pre s2(1) using s2(2,3) d(5,6,9,10) by (simp add: deref_def IsBranch_def)
    note cs = cross_state[OF s2(5) cp]
    have g4: "gmesh (nodes w ?s4) (lvKids lv t lc rc) (nd ?s4) {}"
      unfolding cs(1,3) using cross_gmesh[OF cp] .
    have gr: "grow k ?A lv ?h (nodes w ?s4) (lvKids lv t lc rc) (nd ?s4)"
      unfolding cs(1,3)
      using grow_trans[OF grow_link[OF p k] grow_cross[OF cp[unfolded s2(4) s2(8)]]]
      by (simp add: s2(4,8))
    have nl: "\<not> IsLeaf (nd ?s4 t)" unfolding cs(1) using d(4) by (simp add: crossH_simps[OF cp])
    have "stepOk w k s lv t ?s4"
      unfolding stepOk_def using cs(2) g4 gr nl s2(6,7) by auto
    then show ?thesis using run by blast
  qed
qed

lemma nodes_mono:
  "nextTriNodeIdx (currentPool s) \<le> nextTriNodeIdx (currentPool s') \<Longrightarrow> nodes w s \<subseteq> nodes w s'"
  by (auto simp: nodes_def live_def split: addr.splits)

lemma forced_refl:
  assumes "poolOk w s" "gmesh (nodes w s) lv (nd s) {}" "IsLeaf (nd s t)"
    "\<And>c. BaseNeighbor (nd s t) = Some c \<Longrightarrow> BaseNeighbor (nd s c) = Some t"
  shows "forced w s lv t s"
  unfolding forced_def using assms grow_refl by auto

lemma forced_after:
  assumes g: "gmesh (nodes w s) lv (nd s) {}" and t: "t \<in> nodes w s" "IsLeaf (nd s t)"
    and b: "BaseNeighbor (nd s t) = Some b" "BaseNeighbor (nd s b) \<noteq> Some t"
    and st: "stepOk w (lv b) s lv b s1"
  shows "forced w s lv t s1"
proof -
  let ?A = "nodes w s" and ?h = "nd s" and ?A1 = "nodes w s1" and ?h1 = "nd s1"
  have bo: "baseOk ?A lv ?h {} t b" using gmesh_B[OF g t b(1)] .
  have bA: "b \<in> ?A" and l: "lv t = Suc (lv b)" using bo b(2) unfolding baseOk_def by auto
  have pk: "poolOk w s1" "nextTriNodeIdx (currentPool s) \<le> nextTriNodeIdx (currentPool s1)"
    "length (pool (currentPool s1)) = length (pool (currentPool s))"
    using st unfolding stepOk_def by simp_all
  have rest: "IsLeaf (?h1 t)
          \<and> (\<forall>c. BaseNeighbor (?h1 t) = Some c \<longrightarrow> BaseNeighbor (?h1 c) = Some t)
          \<and> (\<exists>lv1. lv1 t = lv t \<and> gmesh ?A1 lv1 ?h1 {} \<and> grow (lv t) ?A lv ?h ?A1 lv1 ?h1)"
    if o: "\<not> OutOfNodes (currentPool s1)"
  proof -
    from st o obtain lv1 where br: "\<not> IsLeaf (?h1 b)" and g1: "gmesh ?A1 lv1 ?h1 {}"
      and gr: "grow (lv b) ?A lv ?h ?A1 lv1 ?h1"
      unfolding stepOk_def by blast
    have lt: "lv b < lv t" using l by simp
    have t1: "t \<in> ?A1" using growD(1)[OF gr] t(1) by blast
    have l1: "lv1 t = lv t" using growD(2)[OF gr t(1)] .
    have lf: "IsLeaf (?h1 t)" using growD(4)[OF gr t lt] .
    have mu: "BaseNeighbor (?h1 c) = Some t" if c: "BaseNeighbor (?h1 t) = Some c" for c
    proof -
      have bo1: "baseOk ?A1 lv1 ?h1 {} t c" using gmesh_B[OF g1 t1 lf c] .
      then have cl: "IsLeaf (?h1 c)" unfolding baseOk_def by simp
      have "BaseNeighbor (?h1 t) = BaseNeighbor (?h t)
         \<or> (\<exists>c. BaseNeighbor (?h1 t) = Some c \<and> c \<in> ?A1 \<and> c \<notin> ?A \<and> lv1 c = lv t)"
        using growD(5)[OF gr t lt] .
      then have "lv1 c = lv t"
      proof
        assume "BaseNeighbor (?h1 t) = BaseNeighbor (?h t)"
        then have "c = b" using c b(1) by simp
        then show ?thesis using cl br by simp
      next
        assume "\<exists>c. BaseNeighbor (?h1 t) = Some c \<and> c \<in> ?A1 \<and> c \<notin> ?A \<and> lv1 c = lv t"
        then show ?thesis using c by auto
      qed
      then show ?thesis using bo1 l1 unfolding baseOk_def by auto
    qed
    have "grow (lv t) ?A lv ?h ?A1 lv1 ?h1" using grow_mono[OF gr] lt by simp
    then show ?thesis using lf mu l1 g1 by blast
  qed
  show ?thesis unfolding forced_def using pk rest by blast
qed

lemma stepOk_out:
  assumes "poolOk w s'" "nextTriNodeIdx (currentPool s) \<le> nextTriNodeIdx (currentPool s')"
    "length (pool (currentPool s')) = length (pool (currentPool s))" "OutOfNodes (currentPool s')"
  shows "stepOk w k s lv t s'"
  using assms by (simp add: stepOk_def)

lemma afterForce_ok:
  assumes f: "forced w s lv t s1" and t: "t \<in> nodes w s"
  shows "(\<forall>r. afterForce n t s1 = Some r \<longrightarrow> (\<exists>ok s'. r = Inr (ok, s') \<and> stepOk w (lv t) s lv t s'))
       \<and> (0 < n \<longrightarrow> afterForce n t s1 \<noteq> None)"
proof -
  let ?A = "nodes w s" and ?h = "nd s" and ?A1 = "nodes w s1" and ?h1 = "nd s1"
  have pk: "poolOk w s1" and nx: "nextTriNodeIdx (currentPool s) \<le> nextTriNodeIdx (currentPool s1)"
    and ln: "length (pool (currentPool s1)) = length (pool (currentPool s))"
    using f unfolding forced_def by simp_all
  have t1: "t \<in> ?A1" using nodes_mono[OF nx] t by blast
  show ?thesis
  proof (cases "OutOfNodes (currentPool s1)")
    case True
    from allocChildren_fail_pool[OF pk t1 True] obtain s2 where
      s2: "allocChildren s1 t = (False, s2)" "poolOk w s2"
       "nextTriNodeIdx (currentPool s2) = nextTriNodeIdx (currentPool s1)"
       "length (pool (currentPool s2)) = length (pool (currentPool s1))" by blast
    have run: "afterForce n t s1 = Some (Inr (False, s2))" unfolding afterForce_def s2(1) by simp
    have o2: "OutOfNodes (currentPool s2)" using True by (simp add: OutOfNodes_def s2(3,4))
    have "stepOk w (lv t) s lv t s2"
      by (rule stepOk_out[OF s2(2) _ _ o2]) (simp_all add: s2(3,4) nx ln)
    then show ?thesis using run by auto
  next
    case False
    from f False obtain lv1 where lf: "IsLeaf (?h1 t)"
      and mu: "\<And>c. BaseNeighbor (?h1 t) = Some c \<Longrightarrow> BaseNeighbor (?h1 c) = Some t"
      and l1: "lv1 t = lv t" and g1: "gmesh ?A1 lv1 ?h1 {}"
      and gr1: "grow (lv t) ?A lv ?h ?A1 lv1 ?h1"
      unfolding forced_def by blast
    define lc where "lc = Pool (nextTriNodeIdx (currentPool s1))"
    define rc where "rc = Pool (Suc (nextTriNodeIdx (currentPool s1)))"
    have fr: "lc \<notin> ?A1" "rc \<notin> ?A1" "lc \<noteq> rc"
      by (simp_all add: lc_def rc_def nodes_def live_def)
    have p: "linkPre ?A1 lv1 ?h1 {} t lc rc"
      unfolding linkPre_def using g1 t1 lf fr mu by simp
    from link_state[OF pk p False lc_def rc_def] obtain s2 where
      s2: "allocChildren s1 t = (True, s2)"
        "LeftChild (nd s2 t) = Some lc" "RightChild (nd s2 t) = Some rc"
        "nd (linkChildren s2 t lc rc) = linked ?h1 t lc rc"
        "poolOk w (linkChildren s2 t lc rc)"
        "nextTriNodeIdx (currentPool (linkChildren s2 t lc rc)) = nextTriNodeIdx (currentPool s1) + 2"
        "length (pool (currentPool (linkChildren s2 t lc rc))) = length (pool (currentPool s1))"
        "nodes w (linkChildren s2 t lc rc) = addKids ?A1 lc rc" by blast
    define s3 where "s3 = linkChildren s2 t lc rc"
    define lv3 where "lv3 = lvKids lv1 t lc rc"
    note s3 = s2(4-8)[folded s3_def]
    have run: "afterForce n t s1 = finishSplit n t lc rc s3"
      unfolding afterForce_def s2(1) s3_def using s2(2,3) by (simp add: deref_def)
    note nw = linked_new[OF p]
    have g3: "gmesh (nodes w s3) lv3 (nd s3) (waitAfter ?h1 {} t)"
      unfolding s3(1) s3(5) lv3_def using link_gmesh[OF p] .
    have gr3: "grow (lv t) ?A lv ?h (nodes w s3) lv3 (nd s3)"
      unfolding s3(1) s3(5) lv3_def
      using grow_trans[OF gr1 grow_link[OF p]] l1 by simp
    have b3: "BaseNeighbor (nd s3 t) = BaseNeighbor (?h1 t)" by (simp add: s3(1) nw(1))
    have t3: "\<not> IsLeaf (nd s3 t)" by (simp add: s3(1) nw(1) IsLeaf_def)
    have tA3: "t \<in> nodes w s3" using t1 by (simp add: s3(5) addKids_def)
    have nx3: "nextTriNodeIdx (currentPool s) \<le> nextTriNodeIdx (currentPool s3)"
      using nx by (simp add: s3(3))
    have ln3: "length (pool (currentPool s3)) = length (pool (currentPool s))"
      by (simp add: s3(4) ln)
    show ?thesis
    proof (cases "BaseNeighbor (?h1 t)")
      case None
      let ?s4 = "setLeft (setRight s3 lc None) rc None"
      have v: "valid s3 lc" "valid s3 rc"
        using nodes_valid[OF s3(2)] by (simp_all add: s3(5) addKids_def)
      have h4: "nd ?s4 = nd s3"
        using v fr(3) by (auto simp: nd_setLeft nd_setRight s3(1) nw(2,3) fun_eq_iff)
      have n4: "nodes w ?s4 = nodes w s3" by (rule nodes_same) simp
      have pk4: "poolOk w ?s4" using s3(2) unfolding poolOk_nd h4 by simp
      have fin: "finishSplit n t lc rc s3 = Some (Inr (True, ?s4))"
        by (simp add: finishSplit_def b3 None)
      have g4: "gmesh (nodes w ?s4) lv3 (nd ?s4) {}"
        using g3 unfolding h4 n4 by (simp add: waitAfter_def None)
      have "stepOk w (lv t) s lv t ?s4"
        unfolding stepOk_def using pk4 nx3 ln3 t3 g4 gr3 by (auto simp: h4 n4)
      then show ?thesis using run fin by auto
    next
      case (Some c)
      note pt = partner_of_t[OF p Some]
      have w3: "waitAfter ?h1 {} t = {t}" by (simp add: waitAfter_def Some)
      have bo: "baseOk ?A1 lv1 ?h1 {} t c" using gmesh_B[OF g1 t1 lf Some] .
      then have cl: "IsLeaf (?h1 c)" unfolding baseOk_def by simp
      note oc = linked_old[OF p pt(1,2)]
      have c3: "IsLeaf (nd s3 c)" using cl by (simp add: s3(1) oc)
      have cb3: "BaseNeighbor (nd s3 c) = Some t"
        using pt(3,5,6) by (simp add: s3(1) oc repoint_cases(3))
      have cA3: "c \<in> nodes w s3" using pt(1) by (simp add: s3(5) addKids_def)
      have lc3: "lv3 c \<le> lv t" using pt(1,4) l1 lvKids_simps(3)[OF p] by (simp add: lv3_def)
      have fin: "finishSplit n t lc rc s3 = bindR (Split n c s3) (\<lambda>(ok, s'). Some (Inr (True, s')))"
        using c3 by (simp add: finishSplit_def b3 Some IsBranch_def)
      show ?thesis
      proof (cases n)
        case 0
        have "afterForce n t s1 = None" using run fin 0 by (simp add: bindR_def)
        then show ?thesis using 0 by simp
      next
        case (Suc m)
        from partner_call[OF s3(2) g3[unfolded w3] cA3 c3 cb3 t3 lc3, of m]
        obtain ok s' where sp: "Split (Suc m) c s3 = Some (Inr (ok, s'))"
          and st: "stepOk w (lv t) s3 lv3 c s'" by blast
        have res: "afterForce n t s1 = Some (Inr (True, s'))"
          using run fin Suc sp by (simp add: bindR_def)
        have pk': "poolOk w s'" and nx': "nextTriNodeIdx (currentPool s3) \<le> nextTriNodeIdx (currentPool s')"
          and ln': "length (pool (currentPool s')) = length (pool (currentPool s3))"
          using st unfolding stepOk_def by simp_all
        have fin': "\<not> IsLeaf (nd s' t)
           \<and> (\<exists>lv'. gmesh (nodes w s') lv' (nd s') {} \<and> grow (lv t) ?A lv ?h (nodes w s') lv' (nd s'))"
          if o: "\<not> OutOfNodes (currentPool s')"
        proof -
          from st o obtain lv' where g': "gmesh (nodes w s') lv' (nd s') {}"
            and gr': "grow (lv t) (nodes w s3) lv3 (nd s3) (nodes w s') lv' (nd s')"
            unfolding stepOk_def by blast
          have "\<not> IsLeaf (nd s' t)" using growD(3)[OF gr' tA3 t3] .
          then show ?thesis using g' grow_trans[OF gr3 gr'] by blast
        qed
        have "stepOk w (lv t) s lv t s'"
          unfolding stepOk_def using pk' nx3 nx' ln' ln3 fin' by auto
        then show ?thesis using res by auto
      qed
    qed
  qed
qed

lemma stepOk_refl:
  assumes "poolOk w s" "gmesh (nodes w s) lv (nd s) {}" "\<not> IsLeaf (nd s t)"
  shows "stepOk w k s lv t s"
  unfolding stepOk_def using assms grow_refl by auto

lemma Split_top:
  assumes pk: "poolOk w s" and g: "gmesh (nodes w s) lv (nd s) {}" and t: "t \<in> nodes w s"
  shows "(\<forall>r. Split n t s = Some r \<longrightarrow> (\<exists>ok s'. r = Inr (ok, s') \<and> stepOk w (lv t) s lv t s'))
       \<and> (lv t + 2 \<le> n \<longrightarrow> Split n t s \<noteq> None)"
  using t
proof (induction n arbitrary: t)
  case 0
  show ?case by simp
next
  case (Suc n)
  note t = Suc.prems
  show ?case
  proof (cases "IsLeaf (nd s t)")
    case False
    have "Split (Suc n) t s = Some (Inr (True, s))" using False by (simp add: Split_Suc)
    then show ?thesis using stepOk_refl[OF pk g False] by auto
  next
    case True
    have run: "Split (Suc n) t s = bindR (forceSplit n t s) (afterForce n t)"
      using True unfolding Split_Suc afterForce_def by simp
    have F: "(\<forall>r1. forceSplit n t s = Some r1 \<longrightarrow> (\<exists>s1. r1 = Inr s1 \<and> forced w s lv t s1))
           \<and> (lv t + 2 \<le> Suc n \<longrightarrow> forceSplit n t s \<noteq> None)"
    proof (cases "BaseNeighbor (nd s t)")
      case None
      have "forceSplit n t s = Some (Inr s)" by (simp add: forceSplit_def None)
      moreover have "forced w s lv t s" by (rule forced_refl[OF pk g True]) (simp add: None)
      ultimately show ?thesis by simp
    next
      case (Some b)
      show ?thesis
      proof (cases "BaseNeighbor (nd s b) = Some t")
        case mutual: True
        have "forceSplit n t s = Some (Inr s)" by (simp add: forceSplit_def Some mutual)
        moreover have "forced w s lv t s"
          by (rule forced_refl[OF pk g True]) (simp add: Some mutual)
        ultimately show ?thesis by simp
      next
        case False
        have fs: "forceSplit n t s = bindR (Split n b s) (\<lambda>(ok, s'). Some (Inr s'))"
          by (simp add: forceSplit_def Some False)
        have bo: "baseOk (nodes w s) lv (nd s) {} t b" using gmesh_B[OF g t True Some] .
        have bA: "b \<in> nodes w s" and l: "lv t = Suc (lv b)"
          using bo False unfolding baseOk_def by auto
        note ih = Suc.IH[OF bA]
        have a: "\<exists>s1. r1 = Inr s1 \<and> forced w s lv t s1" if r1: "forceSplit n t s = Some r1" for r1
        proof -
          from r1 obtain r where r: "Split n b s = Some r"
            unfolding fs by (auto simp: bindR_def split: option.splits)
          from ih r obtain ok s1 where s1: "r = Inr (ok, s1)" "stepOk w (lv b) s lv b s1" by blast
          have "r1 = Inr s1" using r1 unfolding fs r s1(1) by (simp add: bindR_def)
          then show ?thesis using forced_after[OF g t True Some False s1(2)] by simp
        qed
        have b: "forceSplit n t s \<noteq> None" if "lv t + 2 \<le> Suc n"
        proof -
          have "Split n b s \<noteq> None" using ih that l by simp
          then obtain r where r: "Split n b s = Some r" by blast
          from ih r obtain ok s1 where s1: "r = Inr (ok, s1)" by blast
          show ?thesis unfolding fs r s1 by (simp add: bindR_def)
        qed
        show ?thesis using a b by blast
      qed
    qed
    have p1: "\<exists>ok s'. r = Inr (ok, s') \<and> stepOk w (lv t) s lv t s'" if r: "Split (Suc n) t s = Some r" for r
    proof -
      from r obtain r1 where r1: "forceSplit n t s = Some r1"
        unfolding run by (auto simp: bindR_def split: option.splits)
      from F r1 obtain s1 where s1: "r1 = Inr s1" "forced w s lv t s1" by blast
      have "afterForce n t s1 = Some r" using r unfolding run r1 s1(1) by (simp add: bindR_def)
      then show ?thesis using afterForce_ok[OF s1(2) t, of n] by blast
    qed
    have p2: "Split (Suc n) t s \<noteq> None" if n: "lv t + 2 \<le> Suc n"
    proof -
      from F n obtain r1 where r1: "forceSplit n t s = Some r1" by blast
      from F r1 obtain s1 where s1: "r1 = Inr s1" "forced w s lv t s1" by blast
      have "afterForce n t s1 \<noteq> None" using afterForce_ok[OF s1(2) t, of n] n by simp
      then show ?thesis unfolding run r1 s1(1) by (simp add: bindR_def)
    qed
    show ?thesis using p1 p2 by blast
  qed
qed

lemma poolSame_refl: "poolSame s s" by (simp add: poolSame_def)

lemma poolSame_trans: "poolSame s s1 \<Longrightarrow> poolSame s1 s2 \<Longrightarrow> poolSame s s2"
  by (simp add: poolSame_def)

lemma poolSame_alloc: "allocChildren s t = (ok, s2) \<Longrightarrow> poolSame s s2"
  by (auto simp: allocChildren_def Allocate_def Let_def poolSame_def split: if_splits)

lemma poolSame_link: "poolSame s (linkChildren s t lc rc)"
  by (simp add: poolSame_def)

lemma Split_poolSame:
  "Split n t s = Some (Inr (ok, s')) \<Longrightarrow> poolSame s s'"
proof (induction n arbitrary: t s ok s')
  case 0
  then show ?case by simp
next
  case (Suc n)
  show ?case
  proof (cases "IsLeaf (nd s t)")
    case False
    then show ?thesis using Suc.prems by (simp add: Split_Suc poolSame_refl)
  next
    case True
    have run: "bindR (forceSplit n t s) (afterForce n t) = Some (Inr (ok, s'))"
      using Suc.prems True unfolding Split_Suc afterForce_def by simp
    then obtain s1 where s1: "forceSplit n t s = Some (Inr s1)" "afterForce n t s1 = Some (Inr (ok, s'))"
      by (auto simp: bindR_def split: option.splits sum.splits)
    have a: "poolSame s s1"
    proof (cases "BaseNeighbor (nd s t)")
      case None
      then show ?thesis using s1(1) by (simp add: forceSplit_def poolSame_refl)
    next
      case (Some b)
      show ?thesis
      proof (cases "BaseNeighbor (nd s b) = Some t")
        case True
        then show ?thesis using s1(1) Some by (simp add: forceSplit_def poolSame_refl)
      next
        case False
        then obtain a where "Split n b s = Some (Inr (a, s1))"
          using s1(1) Some by (auto simp: forceSplit_def bindR_def split: option.splits sum.splits)
        then show ?thesis using Suc.IH by blast
      qed
    qed
    obtain k s2 where al: "allocChildren s1 t = (k, s2)" by (cases "allocChildren s1 t")
    note b = poolSame_alloc[OF al]
    have c: "poolSame s2 s'"
    proof (cases k)
      case False
      then show ?thesis using s1(2) al by (simp add: afterForce_def poolSame_refl)
    next
      case True
      then obtain lc rc where f: "finishSplit n t lc rc (linkChildren s2 t lc rc) = Some (Inr (ok, s'))"
        using s1(2) al by (auto simp: afterForce_def deref_def split: option.splits)
      let ?s3 = "linkChildren s2 t lc rc"
      have "poolSame ?s3 s'"
      proof (cases "BaseNeighbor (nd ?s3 t)")
        case None
        then show ?thesis using f by (auto simp: finishSplit_def poolSame_def)
      next
        case (Some b)
        show ?thesis
        proof (cases "IsBranch (nd ?s3 b)")
          case True
          then show ?thesis using f Some
            by (auto simp: finishSplit_def deref_def poolSame_def split: option.splits)
        next
          case False
          then obtain a where "Split n b ?s3 = Some (Inr (a, s'))"
            using f Some by (auto simp: finishSplit_def bindR_def split: option.splits sum.splits)
          then show ?thesis using Suc.IH by blast
        qed
      qed
      then show ?thesis using poolSame_trans[OF poolSame_link] by blast
    qed
    show ?thesis using poolSame_trans[OF a poolSame_trans[OF b c]] .
  qed
qed

lemma nodeAt_nodes:
  assumes g: "gmesh (nodes w s) lv (nd s) W"
  shows "a \<in> nodes w s \<Longrightarrow> nodeAt s a ds = Some t \<Longrightarrow> t \<in> nodes w s"
proof (induction ds arbitrary: a)
  case Nil
  then show ?case by simp
next
  case (Cons d ds)
  from Cons.prems(2) obtain c where c: "(if d then RightChild (nd s a) else LeftChild (nd s a)) = Some c"
    "nodeAt s c ds = Some t"
    by (auto split: option.splits)
  have "c \<in> nodes w s"
    using gmesh_kids[OF g Cons.prems(1)] c(1) unfolding kidsOk_def by (auto split: if_splits)
  then show ?case using Cons.IH c(2) by blast
qed

lemma roots_nodes: "BaseLeft \<in> nodes w s" "BaseRight \<in> nodes w s"
  by (simp_all add: nodes_def live_def)

lemma Split_meshOk:
  assumes m: "meshOk w s" and t: "t \<in> nodes w s" and r: "Split n t s = Some r"
  shows "\<exists>ok s'. r = Inr (ok, s') \<and> poolSame s s' \<and> poolOk w s'
            \<and> (\<not> OutOfNodes (currentPool s') \<longrightarrow> meshOk w s')"
proof -
  from m obtain lv where pk: "poolOk w s" and g: "gmesh (nodes w s) lv (nd s) {}"
    unfolding meshOk_def by blast
  from Split_top[OF pk g t, of n] r obtain ok s' where
    s': "r = Inr (ok, s')" "stepOk w (lv t) s lv t s'" by blast
  have "poolSame s s'" "poolOk w s'" using s'(2) unfolding stepOk_def poolSame_def by simp_all
  moreover have "\<not> OutOfNodes (currentPool s') \<longrightarrow> meshOk w s'"
    using s'(2) unfolding stepOk_def meshOk_def by blast
  ultimately show ?thesis using s'(1) by blast
qed

lemma OutOfNodes_poolSame: "poolSame s s' \<Longrightarrow> OutOfNodes (currentPool s) \<Longrightarrow> OutOfNodes (currentPool s')"
  by (auto simp: poolSame_def OutOfNodes_def)

lemma SplitCalls_poolSame:
  "SplitCalls cs s = Some (Inr s') \<Longrightarrow> poolSame s s'"
proof (induction cs arbitrary: s)
  case Nil
  then show ?case by (simp add: poolSame_refl)
next
  case (Cons c cs)
  obtain n r path where c: "c = (n, r, path)" by (cases c)
  from Cons.prems obtain t ok s1 where
    "Split n t s = Some (Inr (ok, s1))" "SplitCalls cs s1 = Some (Inr s')"
    unfolding c by (auto simp: deref_def bindR_def split: option.splits sum.splits)
  then show ?case using Split_poolSame Cons.IH poolSame_trans by blast
qed

lemma SplitCalls_meshOk:
  "meshOk w s \<Longrightarrow> SplitCalls cs s = Some (Inr s') \<Longrightarrow> \<not> OutOfNodes (currentPool s') \<Longrightarrow> meshOk w s'"
proof (induction cs arbitrary: s)
  case Nil
  then show ?case by simp
next
  case (Cons c cs)
  obtain n r path where c: "c = (n, r, path)" by (cases c)
  from Cons.prems(2) obtain t rs where
    t: "nodeAt s (if r then BaseRight else BaseLeft) path = Some t"
    and rs: "Split n t s = Some rs"
    unfolding c by (auto simp: deref_def bindR_def split: option.splits sum.splits)
  from Cons.prems(1) obtain lv where g: "gmesh (nodes w s) lv (nd s) {}" unfolding meshOk_def by blast
  have tn: "t \<in> nodes w s" using nodeAt_nodes[OF g _ t] roots_nodes by simp
  from Split_meshOk[OF Cons.prems(1) tn rs] obtain ok s1 where
    s1: "rs = Inr (ok, s1)" "poolSame s s1" "\<not> OutOfNodes (currentPool s1) \<longrightarrow> meshOk w s1" by blast
  have rest: "SplitCalls cs s1 = Some (Inr s')"
    using Cons.prems(2) unfolding c by (simp add: t rs s1(1) deref_def bindR_def)
  have "\<not> OutOfNodes (currentPool s1)"
    using OutOfNodes_poolSame[OF SplitCalls_poolSame[OF rest]] Cons.prems(3) by blast
  then show ?case using Cons.IH[OF _ rest Cons.prems(3)] s1(3) by blast
qed

lemma pool_inv_poolOk:
  "pool_inv (currentPool s) \<Longrightarrow> poolOk (nextTriNodeIdx (currentPool s)) s"
proof -
  assume a: "pool_inv (currentPool s)"
  have "pool (currentPool s) ! i = zeroNode"
    if i: "nextTriNodeIdx (currentPool s) \<le> i" "i < length (pool (currentPool s))" for i
  proof -
    have "\<forall>n < length (pool (currentPool s)) - nextTriNodeIdx (currentPool s).
            pool (currentPool s) ! (nextTriNodeIdx (currentPool s) + n) = zeroNode"
      using a by (simp add: pool_inv_def list_all_length)
    then have "pool (currentPool s) ! (nextTriNodeIdx (currentPool s) + (i - nextTriNodeIdx (currentPool s))) = zeroNode"
      using i by (metis diff_less_mono)
    then show ?thesis using i by simp
  qed
  then show ?thesis using a by (simp add: pool_inv_def poolOk_def)
qed

lemma Reset_meshOk:
  assumes "pool_inv (currentPool s)"
  shows "meshOk (nextTriNodeIdx (currentPool s)) (Patch_Reset s)"
proof -
  let ?w = "nextTriNodeIdx (currentPool s)" and ?s = "Patch_Reset s"
  have cp: "currentPool ?s = currentPool s"
    by (simp add: Patch_Reset_def Let_def setBase_def upd_def)
  have pk: "poolOk ?w ?s" using pool_inv_poolOk[OF assms] by (simp add: poolOk_def cp)
  have ns: "nodes ?w ?s = {BaseLeft, BaseRight}"
  proof -
    have "live ?w ?s x = (x = BaseLeft \<or> x = BaseRight)" for x
      by (cases x) (simp_all add: live_def cp)
    then show ?thesis by (auto simp: nodes_def)
  qed
  have l: "nd ?s BaseLeft = zeroNode\<lparr>BaseNeighbor := Some BaseRight\<rparr>"
    and r: "nd ?s BaseRight = zeroNode\<lparr>BaseNeighbor := Some BaseLeft\<rparr>"
    by (simp_all add: Patch_Reset_def Let_def setBase_def upd_def nd_def)
  have "gmesh (nodes ?w ?s) (\<lambda>_. 0) (nd ?s) {}"
    unfolding ns gmesh_def
    by (simp add: l r kidsOk_def slotsDistinct_def leafOk_def baseOk_def IsLeaf_def zeroNode_def)
  then show ?thesis using pk unfolding meshOk_def by blast
qed

lemma meshOk_diamond:
  assumes m: "meshOk w s" and u: "live w s u" "IsBranch (nd s u)" "BaseNeighbor (nd s u) = Some b"
  shows "live w s b \<and> IsBranch (nd s b) \<and> BaseNeighbor (nd s b) = Some u \<and> crossed (nd s) u b"
proof -
  from m obtain lv where g: "gmesh (nodes w s) lv (nd s) {}" unfolding meshOk_def by blast
  have uA: "u \<in> nodes w s" using u(1) by (simp add: nodes_def)
  have "branchOk (nodes w s) lv (nd s) {} u"
    using gmesh_branch[OF g uA] u(2) by (simp add: IsBranch_def)
  then show ?thesis using u(3) unfolding branchOk_def by (simp add: nodes_def IsBranch_def)
qed

lemma meshOk_returns:
  assumes m: "meshOk w s" and t: "live w s t"
  shows "\<exists>n. \<forall>m \<ge> n. \<exists>ok s'. Split m t s = Some (Inr (ok, s'))"
proof -
  from m obtain lv where pk: "poolOk w s" and g: "gmesh (nodes w s) lv (nd s) {}"
    unfolding meshOk_def by blast
  have tA: "t \<in> nodes w s" using t by (simp add: nodes_def)
  have "\<exists>ok s'. Split m t s = Some (Inr (ok, s'))" if "lv t + 2 \<le> m" for m
  proof -
    note st = Split_top[OF pk g tA, of m]
    from st that obtain r where r: "Split m t s = Some r" by blast
    from st r obtain ok s' where "r = Inr (ok, s')" by blast
    then show ?thesis using r by blast
  qed
  then show ?thesis by blast
qed

lemma crossed_crossLinked: "crossed (nd s) u b \<Longrightarrow> crossLinked s u b"
  unfolding crossed_def crossLinked_def by auto

lemma nd_mk:
  "nd (mkPatch bl br pl nx) BaseLeft = bl"
  "nd (mkPatch bl br pl nx) BaseRight = br"
  "nd (mkPatch bl br pl nx) (Pool i) = pl ! i"
  by (simp_all add: nd_def mkPatch_def)

lemma upd_mk:
  "upd (mkPatch bl br pl nx) BaseLeft f = mkPatch (f bl) br pl nx"
  "upd (mkPatch bl br pl nx) BaseRight f = mkPatch bl (f br) pl nx"
  "upd (mkPatch bl br pl nx) (Pool i) f = mkPatch bl br (pl[i := f (pl ! i)]) nx"
  by (simp_all add: upd_def mkPatch_def)

lemma node5_sel:
  "LeftChild (node5 lc rc b l r) = lc" "RightChild (node5 lc rc b l r) = rc"
  "BaseNeighbor (node5 lc rc b l r) = b" "LeftNeighbor (node5 lc rc b l r) = l"
  "RightNeighbor (node5 lc rc b l r) = r"
  by (simp_all add: node5_def)

lemma node5_upd:
  "(node5 lc rc b l r)\<lparr>LeftChild := x\<rparr> = node5 x rc b l r"
  "(node5 lc rc b l r)\<lparr>RightChild := x\<rparr> = node5 lc x b l r"
  "(node5 lc rc b l r)\<lparr>BaseNeighbor := x\<rparr> = node5 lc rc x l r"
  "(node5 lc rc b l r)\<lparr>LeftNeighbor := x\<rparr> = node5 lc rc b x r"
  "(node5 lc rc b l r)\<lparr>RightNeighbor := x\<rparr> = node5 lc rc b l x"
  by (simp_all add: node5_def)

lemma pool_mk:
  "currentPool (mkPatch bl br pl nx) = \<lparr>pool = pl, nextTriNodeIdx = nx\<rparr>"
  "(mkPatch bl br pl nx)\<lparr>currentPool := \<lparr>pool = pl', nextTriNodeIdx = nx'\<rparr>\<rparr> = mkPatch bl br pl' nx'"
  by (simp_all add: mkPatch_def)

lemma base_mk:
  "(mkPatch bl br pl nx)\<lparr>baseLeft := x\<rparr> = mkPatch x br pl nx"
  "(mkPatch bl br pl nx)\<lparr>baseRight := x\<rparr> = mkPatch bl x pl nx"
  by (simp_all add: mkPatch_def)

lemma zeroNode_node5: "zeroNode = node5 None None None None None"
  by (simp add: zeroNode_def node5_def)

lemmas mk_eval = nd_mk upd_mk node5_sel node5_upd pool_mk base_mk zeroNode_node5
  Split.simps allocChildren_def Allocate_def OutOfNodes_def Let_def linkChildren_def
  relinkLeft_def relinkRight_def crossLink_def setBase_def setLeft_def setRight_def
  bindR_def deref_def IsLeaf_def IsBranch_def

lemma resetPatch_eq:
  "resetPatch n = mkPatch (node5 None None (Some BaseRight) None None)
     (node5 None None (Some BaseLeft) None None) (replicate n (node5 None None None None None)) 0"
  by (simp add: resetPatch_def Patch_Reset_def mk_eval)

lemma replicate_2: "replicate (Suc (Suc 0)) x = [x, x]" by simp

lemma replicate_8: "replicate 8 x = [x, x, x, x, x, x, x, x]" by (simp add: eval_nat_numeral)

lemma halfSplit_run:
  "SplitCalls [(2, False, [])] (resetPatch (Suc (Suc 0))) = Some (Inr halfSplitPatch)"
  unfolding resetPatch_eq replicate_2 halfSplitPatch_def
  by (simp add: mk_eval eval_nat_numeral)

lemma refined_run:
  "SplitCalls [(2, False, []), (2, True, [True])] (resetPatch 8) = Some (Inr refinedPatch)"
  unfolding resetPatch_eq replicate_8 refinedPatch_def
  by (simp add: mk_eval eval_nat_numeral)


lemma refined_facts:
  "\<not> OutOfNodes (currentPool refinedPatch)"
  "nd refinedPatch BaseLeft = node5 (Some (Pool 0)) (Some (Pool 1)) (Some BaseRight) None None"
  "nd refinedPatch BaseRight = node5 (Some (Pool 2)) (Some (Pool 3)) (Some BaseLeft) None None"
  "nd refinedPatch (Pool 0) = node5 None None None (Some (Pool 1)) (Some (Pool 4))"
  "nd refinedPatch (Pool 1) = node5 None None None (Some (Pool 2)) (Some (Pool 0))"
  "nd refinedPatch (Pool 3) = node5 (Some (Pool 4)) (Some (Pool 5)) None (Some (Pool 0)) (Some (Pool 2))"
  by (simp_all add: refinedPatch_def nd_mk pool_mk OutOfNodes_def eval_nat_numeral)




end
